(* ===== verification/Ps_Prelude.thy ===== *)
theory Ps_Prelude
  imports Complex_Main "HOL-Library.Char_ord" "HOL-Library.AList" "HOL-Library.Sublist"
begin

text \<open>
  Shared ground of the PeakShield development: the names of the types every component uses,
  the collections of rewrite rules, and the parts of Go's byte and string library
  (\<open>bytes\<close>, \<open>strings\<close>, \<open>fmt\<close>) that the source calls.  A Go string or byte slice is a
  list of bytes, and a byte is Isabelle's 8-bit \<open>char\<close>; the library's \<open>-1\<close> for "not
  found" is \<open>None\<close>.
\<close>

type_synonym byte = char
type_synonym bytes = "char list"

text \<open>Rewrite rules of the byte library and of the ResponseWriter model.\<close>

named_theorems bytes_simps
named_theorems writer_simps

section \<open>ASCII case folding\<close>

text \<open>The loop body \<open>if c >= 'A' && c <= 'Z' { c += 32 }\<close> of the stripper's scanners.\<close>

definition lower_byte :: "byte \<Rightarrow> byte" where
  "lower_byte c =
     (let n = (of_char c :: nat) in if 65 \<le> n \<and> n \<le> 90 then char_of (n + 32) else c)"

definition upper_byte :: "byte \<Rightarrow> byte" where
  "upper_byte c =
     (let n = (of_char c :: nat) in if 97 \<le> n \<and> n \<le> 122 then char_of (n - 32) else c)"

lemma of_char_bound [simp]: "(of_char c :: nat) < 256"
  by (metis mod_less_divisor of_char_mod_256 zero_less_numeral)

lemma of_char_lower_byte:
  "(of_char (lower_byte c) :: nat) =
     (if 65 \<le> (of_char c :: nat) \<and> (of_char c :: nat) \<le> 90 then of_char c + 32 else of_char c)"
  by (simp add: lower_byte_def Let_def of_char_of)

lemma lower_byte_idem [simp]: "lower_byte (lower_byte c) = lower_byte c"
proof -
  have "\<not> (65 \<le> (of_char (lower_byte c) :: nat) \<and> (of_char (lower_byte c) :: nat) \<le> 90)"
    by (simp add: of_char_lower_byte)
  then show ?thesis by (auto simp: lower_byte_def [of "lower_byte c"] Let_def)
qed

section \<open>Searching\<close>

text \<open>\<open>bytes.IndexByte\<close>: the first position of a byte.\<close>

fun index_byte :: "bytes \<Rightarrow> byte \<Rightarrow> nat option" where
  "index_byte [] c = None"
| "index_byte (b # bs) c = (if b = c then Some 0 else map_option Suc (index_byte bs c))"

lemma index_byte_None [bytes_simps]: "index_byte bs c = None \<longleftrightarrow> c \<notin> set bs"
  by (induction bs) auto

lemma index_byte_Some:
  "index_byte bs c = Some i \<longleftrightarrow> i < length bs \<and> bs ! i = c \<and> c \<notin> set (take i bs)"
proof (induction bs arbitrary: i)
  case Nil
  then show ?case by simp
next
  case (Cons b bs)
  then show ?case by (cases i) auto
qed

lemma index_byte_less: "index_byte bs c = Some i \<Longrightarrow> i < length bs"
  by (simp add: index_byte_Some)

lemma index_byte_split:
  assumes "index_byte bs c = Some i"
  shows "bs = take i bs @ c # drop (Suc i) bs" and "c \<notin> set (take i bs)"
  using assms by (auto simp: index_byte_Some id_take_nth_drop [symmetric])

text \<open>\<open>strings.Contains\<close>: a substring somewhere.\<close>

fun contains :: "bytes \<Rightarrow> bytes \<Rightarrow> bool" where
  "contains [] t = (t = [])"
| "contains (b # bs) t = (take (length t) (b # bs) = t \<or> contains bs t)"

lemma contains_iff: "contains s t \<longleftrightarrow> (\<exists>u v. s = u @ t @ v)"
proof (induction s)
  case Nil
  then show ?case by simp
next
  case (Cons b bs)
  have "take (length t) (b # bs) = t \<longleftrightarrow> (\<exists>v. b # bs = [] @ t @ v)"
    by (metis append_Nil append_eq_conv_conj append_take_drop_id)
  moreover have "(\<exists>u v. bs = u @ t @ v) \<longleftrightarrow> (\<exists>u v. b # bs = (b # u) @ t @ v)"
    by simp
  ultimately show ?case
    using Cons.IH by (metis append_Cons append_Nil list.exhaust list.inject contains.simps(2))
qed

section \<open>Trimming and splitting\<close>

text \<open>\<open>strings.TrimLeft(s, c)\<close> and \<open>strings.TrimRight(s, c)\<close> with a one-byte cut set.\<close>

definition trim_left :: "byte \<Rightarrow> bytes \<Rightarrow> bytes" where
  "trim_left c s = dropWhile (\<lambda>b. b = c) s"

definition trim_right :: "byte \<Rightarrow> bytes \<Rightarrow> bytes" where
  "trim_right c s = rev (dropWhile (\<lambda>b. b = c) (rev s))"

lemma trim_left_hd: "trim_left c s = [] \<or> hd (trim_left c s) \<noteq> c"
  using hd_dropWhile [of "\<lambda>b. b = c" s] by (auto simp: trim_left_def)

lemma trim_right_last: "trim_right c s = [] \<or> last (trim_right c s) \<noteq> c"
proof -
  have "dropWhile (\<lambda>b. b = c) (rev s) = [] \<or> hd (dropWhile (\<lambda>b. b = c) (rev s)) \<noteq> c"
    using hd_dropWhile [of "\<lambda>b. b = c" "rev s"] by auto
  then show ?thesis by (auto simp: trim_right_def last_rev)
qed

text \<open>\<open>strings.Split(s, sep)\<close> with a one-byte separator: never the empty list.\<close>

fun split_on :: "byte \<Rightarrow> bytes \<Rightarrow> bytes list" where
  "split_on c [] = [[]]"
| "split_on c (b # bs) =
     (if b = c then [] # split_on c bs
      else (case split_on c bs of [] \<Rightarrow> [[b]] | t # ts \<Rightarrow> (b # t) # ts))"

lemma split_on_nonempty [simp]: "split_on c s \<noteq> []"
  by (induction s) (auto split: list.splits)

lemma split_on_pieces: "t \<in> set (split_on c s) \<Longrightarrow> c \<notin> set t"
proof (induction s arbitrary: t)
  case Nil
  then show ?case by simp
next
  case (Cons b bs)
  then show ?case
    by (cases "split_on c bs") (auto split: if_splits)
qed

text \<open>\<open>strings.Join\<close>, the inverse of splitting.\<close>

fun join_on :: "byte \<Rightarrow> bytes list \<Rightarrow> bytes" where
  "join_on c [] = []"
| "join_on c [t] = t"
| "join_on c (t # u # ts) = t @ c # join_on c (u # ts)"

lemma join_Cons: "ts \<noteq> [] \<Longrightarrow> join_on c (t # ts) = t @ c # join_on c ts"
  by (cases ts) auto

lemma join_split: "join_on c (split_on c s) = s"
proof (induction s)
  case (Cons b s)
  obtain t ts where "split_on c s = t # ts" by (cases "split_on c s") auto
  with Cons show ?case by (cases ts) auto
qed simp

lemma split_on_single: "c \<notin> set t \<Longrightarrow> split_on c t = [t]"
  by (induction t) auto

lemma split_on_line: "c \<notin> set t \<Longrightarrow> split_on c (t @ c # s) = t # split_on c s"
proof (induction t)
  case (Cons b t)
  then show ?case by (cases "split_on c s") auto
qed simp

lemma split_on_join: "ts \<noteq> [] \<Longrightarrow> list_all (\<lambda>t. c \<notin> set t) ts \<Longrightarrow> split_on c (join_on c ts) = ts"
proof (induction ts)
  case (Cons t ts)
  then show ?case by (cases ts) (simp_all add: split_on_single split_on_line)
qed simp

lemma split_on_at: "split_on c (s @ c # u) = split_on c s @ split_on c u"
proof (induction s)
  case (Cons b s)
  obtain t ts where "split_on c s = t # ts" by (cases "split_on c s") auto
  with Cons show ?case by simp
qed simp

lemma split_on_no_sep: "list_all (\<lambda>e. c \<notin> set e) (split_on c s)"
  using split_on_pieces by (auto simp: list_all_iff)

lemma split_on_replicate: "split_on c (replicate m c @ t) = replicate m [] @ split_on c t"
  by (induction m) simp_all

text \<open>
  \<open>strings.TrimSpace\<close> cuts Unicode white space: the six ASCII bytes and the UTF-8 encodings of
  U+0085, U+00A0, U+1680, U+2000 to U+200A, U+2028, U+2029, U+202F, U+205F and U+3000.
\<close>

definition space_runes :: "bytes list" where
  "space_runes =
     map (\<lambda>n. [char_of (n :: nat)]) [9, 10, 11, 12, 13, 32] @
     map (map char_of)
       ([[0xC2, 0x85], [0xC2, 0xA0], [0xE1, 0x9A, 0x80]] @
        map (\<lambda>n. [0xE2, 0x80, n]) [0x80 ..< 0x8B] @
        [[0xE2, 0x80, 0xA8], [0xE2, 0x80, 0xA9], [0xE2, 0x80, 0xAF],
         [0xE2, 0x81, 0x9F], [0xE3, 0x80, 0x80 :: nat]])"

fun trim_prefixes :: "nat \<Rightarrow> bytes list \<Rightarrow> bytes \<Rightarrow> bytes" where
  "trim_prefixes 0 ws s = s"
| "trim_prefixes (Suc n) ws s =
     (case find (\<lambda>w. take (length w) s = w) ws of
        None \<Rightarrow> s
      | Some w \<Rightarrow> trim_prefixes n ws (drop (length w) s))"

text \<open>The fuel is the length of the string: every cut removes at least one byte.\<close>

definition trim_space :: "bytes \<Rightarrow> bytes" where
  "trim_space s =
     (let l = trim_prefixes (length s) space_runes s
      in rev (trim_prefixes (length l) (map rev space_runes) (rev l)))"

lemma trim_prefixes_suffix: "suffix (trim_prefixes n ws s) s"
proof (induction n ws s rule: trim_prefixes.induct)
  case (1 ws s)
  then show ?case by simp
next
  case (2 n ws s)
  then show ?case
    by (auto split: option.splits intro: suffix_order.trans suffix_drop)
qed

lemma trim_prefixes_done:
  "length s \<le> n \<Longrightarrow> [] \<notin> set ws \<Longrightarrow> w \<in> set ws \<Longrightarrow>
     take (length w) (trim_prefixes n ws s) \<noteq> w"
proof (induction n ws s rule: trim_prefixes.induct)
  case (1 ws s)
  then show ?case by auto
next
  case (2 n ws s)
  show ?case
  proof (cases "find (\<lambda>w. take (length w) s = w) ws")
    case None
    then have "trim_prefixes (Suc n) ws s = s" by (simp only: trim_prefixes.simps option.simps)
    moreover from None 2 have "take (length w) s \<noteq> w" by (auto simp: find_None_iff)
    ultimately show ?thesis by simp
  next
    case (Some v)
    then have "v \<in> set ws" by (auto simp: find_Some_iff)
    with 2 have "v \<noteq> []" by auto
    with Some 2 show ?thesis by (cases v) auto
  qed
qed

section \<open>Decimal numbers (\<open>%d\<close>)\<close>

fun show_nat :: "nat \<Rightarrow> bytes" where
  "show_nat n =
     (if n < 10 then [char_of (48 + n)] else show_nat (n div 10) @ [char_of (48 + n mod 10)])"

declare show_nat.simps [simp del]

definition show_int :: "int \<Rightarrow> bytes" where
  "show_int i = (if i < 0 then CHR ''-'' # show_nat (nat (- i)) else show_nat (nat i))"

definition is_digit :: "byte \<Rightarrow> bool" where
  "is_digit c \<longleftrightarrow> 48 \<le> (of_char c :: nat) \<and> (of_char c :: nat) \<le> 57"

lemma show_nat_digits: "c \<in> set (show_nat n) \<Longrightarrow> is_digit c"
proof (induction n rule: show_nat.induct)
  case (1 n)
  then show ?case
    by (subst (asm) (2) show_nat.simps)
       (auto simp: is_digit_def of_char_of split: if_splits)
qed

lemma show_nat_nonempty [simp]: "show_nat n \<noteq> []"
  by (subst show_nat.simps) simp

section \<open>Counting over finitely many goroutines\<close>

text \<open>
  A counter of the program is compared with the number of goroutines whose program counter
  satisfies a predicate; a step moves one goroutine, and the number moves with it.
\<close>

definition occ :: "('b \<Rightarrow> bool) \<Rightarrow> (nat \<Rightarrow> 'b) \<Rightarrow> int" where
  "occ P f = int (card {i. P (f i)})"

lemma finite_upd_set: "finite {i. P (f i)} \<Longrightarrow> finite {i. P ((f(k := v)) i)}"
proof -
  assume "finite {i. P (f i)}"
  then have "finite (insert k {i. P (f i)})" by simp
  then show ?thesis by (rule rev_finite_subset) auto
qed

lemma occ_upd:
  assumes "finite {i. P (f i)}"
  shows "occ P (f(k := v)) = occ P f - of_bool (P (f k)) + of_bool (P v)"
proof -
  define R where "R = {i. P (f i)} - {k}"
  have fin: "finite R" and k: "k \<notin> R"
    using assms by (auto simp: R_def)
  have "{i. P (f i)} = (if P (f k) then insert k R else R)"
    and "{i. P ((f(k := v)) i)} = (if P v then insert k R else R)"
    by (auto simp: R_def)
  then show ?thesis
    using fin k by (simp add: occ_def)
qed

lemma occ_nonneg [simp]: "0 \<le> occ P f"
  by (simp add: occ_def)

lemma occ_zero: "(\<And>i. \<not> P (f i)) \<Longrightarrow> occ P f = 0"
  by (simp add: occ_def)

lemma occ_pos:
  assumes "finite {i. P (f i)}" and "P (f k)"
  shows "0 < occ P f"
proof -
  from assms have "0 < card {i. P (f i)}" by (auto simp: card_gt_0_iff)
  then show ?thesis by (simp add: occ_def)
qed

end
