(* ===== verification/Stripper.thy ===== *)
theory Stripper
  imports Ps_Prelude
begin

text \<open>
  The HTML scanner of \<open>src/stripper/stripper.go\<close>: \<open>hasTagPrefix\<close>, \<open>indexFold\<close> and \<open>stripHTML\<close>.
  The scanner's position is represented by the input that remains from it (every use of
  \<open>pos\<close> in the code slices \<open>input[pos:]\<close>); each of the five cases of the loop body is a
  definition of its own that returns what the case writes and how far it advances, or \<open>None\<close>
  when the case does not apply and the code falls through to the next one.
\<close>

section \<open>The two matchers\<close>

text \<open>The comparison loop shared by both: every byte, lowered, against the pattern.\<close>

fun match_fold :: "bytes \<Rightarrow> bytes \<Rightarrow> bool" where
  "match_fold b [] = True"
| "match_fold [] (p # ps) = False"
| "match_fold (c # b) (p # ps) = (if lower_byte c \<noteq> p then False else match_fold b ps)"

definition tag_boundary :: "byte \<Rightarrow> bool" where
  "tag_boundary c \<longleftrightarrow>
     c = CHR ''>'' \<or> c = CHR '' '' \<or> c = CHR 0x09 \<or> c = CHR 0x0A \<or> c = CHR 0x0D \<or> c = CHR ''/''"

definition has_tag_prefix :: "bytes \<Rightarrow> bytes \<Rightarrow> bool" where
  "has_tag_prefix b p =
     (if length b < length p then False
      else if \<not> match_fold b p then False
      else if length b > length p \<and> \<not> tag_boundary (b ! length p) then False
      else True)"

function index_fold_from :: "bytes \<Rightarrow> bytes \<Rightarrow> nat \<Rightarrow> nat option" where
  "index_fold_from b t i =
     (if i + length t \<le> length b
      then if match_fold (drop i b) t then Some i else index_fold_from b t (Suc i)
      else None)"
  by pat_completeness auto
termination
  by (relation "measure (\<lambda>(b, t, i). Suc (length b) - (i + length t))") auto

declare index_fold_from.simps [simp del]

definition index_fold :: "bytes \<Rightarrow> bytes \<Rightarrow> nat option" where
  "index_fold b t = (if length t = 0 then Some 0 else index_fold_from b t 0)"

subsection \<open>What the matchers compute\<close>

lemma match_fold_iff [bytes_simps]: "match_fold b p \<longleftrightarrow> map lower_byte (take (length p) b) = p"
  by (induction b p rule: match_fold.induct) auto

lemma has_tag_prefix_iff:
  "has_tag_prefix b p \<longleftrightarrow>
     map lower_byte (take (length p) b) = p \<and>
     (length b = length p \<or> (length p < length b \<and> tag_boundary (b ! length p)))"
proof -
  have "map lower_byte (take (length p) b) = p \<Longrightarrow> length p \<le> length b"
    by (metis length_map length_take min.cobounded1)
  then show ?thesis
    by (auto simp: has_tag_prefix_def match_fold_iff)
qed

lemma has_tag_prefix_length: "has_tag_prefix b p \<Longrightarrow> length p \<le> length b"
  by (auto simp: has_tag_prefix_def split: if_splits)

lemma index_fold_from_Some:
  "index_fold_from b t i = Some j \<Longrightarrow>
     i \<le> j \<and> j + length t \<le> length b \<and> match_fold (drop j b) t \<and>
     (\<forall>k. i \<le> k \<and> k < j \<longrightarrow> \<not> match_fold (drop k b) t)"
proof (induction b t i rule: index_fold_from.induct)
  case (1 b t i)
  show ?case
  proof (cases "i + length t \<le> length b \<and> \<not> match_fold (drop i b) t")
    case True
    with "1.prems" have "index_fold_from b t (Suc i) = Some j"
      by (subst (asm) index_fold_from.simps) simp
    with "1.IH" True show ?thesis
      by (metis Suc_leD Suc_leI le_neq_implies_less)
  next
    case False
    with "1.prems" show ?thesis
      by (subst (asm) index_fold_from.simps) (auto split: if_splits)
  qed
qed

lemma index_fold_from_None:
  "index_fold_from b t i = None \<Longrightarrow>
     i \<le> k \<Longrightarrow> k + length t \<le> length b \<Longrightarrow> \<not> match_fold (drop k b) t"
proof (induction b t i rule: index_fold_from.induct)
  case (1 b t i)
  then have len: "i + length t \<le> length b" by simp
  with "1.prems"(1) have here: "\<not> match_fold (drop i b) t"
    and rest: "index_fold_from b t (Suc i) = None"
    by (simp_all add: index_fold_from.simps [of b t i] split: if_splits)
  show ?case
  proof (cases "k = i")
    case True
    with here show ?thesis by simp
  next
    case False
    with "1.prems" have "Suc i \<le> k" by simp
    with "1.IH" [OF len here rest] "1.prems"(3) show ?thesis by simp
  qed
qed

text \<open>An occurrence of the target, ignoring the case of the input, at a position.\<close>

definition fold_at :: "bytes \<Rightarrow> bytes \<Rightarrow> nat \<Rightarrow> bool" where
  "fold_at b t i \<longleftrightarrow> i + length t \<le> length b \<and> map lower_byte (take (length t) (drop i b)) = t"

lemma index_fold_Some_iff:
  assumes "t \<noteq> []"
  shows "index_fold b t = Some i \<longleftrightarrow> fold_at b t i \<and> (\<forall>k<i. \<not> fold_at b t k)"
proof
  assume "index_fold b t = Some i"
  with assms have "index_fold_from b t 0 = Some i" by (simp add: index_fold_def)
  from index_fold_from_Some [OF this] show "fold_at b t i \<and> (\<forall>k<i. \<not> fold_at b t k)"
    by (auto simp: fold_at_def match_fold_iff)
next
  assume first: "fold_at b t i \<and> (\<forall>k<i. \<not> fold_at b t k)"
  show "index_fold b t = Some i"
  proof (cases "index_fold_from b t 0")
    case None
    from index_fold_from_None [OF None, of i] first show ?thesis
      by (auto simp: fold_at_def match_fold_iff)
  next
    case (Some j)
    from index_fold_from_Some [OF Some] have "fold_at b t j" "\<forall>k<j. \<not> fold_at b t k"
      by (auto simp: fold_at_def match_fold_iff)
    with first have "i = j" by (metis linorder_neqE_nat)
    with Some assms show ?thesis by (simp add: index_fold_def)
  qed
qed

lemma index_fold_None_iff:
  assumes "t \<noteq> []"
  shows "index_fold b t = None \<longleftrightarrow> (\<forall>i. \<not> fold_at b t i)"
proof
  assume "index_fold b t = None"
  with assms have "index_fold_from b t 0 = None" by (simp add: index_fold_def)
  from index_fold_from_None [OF this] show "\<forall>i. \<not> fold_at b t i"
    by (auto simp: fold_at_def match_fold_iff)
next
  assume "\<forall>i. \<not> fold_at b t i"
  then show "index_fold b t = None"
    using index_fold_Some_iff [OF assms] by (metis option.exhaust)
qed

lemma index_fold_bound:
  assumes "index_fold b t = Some i"
  shows "i + length t \<le> length b"
proof (cases "t = []")
  case True
  with assms show ?thesis by (simp add: index_fold_def)
next
  case False
  with assms show ?thesis by (simp add: index_fold_Some_iff fold_at_def)
qed


section \<open>The scanner\<close>

text \<open>The banner: the two code points of the warning sign are U+26A0 U+FE0F in UTF-8.\<close>

definition notice :: bytes where
  \<open>notice =
     ''<div id="peakshield-notice" style="background:#f59e0b;color:#fff;text-align:center;padding:10px;font-family:sans-serif;font-weight:bold;z-index:999999;position:relative;border-bottom:2px solid #b45309">'' @
     [CHR 0xE2, CHR 0x9A, CHR 0xA0, CHR 0xEF, CHR 0xB8, CHR 0x8F] @
     '' PeakShield Active: High Traffic Mode. Assets stripped to conserve bandwidth.</div>''\<close>

text \<open>
  Each case returns the bytes it writes and the number of input bytes it passes;
  \<open>rem\<close> starts at a \<open><\<close>.
\<close>

definition script_case :: "bytes \<Rightarrow> (bytes \<times> nat) option" where
  "script_case rem =
     (if has_tag_prefix rem ''<script''
      then (case index_fold rem ''</script>'' of
              Some e \<Rightarrow> Some ([], e + 9)
            | None \<Rightarrow> None)
      else None)"

definition style_case :: "bytes \<Rightarrow> (bytes \<times> nat) option" where
  "style_case rem =
     (if has_tag_prefix rem ''<style''
      then (case index_fold rem ''</style>'' of
              Some e \<Rightarrow>
                (let blockLen = e + 8
                 in if blockLen > 2048 then Some ([], blockLen)
                    else Some (take blockLen rem, blockLen))
            | None \<Rightarrow> None)
      else None)"

definition link_case :: "bytes \<Rightarrow> (bytes \<times> nat) option" where
  "link_case rem =
     (if has_tag_prefix rem ''<link''
      then (case index_byte rem (CHR ''>'') of
              Some e \<Rightarrow>
                (let tag = take (e + 1) rem
                 in if index_fold tag ''stylesheet'' \<noteq> None then Some ([], e + 1)
                    else Some (tag, e + 1))
            | None \<Rightarrow> None)
      else None)"

definition img_case :: "bytes \<Rightarrow> (bytes \<times> nat) option" where
  "img_case rem =
     (if has_tag_prefix rem ''<img''
      then (case index_byte rem (CHR ''>'') of
              Some e \<Rightarrow> Some (''<span>[img]</span>'', e + 1)
            | None \<Rightarrow> None)
      else None)"

definition body_case :: "bool \<Rightarrow> bytes \<Rightarrow> (bytes \<times> nat) option" where
  "body_case bodyInjected rem =
     (if \<not> bodyInjected \<and> has_tag_prefix rem ''<body''
      then (case index_byte rem (CHR ''>'') of
              Some e \<Rightarrow> Some (take (e + 1) rem @ notice, e + 1)
            | None \<Rightarrow> None)
      else None)"

text \<open>
  One iteration of the loop from a \<open><\<close>: what is written, how far the position moves, and
  the new value of \<open>bodyInjected\<close>.  The last line is the fall-through, \<open>out.WriteByte('<')\<close>.
\<close>

definition tag_step :: "bool \<Rightarrow> bytes \<Rightarrow> bytes \<times> nat \<times> bool" where
  "tag_step bi rem =
     (case script_case rem of Some (w, n) \<Rightarrow> (w, n, bi) | None \<Rightarrow>
     (case style_case rem of Some (w, n) \<Rightarrow> (w, n, bi) | None \<Rightarrow>
     (case link_case rem of Some (w, n) \<Rightarrow> (w, n, bi) | None \<Rightarrow>
     (case img_case rem of Some (w, n) \<Rightarrow> (w, n, bi) | None \<Rightarrow>
     (case body_case bi rem of Some (w, n) \<Rightarrow> (w, n, True) | None \<Rightarrow>
       ([CHR ''<''], 1, bi))))))"

text \<open>Every iteration moves the position forward, and never past the end of the input.\<close>

lemma script_case_bounds: "script_case rem = Some (w, n) \<Longrightarrow> 0 < n \<and> n \<le> length rem"
  by (auto simp: script_case_def dest: index_fold_bound split: if_splits option.splits)

lemma style_case_bounds: "style_case rem = Some (w, n) \<Longrightarrow> 0 < n \<and> n \<le> length rem"
  by (auto simp: style_case_def Let_def dest!: index_fold_bound split: if_splits option.splits)

lemma link_case_bounds: "link_case rem = Some (w, n) \<Longrightarrow> 0 < n \<and> n \<le> length rem"
  by (auto simp: link_case_def Let_def dest: index_byte_less split: if_splits option.splits)

lemma img_case_bounds: "img_case rem = Some (w, n) \<Longrightarrow> 0 < n \<and> n \<le> length rem"
  by (auto simp: img_case_def dest: index_byte_less split: if_splits option.splits)

lemma body_case_bounds: "body_case bi rem = Some (w, n) \<Longrightarrow> 0 < n \<and> n \<le> length rem"
  by (auto simp: body_case_def dest: index_byte_less split: if_splits option.splits)

lemmas case_bounds =
  script_case_bounds style_case_bounds link_case_bounds img_case_bounds body_case_bounds

lemma tag_step_advances: "tag_step bi rem = (w, n, bi') \<Longrightarrow> 0 < n"
  by (auto simp: tag_step_def dest: case_bounds split: option.splits)

lemma tag_step_within: "rem \<noteq> [] \<Longrightarrow> tag_step bi rem = (w, n, bi') \<Longrightarrow> n \<le> length rem"
  by (cases rem) (auto simp: tag_step_def dest: case_bounds split: option.splits)

text \<open>
  The loop \<open>for pos < len(input)\<close>, over the remaining input; the result is what it writes to
  \<open>out\<close>.
\<close>

function strip_loop :: "bool \<Rightarrow> bytes \<Rightarrow> bytes" where
  "strip_loop bodyInjected inp =
     (if inp = [] then []
      else (case index_byte inp (CHR ''<'') of
              None \<Rightarrow> inp
            | Some start \<Rightarrow>
                (case tag_step bodyInjected (drop start inp) of
                   (written, n, bodyInjected') \<Rightarrow>
                     take start inp @ written @ strip_loop bodyInjected' (drop (start + n) inp))))"
  by pat_completeness auto
termination
proof (relation "measure (\<lambda>(bi, inp). length inp)", goal_cases)
  case 1
  then show ?case by simp
next
  case (2 bi inp start r w r' n)
  then show ?case by (cases inp) (auto dest: tag_step_advances [OF sym])
qed

declare strip_loop.simps [simp del]

text \<open>\<open>stripHTML(input, out)\<close> appends to the output buffer it is given.\<close>

definition strip_html :: "bytes \<Rightarrow> bytes \<Rightarrow> bytes" where
  "strip_html input out = out @ strip_loop False input"

end
