(* ===== verification/Strip_Spec.thy ===== *)
theory Strip_Spec
  imports Stripper
begin

text \<open>
  A grammar for what the scanner of \<open>stripper.go\<close> recognises, given without positions or
  searching loops: a document is a sequence of segments, each of a kind with a shape of its own,
  and the scanner's output is the concatenation of what each kind renders to.  The main lemmas
  say that every input has such a reading and that \<open>strip_loop\<close> renders it.
\<close>

section \<open>Segments\<close>

datatype seg_kind =
  Text | Script | BigStyle | SmallStyle | Sheet | Link | Img | Body | Lone

type_synonym segment = "seg_kind \<times> bytes"

text \<open>The closing text stands at the end, and nowhere before.\<close>

definition closes :: "bytes \<Rightarrow> bytes \<Rightarrow> bool" where
  "closes s t \<longleftrightarrow>
     length t \<le> length s \<and> fold_at s t (length s - length t) \<and>
     (\<forall>k < length s - length t. \<not> fold_at s t k)"

definition closes_tag :: "bytes \<Rightarrow> bool" where
  "closes_tag s \<longleftrightarrow> s \<noteq> [] \<and> last s = CHR ''>'' \<and> CHR ''>'' \<notin> set (butlast s)"

definition mentions :: "bytes \<Rightarrow> bytes \<Rightarrow> bool" where
  "mentions s t \<longleftrightarrow> (\<exists>i. fold_at s t i)"

fun seg_ok :: "seg_kind \<Rightarrow> bytes \<Rightarrow> bool" where
  "seg_ok Text s = (s \<noteq> [] \<and> CHR ''<'' \<notin> set s)"
| "seg_ok Script s = (has_tag_prefix s ''<script'' \<and> closes s ''</script>'')"
| "seg_ok BigStyle s = (has_tag_prefix s ''<style'' \<and> closes s ''</style>'' \<and> 2048 < length s)"
| "seg_ok SmallStyle s = (has_tag_prefix s ''<style'' \<and> closes s ''</style>'' \<and> length s \<le> 2048)"
| "seg_ok Sheet s = (has_tag_prefix s ''<link'' \<and> closes_tag s \<and> mentions s ''stylesheet'')"
| "seg_ok Link s = (has_tag_prefix s ''<link'' \<and> closes_tag s \<and> \<not> mentions s ''stylesheet'')"
| "seg_ok Img s = (has_tag_prefix s ''<img'' \<and> closes_tag s)"
| "seg_ok Body s = (has_tag_prefix s ''<body'' \<and> closes_tag s)"
| "seg_ok Lone s = (s = ''<'')"

fun seg_render :: "segment \<Rightarrow> bytes" where
  "seg_render (Script, s) = []"
| "seg_render (BigStyle, s) = []"
| "seg_render (Sheet, s) = []"
| "seg_render (Img, s) = ''<span>[img]</span>''"
| "seg_render (Body, s) = s @ notice"
| "seg_render (Text, s) = s"
| "seg_render (SmallStyle, s) = s"
| "seg_render (Link, s) = s"
| "seg_render (Lone, s) = s"

definition tagged :: "seg_kind \<Rightarrow> bool" where
  "tagged k \<longleftrightarrow> k \<noteq> Text \<and> k \<noteq> Lone"

text \<open>
  A tag of some kind starts the input; \<open><body\<close> counts only while no banner has been written.
\<close>

definition special :: "bool \<Rightarrow> bytes \<Rightarrow> bool" where
  "special b inp \<longleftrightarrow>
     (\<exists>k s rest. inp = s @ rest \<and> tagged k \<and> (k = Body \<longrightarrow> \<not> b) \<and> seg_ok k s)"

inductive scans :: "bool \<Rightarrow> bytes \<Rightarrow> segment list \<Rightarrow> bool" where
  scan_nil: "scans b [] []"
| scan_text: "seg_ok Text s \<Longrightarrow> rest = [] \<or> hd rest = CHR ''<'' \<Longrightarrow> scans b rest segs \<Longrightarrow>
     scans b (s @ rest) ((Text, s) # segs)"
| scan_tag: "tagged k \<Longrightarrow> seg_ok k s \<Longrightarrow> (k = Body \<longrightarrow> \<not> b) \<Longrightarrow> scans (b \<or> k = Body) rest segs \<Longrightarrow>
     scans b (s @ rest) ((k, s) # segs)"
| scan_lone: "\<not> special b (CHR ''<'' # rest) \<Longrightarrow> scans b rest segs \<Longrightarrow>
     scans b (CHR ''<'' # rest) ((Lone, ''<'') # segs)"

section \<open>The searches, read on a prefix of the input\<close>

lemma fold_at_append:
  "fold_at (s @ rest) t k \<longleftrightarrow>
     (if k + length t \<le> length s then fold_at s t k else fold_at (s @ rest) t k)"
  by (auto simp: fold_at_def)

lemma index_fold_closes:
  assumes "t \<noteq> []" and "closes s t"
  shows "index_fold (s @ rest) t = Some (length s - length t)"
  using assms by (auto simp: index_fold_Some_iff closes_def fold_at_def)

lemma closes_index_fold:
  assumes "t \<noteq> []" and "index_fold rem t = Some e"
  shows "closes (take (e + length t) rem) t"
proof -
  from index_fold_bound [OF assms(2)] have len: "length (take (e + length t) rem) = e + length t"
    by simp
  have rem: "rem = take (e + length t) rem @ drop (e + length t) rem" by simp
  have at: "fold_at (take (e + length t) rem) t k \<longleftrightarrow> fold_at rem t k" if "k \<le> e" for k
  proof -
    from that have "k + length t \<le> length (take (e + length t) rem)" using len by simp
    then show ?thesis by (subst (2) rem) (simp add: fold_at_append del: append_take_drop_id)
  qed
  from assms have "fold_at rem t e" and "\<forall>k<e. \<not> fold_at rem t k"
    by (simp_all add: index_fold_Some_iff)
  then show ?thesis by (simp add: closes_def len at del: length_take)
qed

lemma index_byte_closes:
  assumes "closes_tag s"
  shows "index_byte (s @ rest) (CHR ''>'') = Some (length s - 1)"
proof -
  from assms have s: "s = butlast s @ [CHR ''>'']"
    by (metis append_butlast_last_id closes_tag_def)
  have "(s @ rest) ! (length s - 1) = CHR ''>''"
    by (subst s) (simp add: nth_append)
  moreover from assms have "length s - 1 < length s + length rest"
    by (cases s) (auto simp: closes_tag_def)
  ultimately show ?thesis
    using assms by (auto simp: index_byte_Some closes_tag_def butlast_conv_take)
qed

lemma closes_index_byte:
  assumes "index_byte rem (CHR ''>'') = Some e"
  shows "closes_tag (take (e + 1) rem)"
proof -
  from assms have e: "e < length rem" "rem ! e = CHR ''>''" "CHR ''>'' \<notin> set (take e rem)"
    by (auto simp: index_byte_Some)
  then have "take (e + 1) rem = take e rem @ [CHR ''>'']"
    by (simp add: take_Suc_conv_app_nth)
  with e show ?thesis by (simp add: closes_tag_def)
qed

lemma has_tag_prefix_append:
  assumes "length p < length s"
  shows "has_tag_prefix (s @ rest) p \<longleftrightarrow> has_tag_prefix s p"
  using assms by (auto simp: has_tag_prefix_iff nth_append)

lemma has_tag_prefix_take:
  assumes "length p < n" and "n \<le> length rem"
  shows "has_tag_prefix (take n rem) p \<longleftrightarrow> has_tag_prefix rem p"
  using has_tag_prefix_append [of p "take n rem" "drop n rem"] assms by simp

lemma index_fold_mentions: "t \<noteq> [] \<Longrightarrow> index_fold s t \<noteq> None \<longleftrightarrow> mentions s t"
  by (simp add: index_fold_None_iff mentions_def)

text \<open>A segment that ends with its closing text is longer than its opening.\<close>

lemma closes_tag_longer:
  assumes "has_tag_prefix s p" and "closes_tag s" and "CHR ''>'' \<notin> set p"
  shows "length p < length s"
proof (rule ccontr)
  assume "\<not> ?thesis"
  with has_tag_prefix_length [OF assms(1)] have len: "length p = length s" by simp
  with assms(1) have "map lower_byte s = p" by (simp add: has_tag_prefix_iff)
  moreover from assms(2) have "CHR ''>'' \<in> set s" by (metis closes_tag_def last_in_set)
  moreover have "lower_byte (CHR ''>'') = CHR ''>''" by (simp add: lower_byte_def)
  ultimately show False using assms(3) by (metis image_eqI list.set_map)
qed

lemma closes_longer: "closes s t \<Longrightarrow> length p < length t \<Longrightarrow> length p < length s"
  by (simp add: closes_def)


section \<open>One iteration is one segment\<close>

lemma script_segment:
  assumes "seg_ok Script s"
  shows "script_case (s @ rest) = Some ([], length s)"
proof -
  from assms have cl: "closes s ''</script>''" and p: "has_tag_prefix s ''<script''" by simp_all
  have "has_tag_prefix (s @ rest) ''<script''"
    using p closes_longer [OF cl, of "''<script''"] by (simp add: has_tag_prefix_append)
  moreover have "9 \<le> length s" using cl by (simp add: closes_def)
  ultimately show ?thesis
    using index_fold_closes [OF _ cl] by (simp add: script_case_def)
qed

lemma style_segment:
  assumes "has_tag_prefix s ''<style''" and "closes s ''</style>''"
  shows "style_case (s @ rest) = Some (if 2048 < length s then [] else s, length s)"
proof -
  have "has_tag_prefix (s @ rest) ''<style''"
    using assms closes_longer [OF assms(2), of "''<style''"] by (simp add: has_tag_prefix_append)
  moreover have "8 \<le> length s" using assms(2) by (simp add: closes_def)
  ultimately show ?thesis
    using index_fold_closes [OF _ assms(2)] by (simp add: style_case_def Let_def)
qed

lemma tag_search:
  assumes "has_tag_prefix s p" and "closes_tag s" and "CHR ''>'' \<notin> set p"
  shows "has_tag_prefix (s @ rest) p \<and> index_byte (s @ rest) (CHR ''>'') = Some (length s - 1) \<and>
    Suc (length s - Suc 0) = length s"
  using assms closes_tag_longer [OF assms] index_byte_closes [OF assms(2)]
  by (auto simp: has_tag_prefix_append)

lemma link_segment:
  assumes "has_tag_prefix s ''<link''" and "closes_tag s"
  shows "link_case (s @ rest) =
     Some (if mentions s ''stylesheet'' then [] else s, length s)"
  using tag_search [OF assms, of rest] index_fold_mentions [of "''stylesheet''" s]
  by (simp add: link_case_def Let_def)

lemma img_segment:
  assumes "seg_ok Img s"
  shows "img_case (s @ rest) = Some (''<span>[img]</span>'', length s)"
  using assms tag_search [of s "''<img''" rest] by (simp add: img_case_def)

lemma body_segment:
  assumes "seg_ok Body s"
  shows "body_case b (s @ rest) = (if b then None else Some (s @ notice, length s))"
  using assms tag_search [of s "''<body''" rest] by (simp add: body_case_def)

text \<open>The five openings exclude one another: two of them never start the same input.\<close>

lemma prefix_clash:
  assumes "has_tag_prefix s p" and "has_tag_prefix s q"
    and "n < length p" and "n < length q" and "p ! n \<noteq> q ! n"
  shows False
proof -
  from assms have "p = map lower_byte (take (length p) s)" "q = map lower_byte (take (length q) s)"
    and "length p \<le> length s" "length q \<le> length s"
    by (auto simp: has_tag_prefix_iff dest: has_tag_prefix_length)
  with assms(3,4) have "p ! n = lower_byte (s ! n)" and "q ! n = lower_byte (s ! n)"
    by (metis (no_types, lifting) dual_order.strict_trans1 length_map length_take min.absorb2 nth_map nth_take)+
  with assms(5) show False by simp
qed

lemma prefixes_exclusive:
  "has_tag_prefix s ''<style'' \<Longrightarrow> \<not> has_tag_prefix s ''<script''"
  "has_tag_prefix s ''<link'' \<Longrightarrow> \<not> has_tag_prefix s ''<script''"
  "has_tag_prefix s ''<link'' \<Longrightarrow> \<not> has_tag_prefix s ''<style''"
  "has_tag_prefix s ''<img'' \<Longrightarrow> \<not> has_tag_prefix s ''<script''"
  "has_tag_prefix s ''<img'' \<Longrightarrow> \<not> has_tag_prefix s ''<style''"
  "has_tag_prefix s ''<img'' \<Longrightarrow> \<not> has_tag_prefix s ''<link''"
  "has_tag_prefix s ''<body'' \<Longrightarrow> \<not> has_tag_prefix s ''<script''"
  "has_tag_prefix s ''<body'' \<Longrightarrow> \<not> has_tag_prefix s ''<style''"
  "has_tag_prefix s ''<body'' \<Longrightarrow> \<not> has_tag_prefix s ''<link''"
  "has_tag_prefix s ''<body'' \<Longrightarrow> \<not> has_tag_prefix s ''<img''"
  by (auto dest: prefix_clash [where n = 2] prefix_clash [where n = 1])

lemma case_None:
  "\<not> has_tag_prefix s ''<script'' \<Longrightarrow> script_case s = None"
  "\<not> has_tag_prefix s ''<style'' \<Longrightarrow> style_case s = None"
  "\<not> has_tag_prefix s ''<link'' \<Longrightarrow> link_case s = None"
  "\<not> has_tag_prefix s ''<img'' \<Longrightarrow> img_case s = None"
  "\<not> has_tag_prefix s ''<body'' \<Longrightarrow> body_case b s = None"
  by (simp_all add: script_case_def style_case_def link_case_def img_case_def body_case_def)


definition open_text :: "seg_kind \<Rightarrow> bytes" where
  "open_text k =
     (case k of Script \<Rightarrow> ''<script'' | BigStyle \<Rightarrow> ''<style'' | SmallStyle \<Rightarrow> ''<style''
      | Sheet \<Rightarrow> ''<link'' | Link \<Rightarrow> ''<link'' | Img \<Rightarrow> ''<img'' | Body \<Rightarrow> ''<body''
      | _ \<Rightarrow> [])"

lemma seg_ok_opening:
  assumes "tagged k" and "seg_ok k s"
  shows "has_tag_prefix (s @ rest) (open_text k) \<and> length (open_text k) < length s"
proof -
  have tag: "has_tag_prefix s (open_text k)"
    using assms by (cases k) (simp_all add: tagged_def open_text_def)
  have "length (open_text k) < length s"
  proof (cases "closes_tag s")
    case True
    have "CHR ''>'' \<notin> set (open_text k)" by (cases k) (simp_all add: open_text_def)
    with tag True show ?thesis by (rule closes_tag_longer)
  next
    case False
    with assms show ?thesis
      by (cases k) (simp_all add: tagged_def open_text_def closes_def)
  qed
  with tag
  show ?thesis by (simp add: has_tag_prefix_append)
qed

lemma tag_step_segment:
  assumes "tagged k" and "seg_ok k s" and "k = Body \<longrightarrow> \<not> b"
  shows "tag_step b (s @ rest) = (seg_render (k, s), length s, b \<or> k = Body)"
proof -
  from seg_ok_opening [OF assms(1,2)] have "has_tag_prefix (s @ rest) (open_text k)" by simp
  then show ?thesis
    using assms
    by (cases k)
      (simp_all add: tagged_def open_text_def tag_step_def prefixes_exclusive case_None
        script_segment style_segment link_segment img_segment body_segment)
qed

text \<open>Conversely, what a case takes off the input has the shape of its kind.\<close>

lemma script_reads:
  assumes "script_case rem = Some (w, n)"
  shows "seg_ok Script (take n rem) \<and> w = []"
proof -
  from assms obtain e where p: "has_tag_prefix rem ''<script''"
    and e: "index_fold rem ''</script>'' = Some e" and n: "n = e + 9" "w = []"
    by (auto simp: script_case_def split: if_splits option.splits)
  have "closes (take (e + length ''</script>'') rem) ''</script>''"
    by (rule closes_index_fold [OF _ e]) simp
  moreover have "e + length ''</script>'' = n" using n by simp
  ultimately have cl: "closes (take n rem) ''</script>''" by (simp only:)
  with p n index_fold_bound [OF e] show ?thesis by (simp add: has_tag_prefix_take)
qed

lemma style_reads:
  assumes "style_case rem = Some (w, n)"
  shows "if 2048 < n then seg_ok BigStyle (take n rem) \<and> w = []
         else seg_ok SmallStyle (take n rem) \<and> w = take n rem"
proof -
  from assms obtain e where p: "has_tag_prefix rem ''<style''"
    and e: "index_fold rem ''</style>'' = Some e" and n: "n = e + 8"
    and w: "w = (if 2048 < n then [] else take n rem)"
    by (auto simp: style_case_def Let_def split: if_splits option.splits)
  have "closes (take (e + length ''</style>'') rem) ''</style>''"
    by (rule closes_index_fold [OF _ e]) simp
  moreover have "e + length ''</style>'' = n" using n by simp
  ultimately have cl: "closes (take n rem) ''</style>''" by (simp only:)
  with p n w index_fold_bound [OF e] show ?thesis by (auto simp: has_tag_prefix_take)
qed

lemma tag_reads:
  assumes p: "has_tag_prefix rem p" and e: "index_byte rem (CHR ''>'') = Some e"
    and no: "CHR ''>'' \<notin> set p"
  shows "has_tag_prefix (take (Suc e) rem) p"
proof -
  from e have at: "e < length rem" "rem ! e = CHR ''>''" by (auto simp: index_byte_Some)
  have "length p \<le> e"
  proof (rule ccontr)
    assume "\<not> ?thesis"
    then have "e < length p" by simp
    moreover from p have "p = map lower_byte (take (length p) rem)" and "length p \<le> length rem"
      by (auto simp: has_tag_prefix_iff dest: has_tag_prefix_length)
    ultimately have "p ! e = lower_byte (CHR ''>'')"
      using at by (metis (no_types, lifting) length_map length_take min.absorb2 nth_map nth_take)
    then have "p ! e = CHR ''>''" by (simp add: lower_byte_def)
    with no \<open>e < length p\<close> show False by (metis nth_mem)
  qed
  with p at show ?thesis by (simp add: has_tag_prefix_take)
qed

lemma link_reads:
  assumes "link_case rem = Some (w, n)"
  shows "if mentions (take n rem) ''stylesheet'' then seg_ok Sheet (take n rem) \<and> w = []
         else seg_ok Link (take n rem) \<and> w = take n rem"
proof -
  from assms obtain e where p: "has_tag_prefix rem ''<link''"
    and e: "index_byte rem (CHR ''>'') = Some e" and n: "n = Suc e"
    and w: "w = (if index_fold (take n rem) ''stylesheet'' \<noteq> None then [] else take n rem)"
    by (auto simp: link_case_def Let_def split: if_splits option.splits)
  from w have "w = (if mentions (take n rem) ''stylesheet'' then [] else take n rem)"
    using index_fold_mentions [of "''stylesheet''" "take n rem"] by simp
  with closes_index_byte [OF e] n tag_reads [OF p e] show ?thesis by simp
qed

lemma img_reads:
  assumes "img_case rem = Some (w, n)"
  shows "seg_ok Img (take n rem) \<and> w = ''<span>[img]</span>''"
  using assms closes_index_byte tag_reads
  by (auto simp: img_case_def split: if_splits option.splits)

lemma body_reads:
  assumes "body_case b rem = Some (w, n)"
  shows "seg_ok Body (take n rem) \<and> w = take n rem @ notice \<and> \<not> b"
  using assms closes_index_byte tag_reads
  by (auto simp: body_case_def split: if_splits option.splits)

lemma tag_step_reads:
  assumes step: "tag_step b rem = (w, n, b')"
  shows "(\<exists>k. tagged k \<and> (k = Body \<longrightarrow> \<not> b) \<and> seg_ok k (take n rem) \<and>
            w = seg_render (k, take n rem) \<and> b' = (b \<or> k = Body)) \<or>
         (n = 1 \<and> w = ''<'' \<and> b' = b \<and>
            script_case rem = None \<and> style_case rem = None \<and> link_case rem = None \<and>
            img_case rem = None \<and> body_case b rem = None)"
proof (cases "script_case rem")
  case (Some a)
  with step script_reads [of rem w n] show ?thesis
    by (cases a) (auto simp: tag_step_def tagged_def intro!: exI [of _ Script])
next
  case None
  note s1 = this
  show ?thesis
  proof (cases "style_case rem")
    case (Some a)
    with step s1 style_reads [of rem w n] show ?thesis
      by (cases a) (auto simp: tag_step_def tagged_def
          intro!: exI [of _ "if 2048 < n then BigStyle else SmallStyle"] split: if_splits)
  next
    case None
    note s2 = this
    show ?thesis
    proof (cases "link_case rem")
      case (Some a)
      with step s1 s2 link_reads [of rem w n] show ?thesis
        by (cases a) (auto simp: tag_step_def tagged_def
            intro!: exI [of _ "if mentions (take n rem) ''stylesheet'' then Sheet else Link"]
            split: if_splits)
    next
      case None
      note s3 = this
      show ?thesis
      proof (cases "img_case rem")
        case (Some a)
        with step s1 s2 s3 img_reads [of rem w n] show ?thesis
          by (cases a) (auto simp: tag_step_def tagged_def intro!: exI [of _ Img])
      next
        case None
        with step s1 s2 s3 body_reads [of b rem w n] show ?thesis
          by (cases "body_case b rem")
            (auto simp: tag_step_def tagged_def intro!: exI [of _ Body])
      qed
    qed
  qed
qed

text \<open>So the fall-through is taken exactly where no tag of any kind starts.\<close>

lemma special_iff:
  assumes "tag_step b rem = (w, n, b')"
  shows "special b rem \<longleftrightarrow>
     \<not> (script_case rem = None \<and> style_case rem = None \<and> link_case rem = None \<and>
        img_case rem = None \<and> body_case b rem = None)"
proof
  assume "special b rem"
  then obtain k s rest where "rem = s @ rest" "tagged k" "k = Body \<longrightarrow> \<not> b" "seg_ok k s"
    by (auto simp: special_def)
  then show "\<not> (script_case rem = None \<and> style_case rem = None \<and> link_case rem = None \<and>
      img_case rem = None \<and> body_case b rem = None)"
    by (cases k)
      (auto simp: tagged_def script_segment style_segment link_segment img_segment body_segment)
next
  assume "\<not> (script_case rem = None \<and> style_case rem = None \<and> link_case rem = None \<and>
      img_case rem = None \<and> body_case b rem = None)"
  with tag_step_reads [OF assms] obtain k
    where "tagged k" "k = Body \<longrightarrow> \<not> b" "seg_ok k (take n rem)" by blast
  then show "special b rem"
    unfolding special_def by (metis append_take_drop_id)
qed


lemma tag_step_special:
  assumes "tag_step b rem = (w, n, b')" and "special b rem"
  shows "\<exists>k. tagged k \<and> (k = Body \<longrightarrow> \<not> b) \<and> seg_ok k (take n rem)"
  using tag_step_reads [OF assms(1)] special_iff [OF assms(1)] assms(2) by auto

lemma tag_step_lone:
  assumes "tag_step b rem = (w, n, b')" and "\<not> special b rem"
  shows "n = 1 \<and> w = ''<'' \<and> b' = b"
proof -
  have "special b rem" if "tagged k" "k = Body \<longrightarrow> \<not> b" "seg_ok k (take n rem)" for k
    unfolding special_def using that by (metis append_take_drop_id)
  with tag_step_reads [OF assms(1)] assms(2) show ?thesis by auto
qed

section \<open>The loop renders the reading\<close>

lemma strip_nil [simp]: "strip_loop b [] = []"
  by (simp add: strip_loop.simps)

lemma strip_tag:
  assumes "inp \<noteq> []" and "hd inp = CHR ''<''" and "tag_step b inp = (w, n, b')"
  shows "strip_loop b inp = w @ strip_loop b' (drop n inp)"
proof -
  from assms have "index_byte inp (CHR ''<'') = Some 0" by (cases inp) auto
  with assms show ?thesis by (simp add: strip_loop.simps [of b inp])
qed

lemma strip_text:
  assumes "CHR ''<'' \<notin> set s" and "rest = [] \<or> hd rest = CHR ''<''"
  shows "strip_loop b (s @ rest) = s @ strip_loop b rest"
proof (cases rest)
  case Nil
  with assms have "index_byte s (CHR ''<'') = None" by (simp add: index_byte_None)
  with Nil show ?thesis by (simp add: strip_loop.simps [of b s])
next
  case (Cons c cs)
  with assms have "index_byte (s @ rest) (CHR ''<'') = Some (length s)"
    and "index_byte rest (CHR ''<'') = Some 0"
    by (auto simp: index_byte_Some)
  moreover obtain w n b' where "tag_step b rest = (w, n, b')" by (cases "tag_step b rest") auto
  moreover have "rest \<noteq> []" using Cons by simp
  ultimately show ?thesis
    by (simp add: strip_loop.simps [of b "s @ rest"] strip_loop.simps [of b rest])
qed

lemma lower_byte_lt: "lower_byte c = CHR ''<'' \<longleftrightarrow> c = CHR ''<''"
proof
  assume "lower_byte c = CHR ''<''"
  then have "of_char (lower_byte c) = (60 :: nat)" by simp
  then have "of_char c = (of_char (CHR ''<'') :: nat)"
    by (simp add: of_char_lower_byte split: if_splits)
  then show "c = CHR ''<''" by (simp only: of_char_eq_iff)
qed (simp add: lower_byte_def)

lemma seg_ok_hd:
  assumes "tagged k" and "seg_ok k s"
  shows "s \<noteq> [] \<and> hd (s @ rest) = CHR ''<''"
proof -
  from seg_ok_opening [OF assms, of "[]"]
  have "map lower_byte (take (length (open_text k)) s) = open_text k" and "s \<noteq> []"
    by (auto simp: has_tag_prefix_iff)
  moreover from assms(1) have "open_text k \<noteq> []" "hd (open_text k) = CHR ''<''"
    by (cases k; simp add: tagged_def open_text_def)+
  ultimately have "lower_byte (hd s) = CHR ''<''"
    by (cases s; cases "open_text k") auto
  with \<open>s \<noteq> []\<close> show ?thesis by (simp add: lower_byte_lt)
qed

lemma scans_source: "scans b inp segs \<Longrightarrow> concat (map snd segs) = inp"
  by (induction rule: scans.induct) auto

lemma scans_strip: "scans b inp segs \<Longrightarrow> strip_loop b inp = concat (map seg_render segs)"
proof (induction rule: scans.induct)
  case (scan_nil b)
  then show ?case by simp
next
  case (scan_text s rest b segs)
  then show ?case by (simp add: strip_text)
next
  case (scan_tag k s b rest segs)
  from seg_ok_hd [OF scan_tag(1,2), of rest] tag_step_segment [OF scan_tag(1-3), of rest]
  have "strip_loop b (s @ rest) = seg_render (k, s) @ strip_loop (b \<or> k = Body) rest"
    by (subst strip_tag) auto
  with scan_tag.IH show ?case by simp
next
  case (scan_lone b rest segs)
  obtain w n b' where step: "tag_step b (CHR ''<'' # rest) = (w, n, b')"
    by (cases "tag_step b (CHR ''<'' # rest)") auto
  with tag_step_lone [OF step] scan_lone(1) strip_tag [OF _ _ step] scan_lone.IH
  show ?case by simp
qed

lemma strip_has_reading: "\<exists>segs. scans b inp segs"
proof (induction "length inp" arbitrary: b inp rule: less_induct)
  case less
  show ?case
  proof (cases "inp = [] \<or> CHR ''<'' \<notin> set inp")
    case True
    then have "scans b (inp @ []) (if inp = [] then [] else [(Text, inp)])"
      using scan_text [of inp "[]" b "[]"] scan_nil by auto
    then show ?thesis by auto
  next
    case False
    then obtain pre post where inp: "inp = pre @ CHR ''<'' # post" and pre: "CHR ''<'' \<notin> set pre"
      by (metis split_list_first)
    let ?rem = "CHR ''<'' # post"
    obtain w n b' where step: "tag_step b ?rem = (w, n, b')"
      by (cases "tag_step b ?rem") auto
    from tag_step_advances [OF step] tag_step_within [OF _ step]
    have n: "0 < n" "n \<le> length ?rem" by auto
    then have "length (drop n ?rem) < length inp" by (simp add: inp)
    then have tail: "\<exists>segs. scans b (drop n ?rem) segs" for b by (rule less)
    have "\<exists>segs. scans b ?rem segs"
    proof (cases "special b ?rem")
      case True
      with tag_step_special [OF step] obtain k
        where k: "tagged k" "seg_ok k (take n ?rem)" "k = Body \<longrightarrow> \<not> b" by blast
      obtain segs where "scans (b \<or> k = Body) (drop n ?rem) segs" using tail by blast
      from scan_tag [OF k this] show ?thesis by (metis append_take_drop_id)
    next
      case False
      with tag_step_lone [OF step] have "n = 1" by simp
      with tail [of b] scan_lone [OF False] show ?thesis by auto
    qed
    then obtain segs' where rem: "scans b ?rem segs'" by blast
    then show ?thesis
      using scan_text [of pre ?rem b segs'] pre inp by (cases "pre = []") auto
  qed
qed

text \<open>The scanner is exactly the grammar: one reading up to its rendering, and its output.\<close>

lemma strip_loop_iff: "strip_loop b inp = out \<longleftrightarrow>
    (\<exists>segs. scans b inp segs \<and> out = concat (map seg_render segs))"
  using strip_has_reading [of b inp] scans_strip by blast


section \<open>Properties of the scanner\<close>

text \<open>\<open>indexFold\<close> returns the first case-insensitive occurrence, and -1 exactly when there is none.\<close>

theorem index_fold_least:
  "index_fold b t =
     (if \<exists>i. fold_at b t i then Some (LEAST i. fold_at b t i) else None)"
proof (cases "t = []")
  case True
  then have "fold_at b t 0" by (simp add: fold_at_def)
  then have "(LEAST i. fold_at b t i) = 0" and "\<exists>i. fold_at b t i" by (auto intro: Least_eq_0)
  with True show ?thesis by (simp add: index_fold_def)
next
  case False
  show ?thesis
  proof (cases "index_fold b t")
    case None
    with False show ?thesis by (simp add: index_fold_None_iff)
  next
    case (Some i)
    with False have i: "fold_at b t i" "\<forall>k<i. \<not> fold_at b t k"
      by (simp_all add: index_fold_Some_iff)
    then have "(LEAST i. fold_at b t i) = i"
      by (intro Least_equality) (auto simp: not_less [symmetric])
    with Some i(1) show ?thesis by auto
  qed
qed

text \<open>
  C10. \<open>stripHTML\<close> terminates on every input and appends to its buffer exactly the rendering of
  the input's reading as text, scripts, styles, links, images, the body tag and lone \<open><\<close>:
  the result is the one the grammar allows, and no other.
\<close>

theorem strip_html_grammar:
  "strip_html inp out = res \<longleftrightarrow>
     (\<exists>segs. scans False inp segs \<and> concat (map snd segs) = inp \<and>
       res = out @ concat (map seg_render segs))"
  using strip_has_reading [of False inp] scans_strip [of False inp] scans_source
  by (auto simp: strip_html_def)

lemma scans_one_body:
  "scans b inp segs \<Longrightarrow> length (filter (\<lambda>s. fst s = Body) segs) \<le> (if b then 0 else 1)"
  by (induction rule: scans.induct) auto

text \<open>The banner is injected at most once, whatever the document holds.\<close>

theorem banner_at_most_once:
  assumes "scans False inp segs"
  shows "length (filter (\<lambda>s. fst s = Body) segs) \<le> 1"
  using scans_one_body [OF assms] by simp

theorem banner_at_most_once_witness:
  "\<exists>segs. scans False ''<body><body>'' segs \<and> length (filter (\<lambda>s. fst s = Body) segs) \<le> 1"
  using strip_has_reading [of False "''<body><body>''"] banner_at_most_once by blast

lemma img_segment_length: "seg_ok Img s \<Longrightarrow> 5 \<le> length s"
  using closes_tag_longer [of s "''<img''"] by simp

lemma seg_render_length:
  assumes "seg_ok k s"
  shows "5 * length (seg_render (k, s)) \<le>
    18 * length s + (if k = Body then 5 * length notice else 0)"
proof -
  from assms have "k = Img \<Longrightarrow> 5 \<le> length s" by (auto dest: img_segment_length simp del: seg_ok.simps)
  then show ?thesis by (cases k) auto
qed

lemma scans_render_length:
  "scans b inp segs \<Longrightarrow>
     5 * length (concat (map seg_render segs)) \<le>
       18 * length inp + (if b then 0 else 5 * length notice)"
proof (induction rule: scans.induct)
  case (scan_tag k s b rest segs)
  with seg_render_length [OF scan_tag(2)] show ?case by (auto split: if_splits)
qed auto

text \<open>
  The output is never longer than 18/5 of the input plus one banner; the factor is that of
  \<open><img>\<close>, five bytes replaced by eighteen.
\<close>

theorem strip_html_length:
  "5 * length (strip_html inp out) \<le>
     5 * length out + 18 * length inp + 5 * length notice"
proof -
  obtain segs where "scans False inp segs" using strip_has_reading by blast
  from scans_strip [OF this] scans_render_length [OF this] show ?thesis
    by (simp add: strip_html_def)
qed

text \<open>A text in which nothing opens a tag the scanner knows.\<close>

definition opens_tag :: "bytes \<Rightarrow> bool" where
  "opens_tag s \<longleftrightarrow>
     has_tag_prefix s ''<script'' \<or> has_tag_prefix s ''<style'' \<or> has_tag_prefix s ''<link'' \<or>
     has_tag_prefix s ''<img'' \<or> has_tag_prefix s ''<body''"

lemma plain_render:
  "scans b inp segs \<Longrightarrow> (\<And>t. suffix t inp \<Longrightarrow> \<not> opens_tag t) \<Longrightarrow>
     concat (map seg_render segs) = inp"
proof (induction rule: scans.induct)
  case (scan_text s rest b segs)
  then show ?case by (simp add: suffix_appendI)
next
  case (scan_tag k s b rest segs)
  from seg_ok_opening [OF scan_tag(1,2), of rest] have "opens_tag (s @ rest)"
    using scan_tag(1) by (cases k) (auto simp: opens_tag_def open_text_def tagged_def)
  with scan_tag.prems show ?case by blast
next
  case (scan_lone b rest segs)
  then show ?case by (simp add: suffix_ConsI)
qed simp

text \<open>
  A document in which no \<open><script\<close>, \<open><style\<close>, \<open><link\<close>, \<open><img\<close> or \<open><body\<close> tag opens passes
  through the scanner unchanged, malformed markup included.
\<close>

theorem strip_html_plain:
  assumes "list_all (\<lambda>t. \<not> opens_tag t) (suffixes inp)"
  shows "strip_html inp out = out @ inp"
proof -
  obtain segs where "scans False inp segs" using strip_has_reading by blast
  from scans_strip [OF this] plain_render [OF this] assms show ?thesis
    by (simp add: strip_html_def list_all_iff)
qed

theorem strip_html_plain_witness:
  "strip_html ''<p class=x>a < b</p><scriptures>'' ''>'' = ''>'' @ ''<p class=x>a < b</p><scriptures>''"
  by (rule strip_html_plain) code_simp

text \<open>
  One pass is not enough to keep scripts out: removing an inner block can join the halves of
  an outer one, and the result holds a complete \<open><script>\<close> block.
\<close>

theorem strip_html_reassembles_script:
  "strip_html ''<scr<script></script>ipt>alert(1)</script>'' [] = ''<script>alert(1)</script>'' \<and>
   strip_html ''<script>alert(1)</script>'' [] = []"
  by code_simp

end
