(* ===== verification/Go_Http.thy ===== *)
theory Go_Http
  imports Ps_Prelude
begin

text \<open>
  What the source uses of \<open>net/http\<close>: the header map with its canonical keys, the request, the
  \<open>ResponseWriter\<close> of a connection and the type of handlers.  A Go map has no order, so a header
  is an association list whose order stands for one iteration order of the map; the laws
  a client may use are the locale \<open>header_store\<close>.
\<close>

section \<open>Header keys\<close>

text \<open>\<open>validHeaderFieldByte\<close>: letters, digits and the punctuation of an HTTP token.\<close>

definition token_byte :: "byte \<Rightarrow> bool" where
  "token_byte c \<longleftrightarrow>
     (let n = (of_char c :: nat)
      in (48 \<le> n \<and> n \<le> 57) \<or> (65 \<le> n \<and> n \<le> 90) \<or> (97 \<le> n \<and> n \<le> 122) \<or>
         c \<in> set ''!#$%&*+-.^_|~'' \<or> n = 39 \<or> n = 96)"

text \<open>
  \<open>CanonicalMIMEHeaderKey\<close>: the first letter and every letter after a hyphen in upper case, the
  others in lower case; a key with a byte outside the token set is left as it is.
\<close>

fun canonical_loop :: "bool \<Rightarrow> bytes \<Rightarrow> bytes" where
  "canonical_loop upper [] = []"
| "canonical_loop upper (c # cs) =
     (let c' = (if upper then upper_byte c else lower_byte c)
      in c' # canonical_loop (c' = CHR ''-'') cs)"

definition canonical_key :: "bytes \<Rightarrow> bytes" where
  "canonical_key s = (if list_all token_byte s then canonical_loop True s else s)"

lemma of_char_upper_byte:
  "(of_char (upper_byte c) :: nat) =
     (if 97 \<le> (of_char c :: nat) \<and> (of_char c :: nat) \<le> 122 then of_char c - 32 else of_char c)"
  using of_char_bound [of c] by (auto simp: upper_byte_def Let_def)

lemma byte_eq_iff: "(c :: byte) = d \<longleftrightarrow> (of_char c :: nat) = of_char d"
  by simp

lemma upper_lower [simp]: "upper_byte (lower_byte c) = upper_byte c"
  unfolding byte_eq_iff of_char_upper_byte of_char_lower_byte by auto

lemma lower_upper [simp]: "lower_byte (upper_byte c) = lower_byte c"
  unfolding byte_eq_iff of_char_upper_byte of_char_lower_byte by auto

lemma upper_upper [simp]: "upper_byte (upper_byte c) = upper_byte c"
  unfolding byte_eq_iff of_char_upper_byte by auto

lemma token_lower [simp]: "token_byte (lower_byte c) = token_byte c"
proof (cases "65 \<le> (of_char c :: nat) \<and> (of_char c :: nat) \<le> 90")
  case True
  then have "token_byte c" by (simp add: token_byte_def Let_def)
  moreover from True have "token_byte (lower_byte c)"
    by (simp add: token_byte_def Let_def of_char_lower_byte)
  ultimately show ?thesis by simp
next
  case False
  then show ?thesis by (auto simp: lower_byte_def Let_def)
qed

lemma token_upper [simp]: "token_byte (upper_byte c) = token_byte c"
  by (metis token_lower lower_upper)

lemma hyphen_case [simp]:
  "upper_byte c = CHR ''-'' \<longleftrightarrow> c = CHR ''-''" "lower_byte c = CHR ''-'' \<longleftrightarrow> c = CHR ''-''"
  unfolding byte_eq_iff of_char_upper_byte of_char_lower_byte by auto

lemma canonical_loop_idem [simp]: "canonical_loop u (canonical_loop u s) = canonical_loop u s"
proof (induction u s rule: canonical_loop.induct)
  case (2 upper c cs)
  then show ?case by (cases upper) (simp_all add: Let_def)
qed simp

lemma canonical_loop_lower: "canonical_loop u (map lower_byte s) = canonical_loop u s"
proof (induction u s rule: canonical_loop.induct)
  case (2 upper c cs)
  then show ?case by (cases upper) (simp_all add: Let_def)
qed simp

lemma canonical_loop_token [simp]:
  "list_all token_byte (canonical_loop u s) = list_all token_byte s"
  by (induction u s rule: canonical_loop.induct) (auto simp: Let_def)

lemma canonical_key_idem [simp]: "canonical_key (canonical_key s) = canonical_key s"
  by (simp add: canonical_key_def)

text \<open>Two names that differ in case only have one key.\<close>

lemma canonical_key_fold:
  assumes "list_all token_byte s" and "map lower_byte s = map lower_byte t"
  shows "canonical_key s = canonical_key t"
proof -
  have "list_all token_byte s = list_all token_byte (map lower_byte s)"
    and "list_all token_byte t = list_all token_byte (map lower_byte t)"
    by (simp_all add: list_all_iff)
  with assms have "list_all token_byte t" by simp
  with assms show ?thesis
    by (metis canonical_key_def canonical_loop_lower)
qed

section \<open>The header map\<close>

type_synonym header = "(bytes \<times> bytes list) list"

definition header_values :: "header \<Rightarrow> bytes \<Rightarrow> bytes list" where
  "header_values h k = (case map_of h (canonical_key k) of None \<Rightarrow> [] | Some vs \<Rightarrow> vs)"

definition header_get :: "header \<Rightarrow> bytes \<Rightarrow> bytes" where
  "header_get h k = (case header_values h k of [] \<Rightarrow> [] | v # _ \<Rightarrow> v)"

definition header_set :: "bytes \<Rightarrow> bytes \<Rightarrow> header \<Rightarrow> header" where
  "header_set k v h = AList.update (canonical_key k) [v] h"

definition header_add :: "bytes \<Rightarrow> bytes \<Rightarrow> header \<Rightarrow> header" where
  "header_add k v h = AList.update (canonical_key k) (header_values h k @ [v]) h"

definition header_del :: "bytes \<Rightarrow> header \<Rightarrow> header" where
  "header_del k h = AList.delete (canonical_key k) h"

text \<open>The order of a map's keys is no part of its value, and keys do not repeat.\<close>

definition header_ok :: "header \<Rightarrow> bool" where
  "header_ok h \<longleftrightarrow> distinct (map fst h)"

text \<open>
  The interface the proxy and the middlewares call: what a lookup returns after each update.
\<close>

locale header_store =
  fixes canon :: "bytes \<Rightarrow> bytes"
    and vals :: "'h \<Rightarrow> bytes \<Rightarrow> bytes list"
    and hset :: "bytes \<Rightarrow> bytes \<Rightarrow> 'h \<Rightarrow> 'h"
    and hadd :: "bytes \<Rightarrow> bytes \<Rightarrow> 'h \<Rightarrow> 'h"
    and hdel :: "bytes \<Rightarrow> 'h \<Rightarrow> 'h"
  assumes vals_set: "vals (hset k v h) k' = (if canon k = canon k' then [v] else vals h k')"
    and vals_add: "vals (hadd k v h) k' = (if canon k = canon k' then vals h k' @ [v] else vals h k')"
    and vals_del: "vals (hdel k h) k' = (if canon k = canon k' then [] else vals h k')"
begin

lemmas vals_upd = vals_set vals_add vals_del

lemma vals_add_all:
  "vals (fold (hadd k) vs h) k' = (if canon k = canon k' then vals h k' @ vs else vals h k')"
  by (induction vs arbitrary: h) (auto simp: vals_add)

lemma vals_del_all:
  "vals (fold hdel ks h) k' = (if canon k' \<in> canon ` set ks then [] else vals h k')"
  by (induction ks arbitrary: h) (auto simp: vals_del)

text \<open>Copying a list of keys with their values appends, per key, all the values of that key.\<close>

lemma vals_copy:
  "vals (fold (\<lambda>(k, vs). fold (hadd k) vs) kvs h) k' =
     vals h k' @ concat (map snd (filter (\<lambda>kv. canon (fst kv) = canon k') kvs))"
  by (induction kvs arbitrary: h) (auto simp: vals_add_all)

end

lemma header_set_values:
  "header_values (header_set k v h) k' =
     (if canonical_key k = canonical_key k' then [v] else header_values h k')"
  by (simp add: header_values_def header_set_def update_conv')

lemma header_add_values:
  "header_values (header_add k v h) k' =
     (if canonical_key k = canonical_key k' then header_values h k' @ [v] else header_values h k')"
  by (simp add: header_values_def header_add_def update_conv')

lemma header_del_values:
  "header_values (header_del k h) k' =
     (if canonical_key k = canonical_key k' then [] else header_values h k')"
  by (simp add: header_values_def header_del_def delete_conv')

interpretation hd: header_store canonical_key header_values header_set header_add header_del
  by unfold_locales (simp_all add: header_set_values header_add_values header_del_values)

lemma header_ok_set: "header_ok h \<Longrightarrow> header_ok (header_set k v h)"
  by (simp add: header_ok_def header_set_def distinct_update)

lemma header_ok_add: "header_ok h \<Longrightarrow> header_ok (header_add k v h)"
  by (simp add: header_ok_def header_add_def distinct_update)

lemma header_ok_del: "header_ok h \<Longrightarrow> header_ok (header_del k h)"
  by (simp add: header_ok_def header_del_def distinct_delete)

lemmas header_ok_intros = header_ok_set header_ok_add header_ok_del


section \<open>Requests, connections and handlers\<close>

text \<open>
  The fields of \<open>http.Request\<close> the source reads or writes; \<open>rq_tls\<close> is \<open>r.TLS != nil\<close>.
\<close>

record request =
  rq_method :: bytes
  rq_path :: bytes
  rq_raw_query :: bytes
  rq_header :: header
  rq_host :: bytes
  rq_remote :: bytes
  rq_tls :: bool
  rq_body :: bytes

text \<open>
  The server's own \<open>ResponseWriter\<close>: the header map the handler edits, the status line and the
  header snapshot sent by the first \<open>WriteHeader\<close> (later ones are ignored), and the body bytes
  handed to \<open>Write\<close>.  Statuses are the final ones and writes succeed here; the panic on a status of
  other than three digits and writes that fail are in \<open>Proxy_Faults\<close>.
\<close>

record conn =
  c_header :: header
  c_sent :: "(int \<times> header) option"
  c_body :: bytes

definition fresh_conn :: conn where
  "fresh_conn = \<lparr>c_header = [], c_sent = None, c_body = []\<rparr>"

definition conn_write_header :: "int \<Rightarrow> conn \<Rightarrow> conn" where
  "conn_write_header code c =
     (if c_sent c = None then c\<lparr>c_sent := Some (code, c_header c)\<rparr> else c)"

definition conn_write :: "bytes \<Rightarrow> conn \<Rightarrow> conn" where
  "conn_write b c =
     (let c' = (if c_sent c = None then conn_write_header 200 c else c)
      in c'\<lparr>c_body := c_body c' @ b\<rparr>)"

definition conn_map_header :: "(header \<Rightarrow> header) \<Rightarrow> conn \<Rightarrow> conn" where
  "conn_map_header f c = c\<lparr>c_header := f (c_header c)\<rparr>"

type_synonym ('w, 'st) handler = "request \<Rightarrow> 'w \<Rightarrow> 'st \<Rightarrow> 'w \<times> 'st"

text \<open>
  A handler acts on its writer through the interface only; one run of it is a list of calls.
\<close>

datatype rw_call =
  HeaderSet bytes bytes
| HeaderAdd bytes bytes
| HeaderDel bytes
| WriteHeader int
| Write bytes

fun call_status :: "rw_call \<Rightarrow> int option" where
  "call_status (WriteHeader c) = Some c"
| "call_status (Write b) = Some 200"
| "call_status _ = None"

fun call_body :: "rw_call \<Rightarrow> bytes" where
  "call_body (Write b) = b"
| "call_body _ = []"

fun call_edit :: "rw_call \<Rightarrow> header \<Rightarrow> header" where
  "call_edit (HeaderSet k v) h = header_set k v h"
| "call_edit (HeaderAdd k v) h = header_add k v h"
| "call_edit (HeaderDel k) h = header_del k h"
| "call_edit _ h = h"

text \<open>
  The contract of \<open>http.ResponseWriter\<close> that the handlers rely on: the first \<open>WriteHeader\<close> fixes
  the status, a \<open>Write\<close> before any fixes 200, and editing the header map changes neither the
  status nor the body.
\<close>

locale response_writer =
  fixes w_ok :: "'w \<Rightarrow> bool"
    and w_status :: "'w \<Rightarrow> int option"
    and w_body :: "'w \<Rightarrow> bytes"
    and w_edit :: "(header \<Rightarrow> header) \<Rightarrow> 'w \<Rightarrow> 'w"
    and w_write_header :: "int \<Rightarrow> 'w \<Rightarrow> 'w"
    and w_write :: "bytes \<Rightarrow> 'w \<Rightarrow> 'w"
  assumes ok_edit: "w_ok w \<Longrightarrow> w_ok (w_edit f w)"
    and ok_header: "w_ok w \<Longrightarrow> w_ok (w_write_header c w)"
    and ok_write: "w_ok w \<Longrightarrow> w_ok (w_write b w)"
    and status_edit: "w_ok w \<Longrightarrow> w_status (w_edit f w) = w_status w"
    and status_header: "w_ok w \<Longrightarrow> w_status (w_write_header c w) =
          (case w_status w of None \<Rightarrow> Some c | Some d \<Rightarrow> Some d)"
    and status_write: "w_ok w \<Longrightarrow> w_status (w_write b w) =
          (case w_status w of None \<Rightarrow> Some 200 | Some d \<Rightarrow> Some d)"
    and body_edit: "w_ok w \<Longrightarrow> w_body (w_edit f w) = w_body w"
    and body_header: "w_ok w \<Longrightarrow> w_body (w_write_header c w) = w_body w"
    and body_write: "w_ok w \<Longrightarrow> w_body (w_write b w) = w_body w @ b"
begin

fun perform :: "rw_call \<Rightarrow> 'w \<Rightarrow> 'w" where
  "perform (HeaderSet k v) w = w_edit (header_set k v) w"
| "perform (HeaderAdd k v) w = w_edit (header_add k v) w"
| "perform (HeaderDel k) w = w_edit (header_del k) w"
| "perform (WriteHeader c) w = w_write_header c w"
| "perform (Write b) w = w_write b w"

lemma ok_perform: "w_ok w \<Longrightarrow> w_ok (perform c w)"
  by (cases c) (auto simp: ok_edit ok_header ok_write)

lemma ok_performs: "w_ok w \<Longrightarrow> w_ok (fold perform cs w)"
  by (induction cs arbitrary: w) (auto simp: ok_perform)

lemma status_perform: "w_ok w \<Longrightarrow>
    w_status (perform c w) = (case w_status w of None \<Rightarrow> call_status c | Some d \<Rightarrow> Some d)"
  by (cases c) (auto simp: status_edit status_header status_write split: option.splits)

lemma body_perform: "w_ok w \<Longrightarrow> w_body (perform c w) = w_body w @ call_body c"
  by (cases c) (auto simp: body_edit body_header body_write)

lemma status_sticky:
  "w_ok w \<Longrightarrow> w_status w = Some d \<Longrightarrow> w_status (fold perform cs w) = Some d"
  by (induction cs arbitrary: w) (auto simp: status_perform ok_perform)

lemma body_performs:
  "w_ok w \<Longrightarrow> w_body (fold perform cs w) = w_body w @ concat (map call_body cs)"
  by (induction cs arbitrary: w) (auto simp: body_perform ok_perform)

text \<open>The status of a run is that of its first call that fixes one.\<close>

lemma status_performs:
  "w_ok w \<Longrightarrow> w_status w = None \<Longrightarrow>
     w_status (fold perform cs w) =
       (case List.map_filter call_status cs of [] \<Rightarrow> None | c # _ \<Rightarrow> Some c)"
proof (induction cs arbitrary: w)
  case Nil
  then show ?case by (simp add: List.map_filter_def)
next
  case (Cons c cs)
  then show ?case
    by (cases "call_status c")
      (auto simp: status_perform status_sticky ok_perform List.map_filter_def)
qed

end

interpretation cn: response_writer "\<lambda>c. True"
  "\<lambda>c. map_option fst (c_sent c)" c_body conn_map_header conn_write_header conn_write
  by unfold_locales
    (auto simp: conn_map_header_def conn_write_header_def conn_write_def Let_def
      split: option.splits)

end
