(* ===== verification/Strip_Writer.thy ===== *)
theory Strip_Writer
  imports Stripper Go_Http
begin

text \<open>
  \<open>stripperWriter\<close> and the stripper middleware of \<open>src/stripper/stripper.go\<close>.  A
  \<open>ResponseWriter\<close> is either the server's connection or a \<open>stripperWriter\<close> around another
  writer, and each method of the interface is one function that dispatches on which of the two
  it is; \<open>Header()\<close>, which \<open>stripperWriter\<close> does not define, is the embedded writer's.
  \<open>http.DetectContentType\<close>, a table of file signatures, is the parameter \<open>detect\<close>.
\<close>

section \<open>The writer\<close>

record strip_state =
  sw_buf :: bytes
  sw_status :: int
  sw_header_written :: bool
  sw_is_html :: bool
  sw_active :: bool

datatype rwriter = Conn conn | Stripping strip_state rwriter

fun rw_header :: "rwriter \<Rightarrow> header" where
  "rw_header (Conn c) = c_header c"
| "rw_header (Stripping s w) = rw_header w"

fun rw_edit :: "(header \<Rightarrow> header) \<Rightarrow> rwriter \<Rightarrow> rwriter" where
  "rw_edit f (Conn c) = Conn (conn_map_header f c)"
| "rw_edit f (Stripping s w) = Stripping s (rw_edit f w)"

text \<open>
  \<open>strings.Contains(strings.ToLower(contentType), "text/html")\<close>: no code point outside ASCII has
  a lower case among the letters of \<open>text/html\<close>, so lowering the ASCII bytes is enough.
\<close>

definition is_html_type :: "bytes \<Rightarrow> bool" where
  "is_html_type contentType = contains (map lower_byte contentType) ''text/html''"

fun rw_write_header :: "int \<Rightarrow> rwriter \<Rightarrow> rwriter" where
  "rw_write_header code (Conn c) = Conn (conn_write_header code c)"
| "rw_write_header code (Stripping s w) =
     (if sw_header_written s then Stripping s w
      else
        (let s' = s\<lparr>sw_status := code, sw_header_written := True\<rparr>
         in if sw_active s' \<and> is_html_type (header_get (rw_header w) ''Content-Type'')
            then Stripping (s'\<lparr>sw_is_html := True\<rparr>) (rw_edit (header_del ''Content-Length'') w)
            else Stripping s' (rw_write_header code w)))"

fun rw_depth :: "rwriter \<Rightarrow> nat" where
  "rw_depth (Conn c) = 0"
| "rw_depth (Stripping s w) = Suc (rw_depth w)"

lemma rw_depth_edit [simp]: "rw_depth (rw_edit f w) = rw_depth w"
  by (induction w) auto

lemma rw_depth_write_header [simp]: "rw_depth (rw_write_header c w) = rw_depth w"
  by (induction w) (auto simp: Let_def)

text \<open>
  The opening of \<open>Write\<close>: a first write without a \<open>WriteHeader\<close> sniffs a missing content type
  and writes status 200.
\<close>

definition sw_ensure_header ::
  "(bytes \<Rightarrow> bytes) \<Rightarrow> bytes \<Rightarrow> strip_state \<Rightarrow> rwriter \<Rightarrow> rwriter" where
  "sw_ensure_header detect b s w =
     (if sw_header_written s then Stripping s w
      else rw_write_header 200 (Stripping s
             (if header_get (rw_header w) ''Content-Type'' = []
              then rw_edit (header_set ''Content-Type'' (detect b)) w else w)))"

lemma rw_depth_ensure [simp]: "rw_depth (sw_ensure_header detect b s w) = Suc (rw_depth w)"
  by (simp add: sw_ensure_header_def del: rw_write_header.simps)

function rw_write :: "(bytes \<Rightarrow> bytes) \<Rightarrow> bytes \<Rightarrow> rwriter \<Rightarrow> rwriter" where
  "rw_write detect b (Conn c) = Conn (conn_write b c)"
| "rw_write detect b (Stripping s w) =
     (case sw_ensure_header detect b s w of
        Stripping s' w' \<Rightarrow>
          (if sw_is_html s' then Stripping (s'\<lparr>sw_buf := sw_buf s' @ b\<rparr>) w'
           else Stripping s' (rw_write detect b w'))
      | Conn c \<Rightarrow> Conn c)"
  by pat_completeness auto
termination
proof (relation "measure (\<lambda>(d, b, w). rw_depth w)", goal_cases)
  case 1
  then show ?case by simp
next
  case (2 detect b s w s' w')
  then have "rw_depth (Stripping s' w') = Suc (rw_depth w)" by (metis rw_depth_ensure)
  then show ?case by simp
qed

section \<open>The middleware\<close>

definition strip_middleware ::
  "(bytes \<Rightarrow> bytes) \<Rightarrow> ('st \<Rightarrow> int) \<Rightarrow> int \<Rightarrow> (rwriter, 'st) handler \<Rightarrow> (rwriter, 'st) handler"
where
  "strip_middleware detect activeReqs stripThreshold next r w st =
     (if activeReqs st \<le> stripThreshold then next r w st
      else
        (let r' = r\<lparr>rq_header := header_del ''Accept-Encoding'' (rq_header r)\<rparr>;
             sw = Stripping \<lparr>sw_buf = [], sw_status = 0, sw_header_written = False,
                             sw_is_html = False, sw_active = True\<rparr> w
         in case next r' sw st of
              (Stripping s w', st') \<Rightarrow>
                (if sw_is_html s
                 then (rw_write detect (strip_html (sw_buf s) [])
                         (rw_write_header (sw_status s) w'), st')
                 else (w', st'))
            | (Conn c, st') \<Rightarrow> (Conn c, st')))"

section \<open>Both writers keep the contract of the interface\<close>

fun rw_status :: "rwriter \<Rightarrow> int option" where
  "rw_status (Conn c) = map_option fst (c_sent c)"
| "rw_status (Stripping s w) = (if sw_header_written s then Some (sw_status s) else None)"

fun rw_body :: "rwriter \<Rightarrow> bytes" where
  "rw_body (Conn c) = c_body c"
| "rw_body (Stripping s w) = rw_body w @ sw_buf s"

text \<open>Only an HTML response is buffered, and only after its header was written.\<close>

fun rw_ok :: "rwriter \<Rightarrow> bool" where
  "rw_ok (Conn c) = True"
| "rw_ok (Stripping s w) =
     (rw_ok w \<and> (sw_buf s \<noteq> [] \<longrightarrow> sw_is_html s) \<and> (sw_is_html s \<longrightarrow> sw_header_written s))"

lemma rw_edit_frame [writer_simps]:
  "rw_status (rw_edit f w) = rw_status w" "rw_body (rw_edit f w) = rw_body w"
  "rw_ok (rw_edit f w) = rw_ok w"
  by (induction w) (auto simp: conn_map_header_def)

lemma rw_write_header_status [writer_simps]:
  "rw_status (rw_write_header c w) = (case rw_status w of None \<Rightarrow> Some c | Some d \<Rightarrow> Some d)"
  by (cases w) (auto simp: conn_write_header_def Let_def split: option.splits)

lemma rw_write_header_body [writer_simps]: "rw_body (rw_write_header c w) = rw_body w"
  by (induction w) (auto simp: conn_write_header_def Let_def writer_simps)

lemma rw_write_header_ok [writer_simps]: "rw_ok w \<Longrightarrow> rw_ok (rw_write_header c w)"
  by (induction w) (auto simp: Let_def writer_simps)

lemma sw_ensure_header_cases:
  "\<exists>s' w'. sw_ensure_header detect b s w = Stripping s' w' \<and> sw_header_written s' \<and>
     sw_status s' = (if sw_header_written s then sw_status s else 200) \<and> sw_buf s' = sw_buf s \<and>
     rw_body w' = rw_body w \<and> (rw_ok (Stripping s w) \<longrightarrow> rw_ok (Stripping s' w'))"
  by (auto simp: sw_ensure_header_def Let_def writer_simps)

lemma rw_write_contract:
  "rw_ok w \<Longrightarrow>
     rw_ok (rw_write detect b w) \<and>
     rw_status (rw_write detect b w) = (case rw_status w of None \<Rightarrow> Some 200 | Some d \<Rightarrow> Some d) \<and>
     rw_body (rw_write detect b w) = rw_body w @ b"
proof (induction detect b w rule: rw_write.induct)
  case (1 detect b c)
  then show ?case by (auto simp: conn_write_def conn_write_header_def Let_def split: option.splits)
next
  case (2 detect b s w)
  obtain s' w' where e: "sw_ensure_header detect b s w = Stripping s' w'"
    and "sw_header_written s'" "sw_status s' = (if sw_header_written s then sw_status s else 200)"
    and "sw_buf s' = sw_buf s" "rw_body w' = rw_body w" "rw_ok (Stripping s' w')"
    using sw_ensure_header_cases [of detect b s w] 2(2) by blast
  with 2(1) [OF e] show ?case by (cases "sw_is_html s'") auto
qed

interpretation rw: response_writer rw_ok rw_status rw_body rw_edit rw_write_header "rw_write detect"
  for detect
  by unfold_locales (simp_all add: writer_simps rw_write_contract)


section \<open>What the client receives\<close>

text \<open>
  A handler that makes a given list of calls on its writer, whichever writer that is, and updates the
  state it shares.
\<close>

definition scripted ::
  "(bytes \<Rightarrow> bytes) \<Rightarrow> (request \<Rightarrow> rw_call list) \<Rightarrow> (request \<Rightarrow> 'st \<Rightarrow> 'st) \<Rightarrow> (rwriter, 'st) handler"
where
  "scripted detect prog upd r w st = (fold (rw.perform detect) (prog r) w, upd r st)"

text \<open>
  The link between a \<open>stripperWriter\<close> and what it embeds: until the header is known not to be
  HTML's, the inner writer has sent nothing.
\<close>

fun sw_sync :: "rwriter \<Rightarrow> bool" where
  "sw_sync (Conn c) = False"
| "sw_sync (Stripping s w) =
     (rw_ok (Stripping s w) \<and>
      (if sw_header_written s \<and> \<not> sw_is_html s then rw_status w = Some (sw_status s)
       else rw_status w = None \<and> rw_body w = []))"

lemma sw_sync_edit: "sw_sync w \<Longrightarrow> sw_sync (rw_edit f w)"
  by (cases w) (auto simp: writer_simps)

lemma sw_sync_write_header: "sw_sync w \<Longrightarrow> sw_sync (rw_write_header c w)"
  by (cases w) (auto simp: writer_simps Let_def)

lemma sw_ensure_sync:
  "sw_sync (Stripping s w) \<Longrightarrow> sw_sync (sw_ensure_header detect b s w)"
  unfolding sw_ensure_header_def
  by (auto simp: writer_simps simp del: rw_write_header.simps intro!: sw_sync_write_header)

lemma sw_sync_write:
  assumes "sw_sync w"
  shows "sw_sync (rw_write detect b w)"
proof (cases w)
  case (Conn c)
  with assms show ?thesis by simp
next
  case (Stripping s v)
  obtain s' v' where e: "sw_ensure_header detect b s v = Stripping s' v'" and "sw_header_written s'"
    using sw_ensure_header_cases by blast
  from sw_ensure_sync [of s v detect b] assms Stripping e have "sw_sync (Stripping s' v')" by simp
  with e Stripping \<open>sw_header_written s'\<close> show ?thesis
    by (auto simp: rw_write_contract)
qed

lemma sw_sync_perform: "sw_sync w \<Longrightarrow> sw_sync (rw.perform detect c w)"
  by (cases c) (auto intro: sw_sync_edit sw_sync_write_header sw_sync_write)

lemma sw_sync_performs: "sw_sync w \<Longrightarrow> sw_sync (fold (rw.perform detect) cs w)"
  by (induction cs arbitrary: w) (auto intro: sw_sync_perform)

definition first_status :: "rw_call list \<Rightarrow> int option" where
  "first_status cs = (case List.map_filter call_status cs of [] \<Rightarrow> None | c # _ \<Rightarrow> Some c)"

text \<open>
  Whatever calls the wrapped handler makes, the client gets the status the handler chose first
  (200 if it wrote without choosing), and a body that is either all the handler's writes or the
  scanner's image of all of them, never a mixture or a part.
\<close>

lemma strip_response:
  assumes "rw_ok w" and "rw_status w = None" and "rw_body w = []"
  shows "\<exists>w1 r' cs. strip_middleware detect activeReqs thr (scripted detect prog upd) r w st = (w1, upd r' st) \<and>
     r' = (if activeReqs st \<le> thr then r
           else r\<lparr>rq_header := header_del ''Accept-Encoding'' (rq_header r)\<rparr>) \<and>
     cs = prog r' \<and>
     rw_status w1 = first_status cs \<and>
     (rw_body w1 = concat (map call_body cs) \<or>
      activeReqs st > thr \<and> rw_body w1 = strip_html (concat (map call_body cs)) [])"
proof (cases "activeReqs st \<le> thr")
  case True
  with assms show ?thesis
    by (simp add: strip_middleware_def scripted_def rw.body_performs rw.status_performs
        first_status_def)
next
  case False
  define r' where "r' = r\<lparr>rq_header := header_del ''Accept-Encoding'' (rq_header r)\<rparr>"
  define s0 where "s0 = \<lparr>sw_buf = [], sw_status = 0, sw_header_written = False,
                          sw_is_html = False, sw_active = True\<rparr>"
  define v where "v = fold (rw.perform detect) (prog r') (Stripping s0 w)"
  have start: "sw_sync (Stripping s0 w)" "rw_ok (Stripping s0 w)" "rw_status (Stripping s0 w) = None"
    "rw_body (Stripping s0 w) = []"
    using assms by (simp_all add: s0_def)
  from sw_sync_performs [OF start(1)] have sync: "sw_sync v" by (simp add: v_def)
  then obtain s' w' where v: "v = Stripping s' w'" by (cases v) auto
  define body where "body = concat (map call_body (prog r'))"
  have st: "rw_status v = first_status (prog r')" and bd: "rw_body v = body"
    using start by (simp_all add: v_def body_def rw.status_performs rw.body_performs first_status_def)
  show ?thesis
    using False sync st bd v
    by (auto simp: strip_middleware_def scripted_def r'_def [symmetric] s0_def [symmetric]
        v_def [symmetric] body_def [symmetric] Let_def writer_simps rw_write_contract
        split: if_splits)
qed

fun is_edit :: "rw_call \<Rightarrow> bool" where
  "is_edit (WriteHeader c) = False"
| "is_edit (Write b) = False"
| "is_edit _ = True"

lemma rw_edit_edit: "rw_edit f (rw_edit g w) = rw_edit (\<lambda>h. f (g h)) w"
  by (induction w) (auto simp: conn_map_header_def)

lemma rw_edit_id: "rw_edit (\<lambda>h. h) w = w"
  by (induction w) (auto simp: conn_map_header_def)

lemma perform_edits:
  "list_all is_edit es \<Longrightarrow> fold (rw.perform detect) es w = rw_edit (\<lambda>h. fold call_edit es h) w"
proof (induction es arbitrary: w)
  case Nil
  then show ?case by (simp add: rw_edit_id)
next
  case (Cons e es)
  then show ?case by (cases e) (auto simp: rw_edit_edit)
qed

lemma perform_writes_conn:
  "c_sent c \<noteq> None \<Longrightarrow>
     fold (rw.perform detect) (map Write bs) (Conn c) = Conn (c\<lparr>c_body := c_body c @ concat bs\<rparr>)"
  by (induction bs arbitrary: c) (auto simp: conn_write_def Let_def)

lemma perform_writes_html:
  "sw_header_written s \<Longrightarrow> sw_is_html s \<Longrightarrow>
     fold (rw.perform detect) (map Write bs) (Stripping s w) =
       Stripping (s\<lparr>sw_buf := sw_buf s @ concat bs\<rparr>) w"
  by (induction bs arbitrary: s) (auto simp: sw_ensure_header_def)

lemma perform_writes_through:
  "sw_header_written s \<Longrightarrow> \<not> sw_is_html s \<Longrightarrow>
     fold (rw.perform detect) (map Write bs) (Stripping s w) =
       Stripping s (fold (rw.perform detect) (map Write bs) w)"
  by (induction bs arbitrary: w) (auto simp: sw_ensure_header_def)

text \<open>The response of a handler that edits the header, sends a status and streams a body.\<close>

definition plain_response :: "conn \<Rightarrow> header \<Rightarrow> int \<Rightarrow> bytes \<Rightarrow> conn" where
  "plain_response c h code body =
     c\<lparr>c_header := h, c_sent := Some (code, h), c_body := c_body c @ body\<rparr>"

text \<open>
  C29. Above the threshold, a response that is not HTML reaches the client byte for byte as it would
  without the middleware, and an HTML response arrives with its status and headers, less
  \<open>Content-Length\<close>, and with the scanner's output of the whole body.
\<close>

theorem strip_middleware_exact:
  assumes above: "activeReqs st > thr" and unsent: "c_sent c = None"
    and prog: "prog (r\<lparr>rq_header := header_del ''Accept-Encoding'' (rq_header r)\<rparr>) =
      edits @ WriteHeader code # map Write chunks" and edits: "list_all is_edit edits"
    and h: "h = fold call_edit edits (c_header c)"
  shows "strip_middleware detect activeReqs thr (scripted detect prog upd) r (Conn c) st =
    (Conn (if is_html_type (header_get h ''Content-Type'')
           then plain_response c (header_del ''Content-Length'' h) code
                  (strip_html (concat chunks) [])
           else plain_response c h code (concat chunks)),
     upd (r\<lparr>rq_header := header_del ''Accept-Encoding'' (rq_header r)\<rparr>) st)"
  using above unsent prog edits
  by (auto simp: strip_middleware_def scripted_def plain_response_def h perform_edits Let_def
      perform_writes_html perform_writes_through perform_writes_conn
      conn_map_header_def conn_write_header_def conn_write_def)

theorem strip_middleware_exact_witness:
  "strip_middleware (\<lambda>b. []) (\<lambda>st :: int. st) 40
     (scripted (\<lambda>b. []) (\<lambda>r. [HeaderSet ''content-type'' ''Text/HTML; charset=utf-8'',
        HeaderAdd ''Content-Length'' ''9''] @ WriteHeader 200 # map Write [''<img'', '' a>x'']) (\<lambda>r. id))
     \<lparr>rq_method = ''GET'', rq_path = ''/'', rq_raw_query = [], rq_header = [], rq_host = [],
      rq_remote = [], rq_tls = False, rq_body = []\<rparr> (Conn fresh_conn) 41 =
   (Conn (plain_response fresh_conn [(''Content-Type'', [''Text/HTML; charset=utf-8''])] 200
      ''<span>[img]</span>x''), 41)"
proof -
  let ?edits = "[HeaderSet ''content-type'' ''Text/HTML; charset=utf-8'',
        HeaderAdd ''Content-Length'' ''9'']"
  let ?h = "[(''Content-Type'', [''Text/HTML; charset=utf-8'']), (''Content-Length'', [''9''])]"
  have h: "?h = fold call_edit ?edits (c_header fresh_conn)" by code_simp
  have html: "is_html_type (header_get ?h ''Content-Type'')" by code_simp
  have del: "header_del ''Content-Length'' ?h = [(''Content-Type'', [''Text/HTML; charset=utf-8''])]"
    by code_simp
  have body: "strip_html ''<img a>x'' [] = ''<span>[img]</span>x''" by code_simp
  show ?thesis
    using strip_middleware_exact [OF _ _ _ _ h, where activeReqs = "\<lambda>st. st" and thr = 40 and st = 41
        and code = 200 and chunks = "[''<img'', '' a>x'']" and detect = "\<lambda>b. []"
        and prog = "\<lambda>r. ?edits @ WriteHeader 200 # map Write [''<img'', '' a>x'']" and upd = "\<lambda>r. id"]
    by (simp add: html del body fresh_conn_def)
qed

end
