(* ===== verification/Strip_Pool.thy ===== *)
theory Strip_Pool
  imports Strip_Writer
begin

text \<open>
  The stripper's pool of buffers (\<open>Stripper\<close>, \<open>New\<close> and the part of \<open>Middleware\<close> behind the threshold in
  \<open>src/stripper/stripper.go\<close>), shared by the goroutines of all requests.  Buffers are addresses of a
  heap; \<open>Get\<close> of a \<open>sync.Pool\<close> takes out any buffer that was put back, with what it then held, or makes
  a new one, and the runtime may drop pooled buffers at any time.
\<close>

section \<open>The pool and its users\<close>

text \<open>
  Where a request is between its two \<open>Get\<close>s and its two deferred \<open>Put\<close>s, with the addresses of \<open>buf\<close> and
  \<open>outBuf\<close> and the writes of the handler that are still to come; \<open>Unwinding\<close> is a panic, with the buffers
  the deferred \<open>Put\<close>s have still to give back, the last taken first.
\<close>

datatype job =
  Waiting
| Buffering nat "bytes list"
| Scanning nat nat
| Scanned nat nat
| Emitted nat nat
| Leaving nat
| Closed
| Unwinding "nat list"

record pool =
  pl_heap :: "nat \<Rightarrow> bytes"
  pl_next :: nat
  pl_free :: "nat list"
  pl_job :: "nat \<Rightarrow> job"
  pl_out :: "nat \<Rightarrow> bytes option"

definition new_pool :: pool where
  "new_pool = \<lparr>pl_heap = (\<lambda>_. []), pl_next = 0, pl_free = [], pl_job = (\<lambda>_. Waiting), pl_out = (\<lambda>_. None)\<rparr>"

text \<open>\<open>pool.Get()\<close> and \<open>Reset()\<close>; the choice is an index into the pool, or past its end for \<open>New\<close>.\<close>

definition get_buffer :: "nat \<Rightarrow> pool \<Rightarrow> nat \<times> pool" where
  "get_buffer i s =
     (if i < length (pl_free s)
      then (pl_free s ! i, s\<lparr>pl_free := take i (pl_free s) @ drop (Suc i) (pl_free s)\<rparr>)
      else (pl_next s, s\<lparr>pl_next := Suc (pl_next s)\<rparr>))"

definition store :: "nat \<Rightarrow> bytes \<Rightarrow> pool \<Rightarrow> pool" where
  "store a b s = s\<lparr>pl_heap := (pl_heap s)(a := b)\<rparr>"

definition put_buffer :: "nat \<Rightarrow> pool \<Rightarrow> pool" where
  "put_buffer a s = s\<lparr>pl_free := a # pl_free s\<rparr>"

definition job_to :: "nat \<Rightarrow> job \<Rightarrow> pool \<Rightarrow> pool" where
  "job_to g j s = s\<lparr>pl_job := (pl_job s)(g := j)\<rparr>"

datatype pool_event =
  GetBuf nat nat
| WriteBuf nat
| GetOut nat nat
| Scan nat
| Emit nat
| PutOut nat
| PutBuf nat
| Panic nat
| Unwind nat
| Drop nat

text \<open>
  One event of a request \<open>g\<close>; \<open>html g\<close> tells whether the writer took the response for HTML, and then
  \<open>writes g\<close> are the writes it buffers.  The handler behind may panic at any time, and the \<open>WriteHeader\<close>
  before the output is sent.
\<close>

fun pool_fire :: "(nat \<Rightarrow> bool) \<Rightarrow> (nat \<Rightarrow> bytes list) \<Rightarrow> pool_event \<Rightarrow> pool \<Rightarrow> pool option" where
  "pool_fire html writes (GetBuf g i) s =
     (if pl_job s g = Waiting
      then (case get_buffer i s of
              (a, s') \<Rightarrow> Some (job_to g (Buffering a (if html g then writes g else [])) (store a [] s')))
      else None)"
| "pool_fire html writes (WriteBuf g) s =
     (case pl_job s g of
        Buffering a (c # cs) \<Rightarrow> Some (job_to g (Buffering a cs) (store a (pl_heap s a @ c) s))
      | _ \<Rightarrow> None)"
| "pool_fire html writes (GetOut g i) s =
     (case pl_job s g of
        Buffering a [] \<Rightarrow>
          if html g
          then (case get_buffer i s of (b, s') \<Rightarrow> Some (job_to g (Scanning a b) (store b [] s')))
          else None
      | _ \<Rightarrow> None)"
| "pool_fire html writes (Scan g) s =
     (case pl_job s g of
        Scanning a b \<Rightarrow> Some (job_to g (Scanned a b) (store b (strip_html (pl_heap s a) (pl_heap s b)) s))
      | _ \<Rightarrow> None)"
| "pool_fire html writes (Emit g) s =
     (case pl_job s g of
        Scanned a b \<Rightarrow> Some (job_to g (Emitted a b) (s\<lparr>pl_out := (pl_out s)(g := Some (pl_heap s b))\<rparr>))
      | _ \<Rightarrow> None)"
| "pool_fire html writes (PutOut g) s =
     (case pl_job s g of
        Emitted a b \<Rightarrow> Some (job_to g (Leaving a) (put_buffer b s))
      | _ \<Rightarrow> None)"
| "pool_fire html writes (PutBuf g) s =
     (case pl_job s g of
        Leaving a \<Rightarrow> Some (job_to g Closed (put_buffer a s))
      | Buffering a [] \<Rightarrow> if html g then None else Some (job_to g Closed (put_buffer a s))
      | _ \<Rightarrow> None)"
| "pool_fire html writes (Panic g) s =
     (case pl_job s g of
        Buffering a cs \<Rightarrow> Some (job_to g (Unwinding [a]) s)
      | Scanned a b \<Rightarrow> Some (job_to g (Unwinding [b, a]) s)
      | _ \<Rightarrow> None)"
| "pool_fire html writes (Unwind g) s =
     (case pl_job s g of
        Unwinding (a # as) \<Rightarrow> Some (job_to g (Unwinding as) (put_buffer a s))
      | _ \<Rightarrow> None)"
| "pool_fire html writes (Drop i) s =
     (if i < length (pl_free s)
      then Some (s\<lparr>pl_free := take i (pl_free s) @ drop (Suc i) (pl_free s)\<rparr>) else None)"

inductive pool_runs :: "(nat \<Rightarrow> bool) \<Rightarrow> (nat \<Rightarrow> bytes list) \<Rightarrow> pool_event list \<Rightarrow> pool \<Rightarrow> bool"
  for html :: "nat \<Rightarrow> bool" and writes :: "nat \<Rightarrow> bytes list" where
  pool_nil: "pool_runs html writes [] new_pool"
| pool_snoc: "pool_runs html writes es s \<Longrightarrow> pool_fire html writes e s = Some s' \<Longrightarrow>
    pool_runs html writes (es @ [e]) s'"

fun pool_exec :: "(nat \<Rightarrow> bool) \<Rightarrow> (nat \<Rightarrow> bytes list) \<Rightarrow> pool_event list \<Rightarrow> pool \<Rightarrow> pool option" where
  "pool_exec html writes [] s = Some s"
| "pool_exec html writes (e # es) s =
     (case pool_fire html writes e s of None \<Rightarrow> None | Some s' \<Rightarrow> pool_exec html writes es s')"

lemma pool_exec_runs:
  "pool_exec html writes es s = Some t \<Longrightarrow> pool_runs html writes fs s \<Longrightarrow> pool_runs html writes (fs @ es) t"
proof (induction es arbitrary: s fs)
  case (Cons e es)
  then show ?case using pool_snoc by (fastforce split: option.splits)
qed simp

section \<open>Who holds a buffer\<close>

fun held :: "job \<Rightarrow> nat list" where
  "held (Buffering a cs) = [a]" | "held (Scanning a b) = [a, b]" | "held (Scanned a b) = [a, b]"
| "held (Emitted a b) = [a, b]" | "held (Leaving a) = [a]" | "held (Unwinding as) = rev as"
| "held j = []"

text \<open>Every buffer has one holder: the pool, or one request.\<close>

definition holds :: "pool \<Rightarrow> nat \<Rightarrow> nat set" where
  "holds s g = set (held (pl_job s g))"

definition owned :: "pool \<Rightarrow> bool" where
  "owned s \<longleftrightarrow>
     distinct (pl_free s) \<and> (\<forall>g. distinct (held (pl_job s g))) \<and>
     set (pl_free s) \<subseteq> {..<pl_next s} \<and> (\<forall>g. holds s g \<subseteq> {..<pl_next s}) \<and>
     (\<forall>g. holds s g \<inter> set (pl_free s) = {}) \<and> (\<forall>g h. g \<noteq> h \<longrightarrow> holds s g \<inter> holds s h = {})"

text \<open>What a request's buffers hold, and what it has sent.\<close>

definition contents :: "bool \<Rightarrow> bytes list \<Rightarrow> (nat \<Rightarrow> bytes) \<Rightarrow> job \<Rightarrow> bytes option \<Rightarrow> bool" where
  "contents is_html ws m j out \<longleftrightarrow>
     (case j of
        Waiting \<Rightarrow> out = None
      | Buffering a cs \<Rightarrow> m a @ concat cs = (if is_html then concat ws else []) \<and> out = None
      | Scanning a b \<Rightarrow> is_html \<and> m a = concat ws \<and> m b = [] \<and> out = None
      | Scanned a b \<Rightarrow> is_html \<and> m b = strip_html (concat ws) [] \<and> out = None
      | Emitted a b \<Rightarrow> is_html \<and> out = Some (strip_html (concat ws) [])
      | Leaving a \<Rightarrow> is_html \<and> out = Some (strip_html (concat ws) [])
      | Closed \<Rightarrow> out = (if is_html then Some (strip_html (concat ws) []) else None)
      | Unwinding as \<Rightarrow> out = None)"

lemma pool_fields [simp]:
  "pl_heap (job_to g j s) = pl_heap s" "pl_next (job_to g j s) = pl_next s"
  "pl_free (job_to g j s) = pl_free s" "pl_job (job_to g j s) = (pl_job s)(g := j)"
  "pl_out (job_to g j s) = pl_out s"
  "pl_heap (store a b s) = (pl_heap s)(a := b)" "pl_next (store a b s) = pl_next s"
  "pl_free (store a b s) = pl_free s" "pl_job (store a b s) = pl_job s" "pl_out (store a b s) = pl_out s"
  "pl_heap (put_buffer a s) = pl_heap s" "pl_next (put_buffer a s) = pl_next s"
  "pl_free (put_buffer a s) = a # pl_free s" "pl_job (put_buffer a s) = pl_job s"
  "pl_out (put_buffer a s) = pl_out s"
  by (simp_all add: job_to_def store_def put_buffer_def)

lemma drop_one:
  assumes "distinct xs" and "i < length xs"
  shows "distinct (take i xs @ drop (Suc i) xs)" and "set (take i xs @ drop (Suc i) xs) = set xs - {xs ! i}"
proof -
  have xs: "xs = take i xs @ xs ! i # drop (Suc i) xs" using assms(2) by (rule id_take_nth_drop)
  then have d: "distinct (take i xs @ xs ! i # drop (Suc i) xs)" using assms(1) by simp
  then show "distinct (take i xs @ drop (Suc i) xs)" by simp
  have "set xs = insert (xs ! i) (set (take i xs @ drop (Suc i) xs))" by (subst xs) auto
  then show "set (take i xs @ drop (Suc i) xs) = set xs - {xs ! i}" using d by auto
qed

lemma holds_to [simp]:
  "holds (job_to g j s) h = (if h = g then set (held j) else holds s h)"
  "holds (store a b s) h = holds s h" "holds (put_buffer a s) h = holds s h"
  by (simp_all add: holds_def)

text \<open>A buffer from \<open>Get\<close> is in no one else's hands.\<close>

lemma get_buffer_fresh:
  assumes "owned s" and "get_buffer i s = (a, s')"
  shows "owned s'" and "a < pl_next s'" and "a \<notin> set (pl_free s')" and "a \<notin> holds s' h"
    and "pl_job s' = pl_job s" and "pl_heap s' = pl_heap s" and "pl_out s' = pl_out s"
proof -
  have fields: "pl_job s' = pl_job s \<and> pl_heap s' = pl_heap s \<and> pl_out s' = pl_out s"
    using assms(2) by (auto simp: get_buffer_def split: if_splits)
  then show "pl_job s' = pl_job s" "pl_heap s' = pl_heap s" "pl_out s' = pl_out s" by simp_all
  have holds: "holds s' = holds s" using fields by (simp add: holds_def fun_eq_iff)
  have "owned s' \<and> a < pl_next s' \<and> a \<notin> set (pl_free s') \<and> a \<notin> holds s' h"
  proof (cases "i < length (pl_free s)")
    case True
    then have s': "pl_next s' = pl_next s" "distinct (pl_free s')" "set (pl_free s') = set (pl_free s) - {a}"
      and "a \<in> set (pl_free s)"
      using assms drop_one [of "pl_free s" i] by (auto simp: owned_def get_buffer_def)
    then show ?thesis using assms(1) by (auto simp: owned_def holds fields)
  next
    case False
    then have "a = pl_next s" "pl_next s' = Suc (pl_next s)" "pl_free s' = pl_free s"
      using assms(2) by (auto simp: get_buffer_def)
    then show ?thesis using assms(1) by (fastforce simp: owned_def holds fields)
  qed
  then show "owned s'" "a < pl_next s'" "a \<notin> set (pl_free s')" "a \<notin> holds s' h" by simp_all
qed

lemma owned_take:
  assumes "owned s" and "get_buffer i s = (a, s')" and "held j = held (pl_job s g) @ [a]"
  shows "owned (job_to g j (store a b s'))"
proof -
  note fresh = get_buffer_fresh [OF assms(1,2)]
  have "set (held j) = insert a (holds s' g)" and "distinct (held j)"
    using fresh assms(3) by (auto simp: holds_def owned_def)
  then show ?thesis using fresh(1-4) by (simp add: owned_def)
qed

lemma owned_keep:
  assumes "owned s" and "held j = held (pl_job s g)"
  shows "owned (job_to g j s)" and "owned (job_to g j (store a b s))"
    and "owned (job_to g j (s\<lparr>pl_out := os\<rparr>))"
  using assms by (auto simp: owned_def holds_def)

lemma owned_elim:
  assumes "owned s" and "a \<in> holds s g"
  shows "a < pl_next s" and "a \<notin> set (pl_free s)" and "h \<noteq> g \<Longrightarrow> a \<notin> holds s h"
  using assms unfolding owned_def by blast+

lemma owned_put:
  assumes "owned s" and "held (pl_job s g) = held j @ [a]"
  shows "owned (job_to g j (put_buffer a s))"
proof -
  have g: "holds s g = insert a (set (held j))" using assms(2) by (auto simp: holds_def)
  have "distinct (held (pl_job s g))" using assms(1) by (simp add: owned_def)
  then have "distinct (held j)" "a \<notin> set (held j)" using assms(2) by simp_all
  moreover have "a < pl_next s" "a \<notin> set (pl_free s)" "\<forall>h. h \<noteq> g \<longrightarrow> a \<notin> holds s h"
    using owned_elim [OF assms(1), of a g] g by simp_all
  moreover have "set (held j) \<subseteq> holds s g" using g by blast
  ultimately show ?thesis using assms(1) unfolding owned_def by simp blast
qed

lemma owned_step:
  assumes "pool_fire html writes e s = Some s'" and "owned s"
  shows "owned s'"
proof (cases e)
  case (Drop i)
  then show ?thesis using assms drop_one [of "pl_free s" i]
    by (fastforce simp: owned_def holds_def split: if_splits)
qed (use assms in \<open>auto split: if_splits job.splits list.splits prod.splits
      intro: owned_take owned_keep owned_put\<close>)

lemma contents_local:
  "(\<And>a. a \<in> set (held j) \<Longrightarrow> m' a = m a) \<Longrightarrow> contents h ws m j out \<Longrightarrow> contents h ws m' j out"
  by (cases j) (simp_all add: contents_def)

definition buffers_ok :: "(nat \<Rightarrow> bool) \<Rightarrow> (nat \<Rightarrow> bytes list) \<Rightarrow> pool \<Rightarrow> bool" where
  "buffers_ok html writes s \<longleftrightarrow>
     (\<forall>g. contents (html g) (writes g) (pl_heap s) (pl_job s g) (pl_out s g))"

text \<open>A request that writes to a buffer of its own leaves those of the others as they are.\<close>

lemma buffers_ok_store:
  assumes "owned s'" and "buffers_ok html writes s" and "a \<in> set (held j)"
    and "s' = job_to g j (store a b t)" and "pl_job t = pl_job s" "pl_heap t = pl_heap s" "pl_out t = pl_out s"
    and "contents (html g) (writes g) ((pl_heap s)(a := b)) j (pl_out s g)"
  shows "buffers_ok html writes s'"
  unfolding buffers_ok_def
proof
  fix h
  show "contents (html h) (writes h) (pl_heap s') (pl_job s' h) (pl_out s' h)"
  proof (cases "h = g")
    case False
    then have "a \<notin> holds s' h"
      using owned_elim(3) [OF assms(1), of a g h] assms(3,4) by simp
    then have "a \<notin> set (held (pl_job s h))" using False by (simp add: assms(4,5) holds_def)
    moreover have "contents (html h) (writes h) (pl_heap s) (pl_job s h) (pl_out s h)"
      using assms(2) by (simp add: buffers_ok_def)
    ultimately show ?thesis
      using False by (auto simp: assms(4-7) elim!: contents_local [rotated])
  qed (use assms(4-8) in simp)
qed

lemma buffers_ok_move:
  assumes "buffers_ok html writes s" and "pl_heap s' = pl_heap s" and "pl_job s' = (pl_job s)(g := j)"
    and "pl_out s' = (pl_out s)(g := out)" and "contents (html g) (writes g) (pl_heap s) j out"
  shows "buffers_ok html writes s'"
  using assms by (simp add: buffers_ok_def)

lemma buffers_ok_step:
  assumes fire: "pool_fire html writes e s = Some s'" and own: "owned s" and ok: "buffers_ok html writes s"
  shows "buffers_ok html writes s'"
proof -
  have own': "owned s'" using owned_step [OF fire own] .
  have c: "contents (html g) (writes g) (pl_heap s) (pl_job s g) (pl_out s g)" for g
    using ok by (simp add: buffers_ok_def)
  show ?thesis
  proof (cases e)
    case (GetBuf g i)
    obtain a t where get: "get_buffer i s = (a, t)" by fastforce
    with fire GetBuf have j: "pl_job s g = Waiting"
      and s': "s' = job_to g (Buffering a (if html g then writes g else [])) (store a [] t)"
      by (auto split: if_splits)
    show ?thesis
      using c [of g] j by (intro buffers_ok_store [OF own' ok _ s'] get_buffer_fresh [OF own get])
        (auto simp: contents_def)
  next
    case (WriteBuf g)
    with fire obtain a x cs where j: "pl_job s g = Buffering a (x # cs)"
      and s': "s' = job_to g (Buffering a cs) (store a (pl_heap s a @ x) s)"
      by (auto split: job.splits list.splits)
    show ?thesis
      using c [of g] j by (intro buffers_ok_store [OF own' ok _ s']) (auto simp: contents_def)
  next
    case (GetOut g i)
    obtain b t where get: "get_buffer i s = (b, t)" by fastforce
    with fire GetOut obtain a where j: "pl_job s g = Buffering a []" and h: "html g"
      and s': "s' = job_to g (Scanning a b) (store b [] t)"
      by (auto split: job.splits list.splits if_splits)
    have "b \<notin> holds t g" using get_buffer_fresh(4) [OF own get] .
    then have "a \<noteq> b" using j get_buffer_fresh(5) [OF own get] by (simp add: holds_def)
    then show ?thesis
      using c [of g] j h by (intro buffers_ok_store [OF own' ok _ s'] get_buffer_fresh [OF own get])
        (auto simp: contents_def)
  next
    case (Scan g)
    with fire obtain a b where j: "pl_job s g = Scanning a b"
      and s': "s' = job_to g (Scanned a b) (store b (strip_html (pl_heap s a) (pl_heap s b)) s)"
      by (auto split: job.splits)
    show ?thesis
      using c [of g] j by (intro buffers_ok_store [OF own' ok _ s']) (auto simp: contents_def)
  next
    case (Emit g)
    with fire obtain a b where j: "pl_job s g = Scanned a b"
      and s': "s' = job_to g (Emitted a b) (s\<lparr>pl_out := (pl_out s)(g := Some (pl_heap s b))\<rparr>)"
      by (auto split: job.splits)
    show ?thesis using c [of g] j by (intro buffers_ok_move [OF ok, of s' g]) (auto simp: s' contents_def)
  next
    case (PutOut g)
    with fire obtain a b where j: "pl_job s g = Emitted a b" and s': "s' = job_to g (Leaving a) (put_buffer b s)"
      by (auto split: job.splits)
    show ?thesis using c [of g] j
      by (intro buffers_ok_move [OF ok, of s' g _ "pl_out s g"]) (auto simp: s' contents_def)
  next
    case (PutBuf g)
    with fire obtain a where j: "pl_job s g = Leaving a \<or> pl_job s g = Buffering a [] \<and> \<not> html g"
      and s': "s' = job_to g Closed (put_buffer a s)"
      by (auto split: job.splits list.splits if_splits)
    show ?thesis using c [of g] j
      by (intro buffers_ok_move [OF ok, of s' g Closed "pl_out s g"]) (auto simp: s' contents_def)
  next
    case (Panic g)
    with fire obtain j where s': "s' = job_to g j s" and j: "\<exists>as. j = Unwinding as"
      and old: "(\<exists>a cs. pl_job s g = Buffering a cs) \<or> (\<exists>a b. pl_job s g = Scanned a b)"
      by (auto split: job.splits)
    show ?thesis using c [of g] j old
      by (intro buffers_ok_move [OF ok, of s' g j "pl_out s g"]) (auto simp: s' contents_def)
  next
    case (Unwind g)
    with fire obtain a as where j: "pl_job s g = Unwinding (a # as)"
      and s': "s' = job_to g (Unwinding as) (put_buffer a s)"
      by (auto split: job.splits list.splits)
    show ?thesis using c [of g] j
      by (intro buffers_ok_move [OF ok, of s' g _ "pl_out s g"]) (auto simp: s' contents_def)
  next
    case (Drop i)
    with fire ok show ?thesis by (auto simp: buffers_ok_def split: if_splits)
  qed
qed

lemma pool_ok: "pool_runs html writes es s \<Longrightarrow> owned s \<and> buffers_ok html writes s"
proof (induction rule: pool_runs.induct)
  case pool_nil
  then show ?case by (simp add: new_pool_def owned_def holds_def buffers_ok_def contents_def)
next
  case (pool_snoc es s e s')
  then show ?case by (blast intro: owned_step buffers_ok_step)
qed

section \<open>What the pool is to the middleware\<close>

text \<open>
  C27. The pool cannot be seen: whatever buffers \<open>Get\<close> returns, with whatever they held, and however the
  requests interleave and panic, what a request sends from its output buffer is the scanner's image of
  exactly its own writes, in order, and a request that panics sends nothing; and at no moment do two requests, or a request and the pool, have one buffer.
\<close>

theorem pool_invisible:
  assumes "pool_runs html writes es s"
  shows "(\<forall>g b. pl_out s g = Some b \<longrightarrow> html g \<and> b = strip_html (concat (writes g)) []) \<and>
    (\<forall>g. pl_job s g = Closed \<and> html g \<longrightarrow> pl_out s g \<noteq> None) \<and>
    (\<forall>g as. pl_job s g = Unwinding as \<longrightarrow> pl_out s g = None) \<and>
    (\<forall>g h. g \<noteq> h \<longrightarrow> holds s g \<inter> holds s h = {}) \<and> (\<forall>g. holds s g \<inter> set (pl_free s) = {})"
proof -
  have own: "owned s" and ok: "buffers_ok html writes s" using pool_ok [OF assms] by simp_all
  have "html g \<and> b = strip_html (concat (writes g)) []" if "pl_out s g = Some b" for g b
    using ok [unfolded buffers_ok_def, THEN spec, of g] that
    by (auto simp: contents_def split: job.splits if_splits)
  moreover have "pl_out s g = None" if "pl_job s g = Unwinding as" for g as
    using ok [unfolded buffers_ok_def, THEN spec, of g] that by (simp add: contents_def)
  moreover have "pl_out s g \<noteq> None" if "pl_job s g = Closed" "html g" for g
    using ok [unfolded buffers_ok_def, THEN spec, of g] that by (simp add: contents_def)
  ultimately show ?thesis using own unfolding owned_def by blast
qed

text \<open>Three requests one after the other on dirty buffers, the first of which panics, and a fourth beside them.\<close>

definition pool_demo :: "pool_event list" where
  "pool_demo =
     [GetBuf 3 0, WriteBuf 3, Panic 3, Unwind 3, GetBuf 0 0, WriteBuf 0, GetBuf 1 0, GetOut 0 0, Scan 0, Emit 0, PutOut 0, PutBuf 0,
      GetBuf 2 0, WriteBuf 2, WriteBuf 1, GetOut 2 0, Scan 2, Emit 2]"

theorem pool_invisible_witness:
  "\<exists>s. pool_runs (\<lambda>_. True) (\<lambda>g. [''<img src=a>'']) pool_demo s \<and>
     pl_out s 2 = Some (strip_html ''<img src=a>'' []) \<and> holds s 1 \<inter> holds s 2 = {}"
proof -
  obtain s where ex: "pool_exec (\<lambda>_. True) (\<lambda>g. [''<img src=a>'']) pool_demo new_pool = Some s"
    and out: "pl_out s 2 \<noteq> None"
    by (simp add: pool_demo_def new_pool_def get_buffer_def store_def put_buffer_def job_to_def)
  have run: "pool_runs (\<lambda>_. True) (\<lambda>g. [''<img src=a>'']) ([] @ pool_demo) s"
    using ex pool_nil by (rule pool_exec_runs)
  from pool_invisible [OF run] out run show ?thesis by (intro exI [of _ s]) auto
qed

end
