(* ===== verification/Strip_Cost.thy ===== *)
theory Strip_Cost
  imports Stripper
begin

text \<open>
  How long \<open>stripHTML\<close> works: the rounds of all its searches, which are the loop of \<open>indexFold\<close> and the
  calls of \<open>bytes.IndexByte\<close>.  They are what can look at a byte more than once; a round of \<open>indexFold\<close>
  compares at most as many bytes as its target has, at most ten.
\<close>

section \<open>Counting the rounds\<close>

text \<open>The values of \<open>i\<close> in \<open>indexFold\<close>, and the bytes \<open>IndexByte\<close> looks at: up to the match, or all of them.\<close>

definition index_rounds :: "bytes \<Rightarrow> bytes \<Rightarrow> nat" where
  "index_rounds b t = (case index_fold b t of Some i \<Rightarrow> Suc i | None \<Rightarrow> Suc (length b) - length t)"

definition byte_rounds :: "bytes \<Rightarrow> byte \<Rightarrow> nat" where
  "byte_rounds b c = (case index_byte b c of Some i \<Rightarrow> Suc i | None \<Rightarrow> length b)"

text \<open>The searches of one iteration of \<open>stripHTML\<close> behind its \<open><\<close>, in the order of the cases.\<close>

definition tag_rounds :: "bool \<Rightarrow> bytes \<Rightarrow> nat" where
  "tag_rounds bi rem =
     (if has_tag_prefix rem ''<script'' then index_rounds rem ''</script>'' else 0) +
     (if script_case rem = None \<and> has_tag_prefix rem ''<style'' then index_rounds rem ''</style>'' else 0) +
     (if script_case rem = None \<and> style_case rem = None \<and> has_tag_prefix rem ''<link''
      then byte_rounds rem (CHR ''>'') +
        (case index_byte rem (CHR ''>'') of
           Some e \<Rightarrow> index_rounds (take (e + 1) rem) ''stylesheet''
         | None \<Rightarrow> 0)
      else 0) +
     (if script_case rem = None \<and> style_case rem = None \<and> link_case rem = None \<and> has_tag_prefix rem ''<img''
      then byte_rounds rem (CHR ''>'') else 0) +
     (if script_case rem = None \<and> style_case rem = None \<and> link_case rem = None \<and> img_case rem = None \<and>
         \<not> bi \<and> has_tag_prefix rem ''<body''
      then byte_rounds rem (CHR ''>'') else 0)"

function loop_rounds :: "bool \<Rightarrow> bytes \<Rightarrow> nat" where
  "loop_rounds bodyInjected inp =
     (if inp = [] then 0
      else byte_rounds inp (CHR ''<'') +
        (case index_byte inp (CHR ''<'') of
           None \<Rightarrow> 0
         | Some start \<Rightarrow>
             (case tag_step bodyInjected (drop start inp) of
                (written, n, bodyInjected') \<Rightarrow>
                  tag_rounds bodyInjected (drop start inp) +
                  loop_rounds bodyInjected' (drop (start + n) inp))))"
  by pat_completeness auto
termination
proof (relation "measure (\<lambda>(bi, inp). length inp)", goal_cases)
  case 1
  then show ?case by simp
next
  case (2 bi inp start r w r' n)
  then show ?case by (cases inp) (auto dest: tag_step_advances [OF sym])
qed

declare loop_rounds.simps [simp del]

section \<open>At most quadratic\<close>

lemma index_rounds_le: "t \<noteq> [] \<Longrightarrow> index_rounds b t \<le> length b"
  by (cases t) (auto simp: index_rounds_def dest: index_fold_bound split: option.split)

lemma byte_rounds_le: "byte_rounds b c \<le> length b"
  by (auto simp: byte_rounds_def Suc_le_eq dest: index_byte_less split: option.split)

text \<open>A position starts at most one of the five tags, and the search for it goes over the rest at most twice.\<close>

lemma has_tag_prefix_start: "has_tag_prefix b p \<Longrightarrow> map lower_byte (take (length p) b) = p"
  by (simp add: has_tag_prefix_iff)

lemma one_tag:
  assumes "has_tag_prefix b p" and "3 \<le> length p" "3 \<le> length q" and "take 3 p \<noteq> take 3 q"
  shows "\<not> has_tag_prefix b q"
proof
  assume "has_tag_prefix b q"
  moreover have "take 3 r = map lower_byte (take 3 b)" if "has_tag_prefix b r" "3 \<le> length r" for r
    using has_tag_prefix_start [OF that(1)] that(2) by (metis take_map take_take min.absorb1)
  ultimately show False using assms by metis
qed

lemma tag_rounds_le: "tag_rounds bi rem \<le> 2 * length rem"
proof -
  have index: "index_rounds (take k rem) t \<le> length rem" "index_rounds rem t \<le> length rem" if "t \<noteq> []" for t k
    using index_rounds_le [OF that, of rem] index_rounds_le [OF that, of "take k rem"] by simp_all
  have byte: "byte_rounds rem (CHR ''>'') \<le> length rem" by (rule byte_rounds_le)
  have link: "(case index_byte rem (CHR ''>'') of Some e \<Rightarrow> index_rounds (take (e + 1) rem) ''stylesheet'' | None \<Rightarrow> 0)
      \<le> length rem" using index(1) [of "''stylesheet''"] by (simp split: option.split)
  consider "has_tag_prefix rem ''<script''" | "has_tag_prefix rem ''<style''" | "has_tag_prefix rem ''<link''"
    | "has_tag_prefix rem ''<img''" | "has_tag_prefix rem ''<body''"
    | "\<forall>p \<in> {''<script'', ''<style'', ''<link'', ''<img'', ''<body''}. \<not> has_tag_prefix rem p" by blast
  then show ?thesis
  proof cases
    case 1
    have "\<not> has_tag_prefix rem ''<style''" "\<not> has_tag_prefix rem ''<link''"
      "\<not> has_tag_prefix rem ''<img''" "\<not> has_tag_prefix rem ''<body''" by (intro one_tag [OF 1]; simp)+
    with 1 index(2) [of "''</script>''"] show ?thesis by (simp add: tag_rounds_def)
  next
    case 2
    have "\<not> has_tag_prefix rem ''<script''" "\<not> has_tag_prefix rem ''<link''"
      "\<not> has_tag_prefix rem ''<img''" "\<not> has_tag_prefix rem ''<body''" by (intro one_tag [OF 2]; simp)+
    with 2 index(2) [of "''</style>''"] show ?thesis by (simp add: tag_rounds_def)
  next
    case 3
    have "\<not> has_tag_prefix rem ''<script''" "\<not> has_tag_prefix rem ''<style''"
      "\<not> has_tag_prefix rem ''<img''" "\<not> has_tag_prefix rem ''<body''" by (intro one_tag [OF 3]; simp)+
    with 3 byte link show ?thesis by (simp add: tag_rounds_def)
  next
    case 4
    have "\<not> has_tag_prefix rem ''<script''" "\<not> has_tag_prefix rem ''<style''"
      "\<not> has_tag_prefix rem ''<link''" "\<not> has_tag_prefix rem ''<body''" by (intro one_tag [OF 4]; simp)+
    with 4 byte show ?thesis by (simp add: tag_rounds_def)
  next
    case 5
    have "\<not> has_tag_prefix rem ''<script''" "\<not> has_tag_prefix rem ''<style''"
      "\<not> has_tag_prefix rem ''<link''" "\<not> has_tag_prefix rem ''<img''" by (intro one_tag [OF 5]; simp)+
    with 5 byte show ?thesis by (simp add: tag_rounds_def)
  qed (simp add: tag_rounds_def)
qed

lemma loop_rounds_le: "loop_rounds bi inp \<le> length inp * (length inp + 2)"
proof (induction bi inp rule: loop_rounds.induct)
  case (1 bi inp)
  show ?case
  proof (cases "index_byte inp (CHR ''<'')")
    case None
    then show ?thesis by (subst loop_rounds.simps) (simp add: byte_rounds_def)
  next
    case (Some start)
    let ?rem = "drop start inp"
    obtain w n bi' where s: "tag_step bi ?rem = (w, n, bi')" by (cases "tag_step bi ?rem")
    then have "0 < n" by (rule tag_step_advances)
    show ?thesis
    proof (cases "inp = []")
      case False
      let ?m = "length inp" and ?r = "length (drop (start + n) inp)"
      have "loop_rounds bi inp = Suc start + tag_rounds bi ?rem + loop_rounds bi' (drop (start + n) inp)"
        using False Some s by (subst loop_rounds.simps) (simp add: byte_rounds_def)
      moreover have "loop_rounds bi' (drop (start + n) inp) \<le> ?r * (?r + 2)"
        using 1 [OF False Some s [symmetric] refl] by simp
      moreover have "tag_rounds bi ?rem \<le> 2 * (?m - start)" using tag_rounds_le [of bi ?rem] by simp
      moreover have "start < ?m" using Some by (rule index_byte_less)
      moreover have "?r + 1 \<le> ?m" using False \<open>0 < n\<close> by (cases inp) simp_all
      then have "?r * (?r + 2) + (2 * ?m + 1) \<le> ?m * (?m + 2)"
        using mult_le_mono [of ?r "?m - 1" "?r + 2" "?m + 1"] by (cases ?m) simp_all
      ultimately show ?thesis by linarith
    qed (simp add: loop_rounds.simps)
  qed
qed

section \<open>And no better\<close>

text \<open>A page of one tag that is opened over and over and never closed.\<close>

definition open_tags :: "bytes \<Rightarrow> nat \<Rightarrow> bytes" where
  "open_tags t n = concat (replicate n t)"

lemma open_tags_Suc: "open_tags t (Suc n) = t @ open_tags t n"
  by (simp add: open_tags_def)

lemma open_tags_length: "length (open_tags t n) = n * length t"
  by (induction n) (simp_all add: open_tags_def)

lemma open_tags_bytes: "set (open_tags t n) \<subseteq> set t"
  by (auto simp: open_tags_def)

lemma unclosed_tag: "CHR ''>'' \<notin> set t \<Longrightarrow> index_byte (open_tags t n) (CHR ''>'') = None"
  using open_tags_bytes [of t n] by (auto simp: index_byte_None)

lemma unclosed_script: "index_fold (open_tags ''<script '' n) ''</script>'' = None"
proof -
  let ?s = "open_tags ''<script '' n"
  have "\<not> fold_at ?s ''</script>'' i" for i
  proof
    assume f: "fold_at ?s ''</script>'' i"
    then have "map lower_byte (take (length ''</script>'') (drop i ?s)) = ''</script>''"
      by (simp only: fold_at_def)
    then have "CHR ''/'' \<in> set (map lower_byte (take (length ''</script>'') (drop i ?s)))"
      by (simp only:) simp
    then have "CHR ''/'' \<in> lower_byte ` set ''<script ''"
      using open_tags_bytes [of "''<script ''" n] by (auto dest!: in_set_takeD in_set_dropD)
    then show False by (simp add: lower_byte_def)
  qed
  then show ?thesis by (simp add: index_fold_None_iff)
qed

lemma loop_rounds_skip:
  assumes "CHR ''<'' \<notin> set u"
  shows "loop_rounds bi (u @ s) = length u + loop_rounds bi s"
proof -
  have find: "index_byte (u @ s) (CHR ''<'') = map_option ((+) (length u)) (index_byte s (CHR ''<''))"
    using assms by (induction u; cases "index_byte s (CHR ''<'')") auto
  show ?thesis
  proof (cases "s = []")
    case True
    then show ?thesis using find
      by (simp add: loop_rounds.simps [of bi u] loop_rounds.simps [of bi "[]"] byte_rounds_def)
  next
    case False
    then show ?thesis
      by (simp add: loop_rounds.simps [of bi "u @ s"] loop_rounds.simps [of bi s] find byte_rounds_def
          split: option.split)
  qed
qed

text \<open>One opening: its \<open><\<close> is found at once, the searches for its end fail, and the scan goes on behind the \<open><\<close>.\<close>

lemma open_tag_rounds:
  assumes "CHR ''<'' \<notin> set u" and s: "s = open_tags (CHR ''<'' # u) (Suc n)"
    and step: "tag_step bi s = (''<'', 1, bi)"
  shows "loop_rounds bi s = Suc (length u) + tag_rounds bi s + loop_rounds bi (open_tags (CHR ''<'' # u) n)"
proof -
  have head: "s = CHR ''<'' # u @ open_tags (CHR ''<'' # u) n" by (simp add: s open_tags_Suc)
  then have "loop_rounds bi s = 1 + (tag_rounds bi s + loop_rounds bi (drop 1 s))"
    using step by (subst loop_rounds.simps) (simp add: byte_rounds_def)
  also have "drop 1 s = u @ open_tags (CHR ''<'' # u) n" by (simp add: head)
  finally show ?thesis using loop_rounds_skip [OF assms(1)] by simp
qed

lemma open_scripts_rounds: "loop_rounds bi (open_tags ''<script '' n) = 4 * n * (n + 1)"
proof (induction n)
  case 0
  then show ?case by (simp add: open_tags_def loop_rounds.simps)
next
  case (Suc n)
  define s where "s = open_tags ''<script '' (Suc n)"
  have script: "has_tag_prefix s ''<script''" and others: "\<not> has_tag_prefix s ''<style''"
    "\<not> has_tag_prefix s ''<link''" "\<not> has_tag_prefix s ''<img''" "\<not> has_tag_prefix s ''<body''"
    by (simp_all add: s_def open_tags_Suc has_tag_prefix_def tag_boundary_def lower_byte_def)
  have none: "index_fold s ''</script>'' = None" unfolding s_def by (rule unclosed_script)
  have "tag_step bi s = (''<'', 1, bi)"
    using others none
    by (simp add: tag_step_def script_case_def style_case_def link_case_def img_case_def body_case_def)
  moreover have "tag_rounds bi s = 8 * n"
    using script others none open_tags_length [of "''<script ''" "Suc n"]
    by (simp add: tag_rounds_def index_rounds_def flip: s_def)
  ultimately show ?case using open_tag_rounds [of "''script ''" s n bi] Suc.IH s_def by (simp add: algebra_simps)
qed

lemma open_images_rounds: "2 * loop_rounds bi (open_tags ''<img '' n) = 5 * n * (n + 3)"
proof (induction n)
  case 0
  then show ?case by (simp add: open_tags_def loop_rounds.simps)
next
  case (Suc n)
  define s where "s = open_tags ''<img '' (Suc n)"
  have img: "has_tag_prefix s ''<img''" and others: "\<not> has_tag_prefix s ''<script''"
    "\<not> has_tag_prefix s ''<style''" "\<not> has_tag_prefix s ''<link''" "\<not> has_tag_prefix s ''<body''"
    by (simp_all add: s_def open_tags_Suc has_tag_prefix_def tag_boundary_def lower_byte_def)
  have none: "index_byte s (CHR ''>'') = None" unfolding s_def by (rule unclosed_tag) simp
  have cases: "script_case s = None" "style_case s = None" "link_case s = None"
    using others by (simp_all add: script_case_def style_case_def link_case_def)
  then have "tag_step bi s = (''<'', 1, bi)"
    using others none by (simp add: tag_step_def img_case_def body_case_def)
  moreover have "tag_rounds bi s = 5 * Suc n"
    using img others none cases open_tags_length [of "''<img ''" "Suc n"]
    by (simp add: tag_rounds_def byte_rounds_def flip: s_def)
  ultimately show ?case using open_tag_rounds [of "''img ''" s n bi] Suc.IH s_def by (simp add: algebra_simps)
qed

text \<open>
  C35. The scanner is quadratic.  The rounds of all its searches, those for the next \<open><\<close> and for the end of
  a tag included, are at most \<open>n (n + 2)\<close> on a document of \<open>n\<close> bytes; on \<open>n\<close> scripts that are opened
  and never closed (\<open>8 n\<close> bytes) they are exactly \<open>4 n (n + 1)\<close>, and on \<open>n\<close> such images (\<open>5 n\<close> bytes)
  exactly \<open>5 n (n + 3) / 2\<close>.
\<close>

theorem strip_html_quadratic:
  "loop_rounds False inp \<le> length inp * (length inp + 2) \<and>
   length (open_tags ''<script '' n) = n * 8 \<and> loop_rounds False (open_tags ''<script '' n) = 4 * n * (n + 1) \<and>
   length (open_tags ''<img '' n) = n * 5 \<and> 2 * loop_rounds False (open_tags ''<img '' n) = 5 * n * (n + 3)"
  using loop_rounds_le open_scripts_rounds open_images_rounds by (simp add: open_tags_length)

end
