(* ===== verification/Go_Net.thy ===== *)
theory Go_Net
  imports Ps_Prelude
begin

text \<open>
  What the proxy uses of \<open>net\<close>, \<open>net/url\<close> and \<open>encoding/json\<close> (as of Go 1.21, the version of
  \<open>go.mod\<close>): splitting an address, the path of a URL as it goes over the wire, and the encoding of
  a string in JSON.
\<close>

section \<open>Addresses\<close>

definition last_index :: "bytes \<Rightarrow> byte \<Rightarrow> nat option" where
  "last_index s c = map_option (\<lambda>i. length s - Suc i) (index_byte (rev s) c)"

text \<open>\<open>net.SplitHostPort\<close>; \<open>None\<close> stands for any of its errors.\<close>

definition SplitHostPort :: "bytes \<Rightarrow> (bytes \<times> bytes) option" where
  "SplitHostPort s =
     (case last_index s CHR '':'' of
        None \<Rightarrow> None
      | Some i \<Rightarrow>
          if hd s = CHR ''[''
          then (case index_byte s CHR '']'' of
                  None \<Rightarrow> None
                | Some e \<Rightarrow>
                    if Suc e \<noteq> i then None
                    else if CHR ''['' \<in> set (drop 1 s) \<or> CHR '']'' \<in> set (drop (Suc e) s) then None
                    else Some (take (e - 1) (drop 1 s), drop (Suc i) s))
          else if CHR '':'' \<in> set (take i s) then None
          else if CHR ''['' \<in> set s \<or> CHR '']'' \<in> set s then None
          else Some (take i s, drop (Suc i) s))"

definition JoinHostPort :: "bytes \<Rightarrow> bytes \<Rightarrow> bytes" where
  "JoinHostPort host port =
     (if CHR '':'' \<in> set host then ''['' @ host @ '']:'' @ port else host @ '':'' @ port)"

lemma last_index_split: "c \<notin> set t \<Longrightarrow> last_index (s @ c # t) c = Some (length s)"
proof -
  assume t: "c \<notin> set t"
  then have "index_byte (rev t @ c # rev s) c = Some (length t)"
    by (simp add: index_byte_Some nth_append)
  then show ?thesis by (simp add: last_index_def)
qed

lemma split_join:
  assumes host: "CHR ''['' \<notin> set host" "CHR '']'' \<notin> set host"
    and port: "CHR '':'' \<notin> set port" "CHR ''['' \<notin> set port" "CHR '']'' \<notin> set port"
  shows "SplitHostPort (JoinHostPort host port) = Some (host, port)"
proof (cases "CHR '':'' \<in> set host")
  case True
  let ?s = "CHR ''['' # host @ CHR '']'' # CHR '':'' # port"
  have "last_index ((CHR ''['' # host @ [CHR '']'']) @ CHR '':'' # port) CHR '':'' = Some (length host + 2)"
    using last_index_split [OF port(1), of "CHR ''['' # host @ [CHR '']'']"] by simp
  moreover have "index_byte ?s CHR '']'' = Some (Suc (length host))"
    using host by (simp add: index_byte_Some nth_append)
  ultimately show ?thesis
    using True host port by (simp add: SplitHostPort_def JoinHostPort_def)
next
  case False
  have "last_index (host @ CHR '':'' # port) CHR '':'' = Some (length host)"
    using port(1) by (rule last_index_split)
  moreover have "hd (host @ CHR '':'' # port) \<noteq> CHR ''[''"
    using host(1) by (cases host) auto
  ultimately show ?thesis
    using False host port by (simp add: SplitHostPort_def JoinHostPort_def)
qed

section \<open>The path of a URL\<close>

definition hex_digit :: "nat \<Rightarrow> byte" where
  "hex_digit n = (if n < 10 then char_of (48 + n) else char_of (55 + n))"

text \<open>\<open>shouldEscape(c, encodePath)\<close>, negated: the bytes a path carries as they are.\<close>

definition path_byte :: "byte \<Rightarrow> bool" where
  "path_byte c \<longleftrightarrow>
     (let n = (of_char c :: nat)
      in (48 \<le> n \<and> n \<le> 57) \<or> (65 \<le> n \<and> n \<le> 90) \<or> (97 \<le> n \<and> n \<le> 122) \<or>
         c \<in> set ''-_.~$&+,/:;=@'')"

definition escape_byte :: "byte \<Rightarrow> bytes" where
  "escape_byte c =
     (if path_byte c then [c]
      else [CHR ''%'', hex_digit (of_char c div 16), hex_digit (of_char c mod 16)])"

definition escape_path :: "bytes \<Rightarrow> bytes" where
  "escape_path p = concat (map escape_byte p)"

text \<open>The decoding a receiver applies (\<open>unescape\<close>); \<open>None\<close> for a bad escape.\<close>

definition unhex :: "byte \<Rightarrow> nat option" where
  "unhex c =
     (let n = (of_char c :: nat)
      in if 48 \<le> n \<and> n \<le> 57 then Some (n - 48)
         else if 65 \<le> n \<and> n \<le> 70 then Some (n - 55)
         else if 97 \<le> n \<and> n \<le> 102 then Some (n - 87) else None)"

fun unescape_path :: "bytes \<Rightarrow> bytes option" where
  "unescape_path [] = Some []"
| "unescape_path (c # s) =
     (if c = CHR ''%''
      then (case s of
              a # b # t \<Rightarrow>
                (case (unhex a, unhex b) of
                   (Some x, Some y) \<Rightarrow> map_option ((#) (char_of (16 * x + y))) (unescape_path t)
                 | _ \<Rightarrow> None)
            | _ \<Rightarrow> None)
      else map_option ((#) c) (unescape_path s))"

lemma unhex_digit: "n < 16 \<Longrightarrow> unhex (hex_digit n) = Some n"
  by (auto simp: hex_digit_def unhex_def Let_def of_char_of)

lemma not_percent: "path_byte c \<Longrightarrow> c \<noteq> CHR ''%''"
  by (auto simp: path_byte_def)

lemma unescape_byte: "unescape_path (escape_byte c @ s) = map_option ((#) c) (unescape_path s)"
proof (cases "path_byte c")
  case True
  then show ?thesis by (simp add: escape_byte_def not_percent)
next
  case False
  have "(of_char c :: nat) div 16 < 16"
    by (rule less_mult_imp_div_less) (simp add: of_char_bound)
  then show ?thesis using False by (simp add: escape_byte_def unhex_digit)
qed

lemma unescape_escape: "unescape_path (escape_path p) = Some p"
  by (induction p) (simp_all add: escape_path_def unescape_byte)

text \<open>
  The path and query of the request line that \<open>URL.String\<close>, parsed again by \<open>NewRequest\<close>, leads to:
  the path is escaped afresh, a leading slash is supplied, and a \<open>#\<close> ends the query.
\<close>

definition wire_path :: "bytes \<Rightarrow> bytes" where
  "wire_path p =
     (if p = ''*'' then ''/*''
      else (let e = escape_path p in if e = [] \<or> hd e \<noteq> CHR ''/'' then CHR ''/'' # e else e))"

definition wire_target :: "bytes \<Rightarrow> bytes \<Rightarrow> bytes" where
  "wire_target p query =
     wire_path p @ (if query = [] then [] else CHR ''?'' # takeWhile (\<lambda>c. c \<noteq> CHR ''#'') query)"

text \<open>Escaping adds only percents and hexadecimal digits, so a byte it leaves alone, or \<open>?\<close>, is the path's own.\<close>

lemma escape_set:
  assumes "c \<noteq> CHR ''%''" and "\<not> (48 \<le> (of_char c :: nat) \<and> (of_char c :: nat) \<le> 57)"
    and "\<not> (65 \<le> (of_char c :: nat) \<and> (of_char c :: nat) \<le> 70)"
  shows "c \<in> set (escape_path p) \<longleftrightarrow> c \<in> set p \<and> path_byte c"
proof -
  have hex: "hex_digit n \<noteq> c" if "n < 16" for n
  proof
    assume "hex_digit n = c"
    with that have "(of_char c :: nat) = (if n < 10 then 48 + n else 55 + n)"
      by (auto simp: hex_digit_def of_char_of)
    with assms(2,3) that show False by (auto split: if_splits)
  qed
  have "c \<in> set (escape_byte b) \<longleftrightarrow> c = b \<and> path_byte b" for b
    using hex [of "of_char b div 16"] hex [of "of_char b mod 16"] assms(1)
    by (auto simp: escape_byte_def less_mult_imp_div_less)
  then show ?thesis by (auto simp: escape_path_def)
qed

text \<open>The path the receiver decodes is the one the sender had, with a slash supplied in front if missing.\<close>

lemma escape_hd: "p \<noteq> [] \<Longrightarrow> hd (escape_path p) = CHR ''/'' \<longleftrightarrow> hd p = CHR ''/''"
  by (cases p) (auto simp: escape_path_def escape_byte_def path_byte_def)

lemma escape_Nil [simp]: "escape_path p = [] \<longleftrightarrow> p = []"
  by (cases p) (auto simp: escape_path_def escape_byte_def)

lemma unescape_wire:
  "unescape_path (wire_path p) = Some (if p \<noteq> [] \<and> hd p = CHR ''/'' then p else CHR ''/'' # p)"
proof (cases "p = ''*''")
  case False
  then show ?thesis
    by (auto simp: wire_path_def Let_def unescape_escape escape_hd)
qed (simp add: wire_path_def)

section \<open>Strings in JSON\<close>

text \<open>The length of the valid UTF-8 sequence a string starts with, \<open>None\<close> if it starts with none.\<close>

definition cont_byte :: "byte \<Rightarrow> bool" where
  "cont_byte c \<longleftrightarrow> 128 \<le> (of_char c :: nat) \<and> (of_char c :: nat) \<le> 191"

definition utf8_len :: "bytes \<Rightarrow> nat option" where
  "utf8_len s =
     (case s of
        [] \<Rightarrow> None
      | c # t \<Rightarrow>
          let n = (of_char c :: nat);
              ok = (\<lambda>lo hi. t \<noteq> [] \<and> lo \<le> (of_char (hd t) :: nat) \<and> (of_char (hd t) :: nat) \<le> hi);
              more = (\<lambda>k. k < length t \<and> list_all cont_byte (take k (tl t)))
          in if n < 128 then Some 1
             else if 194 \<le> n \<and> n \<le> 223 \<and> ok 128 191 then Some 2
             else if n = 224 \<and> ok 160 191 \<and> more 1 then Some 3
             else if n = 237 \<and> ok 128 159 \<and> more 1 then Some 3
             else if 225 \<le> n \<and> n \<le> 239 \<and> n \<noteq> 237 \<and> ok 128 191 \<and> more 1 then Some 3
             else if n = 240 \<and> ok 144 191 \<and> more 2 then Some 4
             else if 241 \<le> n \<and> n \<le> 243 \<and> ok 128 191 \<and> more 2 then Some 4
             else if n = 244 \<and> ok 128 143 \<and> more 2 then Some 4
             else None)"

definition lower_hex :: "nat \<Rightarrow> byte" where
  "lower_hex n = (if n < 10 then char_of (48 + n) else char_of (87 + n))"

text \<open>\<open>json.Marshal\<close> of one ASCII byte of a string: HTML characters and controls are escaped.\<close>

definition json_ascii :: "byte \<Rightarrow> bytes" where
  "json_ascii c =
     (let n = (of_char c :: nat)
      in if n = 92 \<or> n = 34 then [CHR 0x5C, c]
         else if n = 10 then [CHR 0x5C, CHR ''n''] else if n = 13 then [CHR 0x5C, CHR ''r'']
         else if n = 9 then [CHR 0x5C, CHR ''t'']
         else if n < 32 \<or> n = 60 \<or> n = 62 \<or> n = 38
         then [CHR 0x5C, CHR ''u'', CHR ''0'', CHR ''0'', lower_hex (n div 16), lower_hex (n mod 16)]
         else [c])"

text \<open>The line and paragraph separators U+2028 and U+2029 are escaped too, invalid bytes replaced.\<close>

function json_chars :: "bytes \<Rightarrow> bytes" where
  "json_chars s =
     (case s of
        [] \<Rightarrow> []
      | c # t \<Rightarrow>
          if (of_char c :: nat) < 128 then json_ascii c @ json_chars t
          else (case utf8_len s of
                  None \<Rightarrow> [CHR 0x5C] @ ''ufffd'' @ json_chars t
                | Some k \<Rightarrow>
                    (if map of_char (take k s) = [0xE2, 0x80, 0xA8 :: nat] then [CHR 0x5C] @ ''u2028''
                     else if map of_char (take k s) = [0xE2, 0x80, 0xA9 :: nat] then [CHR 0x5C] @ ''u2029''
                     else take k s) @ json_chars (drop (max 1 k) s)))"
  by pat_completeness auto
termination by (relation "measure length") (auto simp: max_def)

declare json_chars.simps [simp del]

definition json_string :: "bytes \<Rightarrow> bytes" where
  "json_string s = CHR 0x22 # json_chars s @ [CHR 0x22]"

lemma json_chars_Nil [simp]: "json_chars [] = []"
  by (subst json_chars.simps) simp

lemma json_chars_ascii:
  "(of_char c :: nat) < 128 \<Longrightarrow> json_chars (c # t) = json_ascii c @ json_chars t"
  by (subst json_chars.simps) simp

text \<open>What \<open>Marshal\<close> writes between the quotes: no control character, no \<open><\<close>, \<open>>\<close> or \<open>&\<close>.\<close>

definition json_safe :: "byte \<Rightarrow> bool" where
  "json_safe c \<longleftrightarrow>
     (let n = (of_char c :: nat) in 32 \<le> n \<and> n \<noteq> 60 \<and> n \<noteq> 62 \<and> n \<noteq> 38)"

lemma lower_hex_safe: "n < 16 \<Longrightarrow> json_safe (lower_hex n)"
  by (auto simp: json_safe_def lower_hex_def Let_def of_char_of)

lemma json_ascii_safe: "list_all json_safe (json_ascii c)"
proof -
  have "(of_char c :: nat) div 16 < 16"
    by (rule less_mult_imp_div_less) (simp add: of_char_bound)
  then show ?thesis
    by (auto simp: json_ascii_def Let_def lower_hex_safe) (auto simp: json_safe_def Let_def)
qed

lemma utf8_high_bytes:
  assumes "utf8_len (c # t) = Some k" and "128 \<le> (of_char c :: nat)"
  shows "list_all (\<lambda>b. 128 \<le> (of_char b :: nat)) (take k (c # t))"
proof -
  let ?high = "\<lambda>b. 128 \<le> (of_char b :: nat)"
  have cont: "cont_byte b \<Longrightarrow> ?high b" for b by (simp add: cont_byte_def)
  have two: "list_all ?high (take 1 t)"
    if "t \<noteq> []" "lo \<le> (of_char (hd t) :: nat)" "128 \<le> lo" for lo :: nat
    using that by (cases t) auto
  have more: "list_all ?high (take (Suc k) t)"
    if "t \<noteq> []" "lo \<le> (of_char (hd t) :: nat)" "128 \<le> lo" "list_all cont_byte (take k (tl t))" for lo k :: nat
    using that by (cases t) (auto intro: cont list.pred_mono_strong)
  show ?thesis
    using assms two more [of _ 1] more [of _ 2]
    by (auto simp: utf8_len_def Let_def numeral_2_eq_2 numeral_3_eq_3 numeral_eq_Suc split: if_splits)
qed

lemma utf8_high:
  assumes "utf8_len (c # t) = Some k" and "128 \<le> (of_char c :: nat)"
  shows "list_all json_safe (take k (c # t))"
  using utf8_high_bytes [OF assms] by (rule list.pred_mono_strong) (simp add: json_safe_def Let_def)

lemma json_chars_safe: "list_all json_safe (json_chars s)"
proof (induction s rule: json_chars.induct)
  case (1 s)
  have esc: "list_all json_safe ([CHR 0x5C] @ ''ufffd'')" "list_all json_safe ([CHR 0x5C] @ ''u2028'')"
    "list_all json_safe ([CHR 0x5C] @ ''u2029'')" by (simp_all add: json_safe_def Let_def)
  show ?case
  proof (cases s)
    case (Cons c t)
    show ?thesis
    proof (cases "(of_char c :: nat) < 128")
      case True
      then show ?thesis using 1(1) [OF Cons True] Cons by (simp add: json_chars_ascii json_ascii_safe)
    next
      case False
      show ?thesis
      proof (cases "utf8_len s")
        case None
        then have "json_chars s = [CHR 0x5C] @ ''ufffd'' @ json_chars t"
          using Cons False by (subst json_chars.simps) simp
        then show ?thesis using 1(2) [OF Cons False None] esc(1) by simp
      next
        case (Some k)
        have "list_all json_safe (take k s)" using utf8_high [of c t k] Some False Cons by simp
        moreover have "list_all json_safe (json_chars (drop (max 1 k) s))"
          using 1(3) [OF Cons False Some] .
        moreover have "json_chars s =
            (if map of_char (take k s) = [0xE2, 0x80, 0xA8 :: nat] then [CHR 0x5C] @ ''u2028''
             else if map of_char (take k s) = [0xE2, 0x80, 0xA9 :: nat] then [CHR 0x5C] @ ''u2029''
             else take k s) @ json_chars (drop (max 1 k) s)"
          using Cons False Some by (subst json_chars.simps) simp
        ultimately show ?thesis using esc(2,3) by (simp split del: if_split split: if_split)
      qed
    qed
  qed simp
qed

end
