(* ===== verification/Go_Url.thy ===== *)
theory Go_Url
  imports Go_Net
begin

text \<open>
  \<open>url.Parse\<close> as far as the proxy reads its result: the scheme, the host and the path of the target,
  and whether parsing fails.  \<open>None\<close> stands for any of the parser's errors; the user information and
  the query are checked as the parser checks them and then dropped, as nothing reads them.
\<close>

record url =
  u_scheme :: bytes
  u_host :: bytes
  u_path :: bytes

section \<open>Cutting\<close>

definition before :: "byte \<Rightarrow> bytes \<Rightarrow> bytes" where
  "before c s = takeWhile (\<lambda>b. b \<noteq> c) s"

definition after :: "byte \<Rightarrow> bytes \<Rightarrow> bytes" where
  "after c s = drop 1 (dropWhile (\<lambda>b. b \<noteq> c) s)"

fun index_sub :: "bytes \<Rightarrow> bytes \<Rightarrow> nat option" where
  "index_sub [] t = (if t = [] then Some 0 else None)"
| "index_sub (b # bs) t =
     (if take (length t) (b # bs) = t then Some 0 else map_option Suc (index_sub bs t))"

lemma before_absent [simp]: "c \<notin> set s \<Longrightarrow> before c s = s"
  by (auto simp: before_def takeWhile_eq_all_conv)

lemma after_absent [simp]: "c \<notin> set s \<Longrightarrow> after c s = []"
proof -
  assume "c \<notin> set s"
  then have "dropWhile (\<lambda>b. b \<noteq> c) s = []" by (auto simp: dropWhile_eq_Nil_conv)
  then show ?thesis unfolding after_def by (simp only: drop_Nil)
qed

lemma after_append: "c \<notin> set s \<Longrightarrow> after c (s @ c # t) = t"
  by (induction s) (auto simp: after_def)

section \<open>The scheme\<close>

definition letter :: "byte \<Rightarrow> bool" where
  "letter c \<longleftrightarrow>
     (let n = (of_char c :: nat) in (65 \<le> n \<and> n \<le> 90) \<or> (97 \<le> n \<and> n \<le> 122))"

text \<open>\<open>getScheme\<close>: \<open>raw\<close> is the whole string, \<open>acc\<close> what the loop has passed.\<close>

fun scheme_loop :: "bytes \<Rightarrow> bytes \<Rightarrow> bytes \<Rightarrow> (bytes \<times> bytes) option" where
  "scheme_loop raw acc [] = Some ([], raw)"
| "scheme_loop raw acc (c # cs) =
     (if letter c then scheme_loop raw (acc @ [c]) cs
      else if is_digit c \<or> c \<in> set ''+-.''
      then (if acc = [] then Some ([], raw) else scheme_loop raw (acc @ [c]) cs)
      else if c = CHR '':'' then (if acc = [] then None else Some (acc, cs))
      else Some ([], raw))"

definition get_scheme :: "bytes \<Rightarrow> (bytes \<times> bytes) option" where
  "get_scheme raw = scheme_loop raw [] raw"

section \<open>The host\<close>

text \<open>\<open>!shouldEscape(c, encodeHost)\<close>: the bytes a host may hold unescaped.\<close>

definition host_byte :: "byte \<Rightarrow> bool" where
  "host_byte c \<longleftrightarrow>
     letter c \<or> is_digit c \<or> c \<in> set ''!$&()*+,;=:[]<>-_.~'' \<or> c = CHR 0x27 \<or> c = CHR 0x22"

fun unescape_host :: "bool \<Rightarrow> bytes \<Rightarrow> bytes option" where
  "unescape_host zone [] = Some []"
| "unescape_host zone (c # s) =
     (if c = CHR ''%''
      then (case s of
              a # b # t \<Rightarrow>
                (case (unhex a, unhex b) of
                   (Some x, Some y) \<Rightarrow>
                     (let v = char_of (16 * x + y); percent = (a = CHR ''2'' \<and> b = CHR ''5'')
                      in if \<not> zone \<and> x < 8 \<and> \<not> percent then None
                         else if zone \<and> \<not> percent \<and> v \<noteq> CHR '' '' \<and> \<not> host_byte v then None
                         else map_option ((#) v) (unescape_host zone t))
                 | _ \<Rightarrow> None)
            | _ \<Rightarrow> None)
      else if (of_char c :: nat) < 128 \<and> \<not> host_byte c then None
      else map_option ((#) c) (unescape_host zone s))"

definition valid_port :: "bytes \<Rightarrow> bool" where
  "valid_port p = (case p of [] \<Rightarrow> True | c # ds \<Rightarrow> c = CHR '':'' \<and> list_all is_digit ds)"

definition parse_host :: "bytes \<Rightarrow> bytes option" where
  "parse_host host =
     (if host \<noteq> [] \<and> hd host = CHR ''[''
      then (case last_index host CHR '']'' of
              None \<Rightarrow> None
            | Some i \<Rightarrow>
                if \<not> valid_port (drop (Suc i) host) then None
                else (case index_sub (take i host) ''%25'' of
                        None \<Rightarrow> unescape_host False host
                      | Some z \<Rightarrow>
                          (case (unescape_host False (take z host),
                                 unescape_host True (drop z (take i host)),
                                 unescape_host False (drop i host)) of
                             (Some h1, Some h2, Some h3) \<Rightarrow> Some (h1 @ h2 @ h3)
                           | _ \<Rightarrow> None)))
      else (case last_index host CHR '':'' of
              None \<Rightarrow> unescape_host False host
            | Some i \<Rightarrow> if valid_port (drop i host) then unescape_host False host else None))"

definition valid_userinfo :: "bytes \<Rightarrow> bool" where
  "valid_userinfo u =
     list_all (\<lambda>c. letter c \<or> is_digit c \<or> c \<in> set ''-._:~!$&()*+,;=%@'' \<or> c = CHR 0x27) u"

definition parse_authority :: "bytes \<Rightarrow> bytes option" where
  "parse_authority a =
     (case last_index a CHR ''@'' of
        None \<Rightarrow> parse_host a
      | Some i \<Rightarrow>
          (let u = take i a
           in case parse_host (drop (Suc i) a) of
                None \<Rightarrow> None
              | Some h \<Rightarrow>
                  if valid_userinfo u \<and> unescape_path (before CHR '':'' u) \<noteq> None \<and>
                     unescape_path (after CHR '':'' u) \<noteq> None
                  then Some h else None))"

section \<open>The parser\<close>

definition ctl_byte :: "byte \<Rightarrow> bool" where
  "ctl_byte c \<longleftrightarrow> (of_char c :: nat) < 32 \<or> (of_char c :: nat) = 127"

definition parse_url :: "bytes \<Rightarrow> url option" where
  "parse_url raw =
     (if list_ex ctl_byte raw then None
      else if raw = ''*'' then Some \<lparr>u_scheme = [], u_host = [], u_path = ''*''\<rparr>
      else (case get_scheme raw of
              None \<Rightarrow> None
            | Some (s, rest0) \<Rightarrow>
                (let scheme = map lower_byte s; rest = before CHR ''?'' rest0
                 in if take 1 rest \<noteq> ''/'' \<and> scheme \<noteq> []
                    then Some \<lparr>u_scheme = scheme, u_host = [], u_path = []\<rparr>
                    else if take 1 rest \<noteq> ''/'' \<and> CHR '':'' \<in> set (before CHR ''/'' rest) then None
                    else if (scheme \<noteq> [] \<or> take 3 rest \<noteq> ''///'') \<and> take 2 rest = ''//''
                    then (let a = drop 2 rest
                          in case (parse_authority (before CHR ''/'' a),
                                   unescape_path (dropWhile (\<lambda>c. c \<noteq> CHR ''/'') a)) of
                               (Some h, Some p) \<Rightarrow> Some \<lparr>u_scheme = scheme, u_host = h, u_path = p\<rparr>
                             | _ \<Rightarrow> None)
                    else map_option (\<lambda>p. \<lparr>u_scheme = scheme, u_host = [], u_path = p\<rparr>)
                           (unescape_path rest))))"

definition url_parse :: "bytes \<Rightarrow> url option" where
  "url_parse raw =
     (case parse_url (before CHR ''#'' raw) of
        None \<Rightarrow> None
      | Some u \<Rightarrow> if unescape_path (after CHR ''#'' raw) = None then None else Some u)"

section \<open>Plain URLs\<close>

text \<open>
  A URL of a scheme in letters, a host in unreserved bytes with an optional port and a path in path
  bytes is parsed into exactly these.
\<close>

lemma unescape_path_plain: "CHR ''%'' \<notin> set p \<Longrightarrow> unescape_path p = Some p"
  by (induction p) auto

lemma unescape_host_plain: "list_all host_byte h \<Longrightarrow> unescape_host z h = Some h"
proof (induction h)
  case (Cons c h)
  then have "c \<noteq> CHR ''%''" by (auto simp: host_byte_def letter_def is_digit_def Let_def)
  with Cons show ?case by simp
qed simp

lemma scheme_loop_letters:
  "list_all letter s \<Longrightarrow> acc @ s \<noteq> [] \<Longrightarrow>
     scheme_loop raw acc (s @ CHR '':'' # t) = Some (acc @ s, t)"
proof (induction s arbitrary: acc)
  case Nil
  then show ?case by (simp add: letter_def is_digit_def Let_def)
qed (simp add: letter_def)

definition name_byte :: "byte \<Rightarrow> bool" where
  "name_byte c \<longleftrightarrow> letter c \<or> is_digit c \<or> c \<in> set ''-._''"

lemma name_byte_simps:
  "name_byte c \<Longrightarrow> host_byte c" "name_byte c \<Longrightarrow> \<not> ctl_byte c"
  "name_byte c \<Longrightarrow> c \<notin> set '':/?#@[%]''"
  by (auto simp: name_byte_def host_byte_def letter_def is_digit_def ctl_byte_def Let_def)

lemma before_at: "c \<notin> set s \<Longrightarrow> t = [] \<or> hd t = c \<Longrightarrow> before c (s @ t) = s"
  by (cases t) (auto simp: before_def takeWhile_append)

lemma last_index_absent: "c \<notin> set s \<Longrightarrow> last_index s c = None"
  by (simp add: last_index_def index_byte_None)

lemma parse_host_plain:
  assumes "list_all name_byte n" and "valid_port p"
  shows "parse_host (n @ p) = Some (n @ p)"
proof -
  have n: "x \<in> set n \<Longrightarrow> host_byte x" "x \<in> set n \<Longrightarrow> x \<notin> set '':/?#@[%]''" for x
    using assms(1) name_byte_simps [of x] by (auto simp: list_all_iff)
  have colon: "CHR '':'' \<notin> set n" using n(2) by auto
  have digit: "is_digit x \<Longrightarrow> host_byte x" "is_digit x \<Longrightarrow> x \<noteq> CHR '':''" for x
    by (auto simp: host_byte_def is_digit_def)
  have "host_byte CHR '':''" by (simp add: host_byte_def)
  then have "list_all host_byte p"
    using assms(2) digit(1) by (cases p) (auto simp: valid_port_def list_all_iff)
  then have host: "list_all host_byte (n @ p)" using n(1) by (auto simp: list_all_iff)
  have no_bracket: "\<not> (n @ p \<noteq> [] \<and> hd (n @ p) = CHR ''['')"
    using n(2) [of "hd n"] assms(2) by (cases n; cases p) (auto simp: valid_port_def)
  have port: "valid_port (drop i (n @ p))" if "last_index (n @ p) CHR '':'' = Some i" for i
  proof (cases p)
    case Nil
    then show ?thesis using that colon by (simp add: last_index_absent)
  next
    case (Cons c ds)
    then have "c = CHR '':''" and "CHR '':'' \<notin> set ds"
      using assms(2) digit(2) by (auto simp: valid_port_def list_all_iff)
    then show ?thesis using that Cons assms(2) last_index_split [of "CHR '':''" ds n] by simp
  qed
  show ?thesis
    using no_bracket port unescape_host_plain [OF host]
    unfolding parse_host_def by (simp only: if_False) (simp split: option.split)
qed

definition plain_path :: "bytes \<Rightarrow> bool" where
  "plain_path p \<longleftrightarrow>
     (p = [] \<or> hd p = CHR ''/'') \<and> list_all (\<lambda>c. \<not> ctl_byte c \<and> c \<notin> set ''%?#'') p"

lemma letter_simps:
  "letter c \<Longrightarrow> \<not> ctl_byte c" "letter c \<Longrightarrow> c \<notin> set ''#:*''"
  by (auto simp: letter_def ctl_byte_def Let_def)

lemma url_parse_plain:
  assumes s: "s \<noteq> []" "list_all letter s"
    and h: "list_all name_byte n" "valid_port port"
    and p: "plain_path p"
  shows "url_parse (s @ '':/'' @ ''/'' @ n @ port @ p) =
    Some \<lparr>u_scheme = map lower_byte s, u_host = n @ port, u_path = p\<rparr>"
proof -
  let ?raw = "s @ '':/'' @ ''/'' @ n @ port @ p"
  have hb: "x \<in> set (n @ port) \<Longrightarrow> \<not> ctl_byte x \<and> x \<notin> set ''/?#@''" for x
    using h name_byte_simps [of x]
    by (cases port) (auto simp: valid_port_def list_all_iff is_digit_def ctl_byte_def)
  have pb: "x \<in> set p \<Longrightarrow> \<not> ctl_byte x \<and> x \<notin> set ''%?#''" for x
    using p by (auto simp: plain_path_def list_all_iff)
  have sb: "x \<in> set s \<Longrightarrow> \<not> ctl_byte x \<and> x \<notin> set ''#:*''" for x
    using s letter_simps [of x] by (auto simp: list_all_iff)
  have hash: "CHR ''#'' \<notin> set ?raw" using hb pb sb by auto
  have ctl: "\<not> list_ex ctl_byte ?raw" using hb pb sb by (auto simp: list_ex_iff ctl_byte_def)
  have star: "?raw \<noteq> ''*''" using s(1) sb by (cases s) auto
  have scheme: "get_scheme ?raw = Some (s, ''//'' @ n @ port @ p)"
    using scheme_loop_letters [OF s(2), of "[]" ?raw "''//'' @ n @ port @ p"] s(1)
    by (simp add: get_scheme_def)
  have quest: "before CHR ''?'' (''//'' @ n @ port @ p) = ''//'' @ n @ port @ p"
    by (rule before_absent) (use hb pb in auto)
  have slash: "before CHR ''/'' ((n @ port) @ p) = n @ port"
    by (rule before_at) (use hb p in \<open>auto simp: plain_path_def\<close>)
  have rest: "dropWhile (\<lambda>c. c \<noteq> CHR ''/'') ((n @ port) @ p) = p"
    using hb p by (cases p) (auto simp: plain_path_def dropWhile_append)
  have at_sign: "last_index (n @ port) CHR ''@'' = None"
    by (rule last_index_absent) (use hb in auto)
  have path: "unescape_path p = Some p" by (rule unescape_path_plain) (use pb in auto)
  have "parse_url ?raw = Some \<lparr>u_scheme = map lower_byte s, u_host = n @ port, u_path = p\<rparr>"
    using ctl star scheme quest slash rest at_sign path s(1) parse_host_plain [OF h]
    by (simp add: parse_url_def parse_authority_def Let_def)
  then show ?thesis using hash by (simp add: url_parse_def)
qed

end
