(* ===== verification/Float64.thy ===== *)
theory Float64
  imports Ps_Prelude "HOL-Library.Log_Nat"
begin

text \<open>
  Go's \<open>float64\<close>: IEEE 754 binary64 with round to nearest, ties to even.  A finite value is the
  rational number it stands for (the two zeros are one value: nothing in the source tells them
  apart), and every operation is the exact one followed by \<open>rnd\<close>.  What the components need of
  rounding is the interface \<open>rounding\<close>; its last section shows it for \<open>rnd\<close>.
\<close>

section \<open>Rounding a rational number\<close>

text \<open>The binary exponent of a positive rational, from the lengths of numerator and denominator.\<close>

definition ilog2 :: "rat \<Rightarrow> int" where
  "ilog2 x =
     (case quotient_of x of (p, q) \<Rightarrow>
        (let e = bitlen p - bitlen q in if 2 powi e \<le> x then e else e - 1))"

text \<open>The spacing of the floats around a number; below the normal range it is \<open>2\<^sup>-\<^sup>1\<^sup>0\<^sup>7\<^sup>4\<close>.\<close>

definition quantum_exp :: "rat \<Rightarrow> int" where
  "quantum_exp x = max (ilog2 \<bar>x\<bar> - 52) (- 1074)"

definition quantum :: "rat \<Rightarrow> rat" where
  "quantum x = 2 powi quantum_exp x"

definition round_half_even :: "rat \<Rightarrow> int" where
  "round_half_even x =
     (let f = \<lfloor>x\<rfloor>; d = x - of_int f
      in if d < 1 / 2 then f else if 1 / 2 < d then f + 1 else if even f then f else f + 1)"

definition rnd :: "rat \<Rightarrow> rat" where
  "rnd x = (if x = 0 then 0 else quantum x * of_int (round_half_even (x / quantum x)))"

text \<open>The numbers a binary64 can hold, but for the bound on their size.\<close>

definition representable :: "rat \<Rightarrow> bool" where
  "representable z \<longleftrightarrow> (\<exists>m k. z = of_int m * 2 powi k \<and> \<bar>m\<bar> < 2 ^ 53 \<and> - 1074 \<le> k)"

section \<open>The values and their operations\<close>

datatype f64 = Fin rat | PInf | NInf | NaN

text \<open>Rounding to this or beyond overflows to an infinity.\<close>

definition f64_limit :: rat where "f64_limit = 2 ^ 1024"

definition f64_of_rat :: "rat \<Rightarrow> f64" where
  "f64_of_rat x =
     (let r = rnd x
      in if f64_limit \<le> r then PInf else if r \<le> - f64_limit then NInf else Fin r)"

text \<open>\<open>float64(i)\<close> for an integer \<open>i\<close>.\<close>

definition f64_of_int :: "int \<Rightarrow> f64" where
  "f64_of_int i = f64_of_rat (of_int i)"

fun f64_add :: "f64 \<Rightarrow> f64 \<Rightarrow> f64" where
  "f64_add (Fin a) (Fin b) = f64_of_rat (a + b)"
| "f64_add NaN y = NaN"
| "f64_add x NaN = NaN"
| "f64_add PInf NInf = NaN"
| "f64_add NInf PInf = NaN"
| "f64_add PInf y = PInf"
| "f64_add NInf y = NInf"
| "f64_add x PInf = PInf"
| "f64_add x NInf = NInf"

fun f64_neg :: "f64 \<Rightarrow> f64" where
  "f64_neg (Fin a) = Fin (- a)"
| "f64_neg PInf = NInf"
| "f64_neg NInf = PInf"
| "f64_neg NaN = NaN"

text \<open>The product with an infinity has the sign rule, and is not a number for a zero factor.\<close>

definition f64_inf_times :: "bool \<Rightarrow> rat \<Rightarrow> f64" where
  "f64_inf_times pos b =
     (if b = 0 then NaN else if (0 < b) = pos then PInf else NInf)"

fun f64_mul :: "f64 \<Rightarrow> f64 \<Rightarrow> f64" where
  "f64_mul (Fin a) (Fin b) = f64_of_rat (a * b)"
| "f64_mul NaN y = NaN"
| "f64_mul x NaN = NaN"
| "f64_mul PInf (Fin b) = f64_inf_times True b"
| "f64_mul NInf (Fin b) = f64_inf_times False b"
| "f64_mul (Fin a) PInf = f64_inf_times True a"
| "f64_mul (Fin a) NInf = f64_inf_times False a"
| "f64_mul PInf PInf = PInf"
| "f64_mul NInf NInf = PInf"
| "f64_mul PInf NInf = NInf"
| "f64_mul NInf PInf = NInf"

text \<open>The fused form of \<open>x * y + z\<close>, one rounding, that a Go compiler may choose.\<close>

fun f64_fma :: "f64 \<Rightarrow> f64 \<Rightarrow> f64 \<Rightarrow> f64" where
  "f64_fma (Fin a) (Fin b) (Fin c) = f64_of_rat (a * b + c)"
| "f64_fma (Fin a) (Fin b) z = z"
| "f64_fma x y z = f64_add (f64_mul x y) z"

text \<open>Division by a positive constant, the only division of the source.\<close>

fun f64_div_const :: "f64 \<Rightarrow> rat \<Rightarrow> f64" where
  "f64_div_const (Fin a) d = f64_of_rat (a / d)"
| "f64_div_const x d = x"

fun f64_le :: "f64 \<Rightarrow> f64 \<Rightarrow> bool" where
  "f64_le (Fin a) (Fin b) = (a \<le> b)"
| "f64_le NaN y = False"
| "f64_le x NaN = False"
| "f64_le NInf y = True"
| "f64_le x PInf = True"
| "f64_le PInf y = False"
| "f64_le x NInf = False"

fun f64_lt :: "f64 \<Rightarrow> f64 \<Rightarrow> bool" where
  "f64_lt (Fin a) (Fin b) = (a < b)"
| "f64_lt NaN y = False"
| "f64_lt x NaN = False"
| "f64_lt NInf NInf = False"
| "f64_lt NInf y = True"
| "f64_lt PInf y = False"
| "f64_lt x PInf = True"
| "f64_lt x NInf = False"

instantiation f64 :: "{plus, minus, times, ord}"
begin

definition plus_f64 :: "f64 \<Rightarrow> f64 \<Rightarrow> f64" where
  "plus_f64 = f64_add"

definition minus_f64 :: "f64 \<Rightarrow> f64 \<Rightarrow> f64" where
  "minus_f64 x y = f64_add x (f64_neg y)"

definition times_f64 :: "f64 \<Rightarrow> f64 \<Rightarrow> f64" where
  "times_f64 = f64_mul"

definition less_eq_f64 :: "f64 \<Rightarrow> f64 \<Rightarrow> bool" where
  "less_eq_f64 = f64_le"

definition less_f64 :: "f64 \<Rightarrow> f64 \<Rightarrow> bool" where
  "less_f64 = f64_lt"

instance ..

end

lemmas f64_ops = plus_f64_def minus_f64_def times_f64_def less_eq_f64_def less_f64_def

text \<open>
  \<open>int64(x)\<close>: truncation towards zero; outside the range the result is the implementation's, the
  parameter \<open>oor\<close>.
\<close>

definition rat_trunc :: "rat \<Rightarrow> int" where
  "rat_trunc x = (if 0 \<le> x then \<lfloor>x\<rfloor> else - \<lfloor>- x\<rfloor>)"

fun f64_to_int64 :: "(f64 \<Rightarrow> int) \<Rightarrow> f64 \<Rightarrow> int" where
  "f64_to_int64 oor (Fin a) =
     (if - (2 ^ 63) \<le> rat_trunc a \<and> rat_trunc a < 2 ^ 63 then rat_trunc a else oor (Fin a))"
| "f64_to_int64 oor x = oor x"

section \<open>What is used of rounding\<close>

locale rounding =
  fixes round :: "rat \<Rightarrow> rat" and rep :: "rat \<Rightarrow> bool"
  assumes round_mono: "x \<le> y \<Longrightarrow> round x \<le> round y"
    and round_rep: "rep x \<Longrightarrow> round x = x"
    and rep_round: "rep (round x)"
    and rep_zero: "rep 0"
begin

lemma round_le: "rep z \<Longrightarrow> x \<le> z \<Longrightarrow> round x \<le> z"
  using round_mono [of x z] by (simp add: round_rep)

lemma le_round: "rep z \<Longrightarrow> z \<le> x \<Longrightarrow> z \<le> round x"
  using round_mono [of z x] by (simp add: round_rep)

lemma round_nonneg: "0 \<le> x \<Longrightarrow> 0 \<le> round x"
  by (rule le_round [OF rep_zero])

lemma round_diff: "rep t \<Longrightarrow> 0 \<le> d \<Longrightarrow> d \<le> t \<Longrightarrow> 0 \<le> round (t - d) \<and> round (t - d) \<le> t"
  by (auto intro: round_nonneg round_le)

lemma round_idem [simp]: "round (round x) = round x"
  by (simp add: round_rep rep_round)

end


section \<open>Rounding to nearest even has the interface\<close>

subsection \<open>Powers of two and the exponent\<close>

lemma pow2_mono: "(2 :: rat) powi i \<le> 2 powi j \<longleftrightarrow> i \<le> j"
  by (metis linorder_not_le one_less_numeral_iff power_int_increasing power_int_strict_increasing
      semiring_norm(76) less_imp_le)

lemma pow2_less: "(2 :: rat) powi i < 2 powi j \<longleftrightarrow> i < j"
  by (meson linorder_not_le pow2_mono)

lemma pow2_split: "(2 :: rat) powi (i + j) = 2 powi i * 2 powi j"
  by (simp add: power_int_add)

lemma pow2_nat: "i \<le> j \<Longrightarrow> (2 :: rat) powi j = 2 ^ nat (j - i) * 2 powi i"
  using pow2_split [of "j - i" i] by (simp add: power_int_nonneg_exp)

lemma ilog2_bounds:
  assumes "0 < x"
  shows "2 powi ilog2 x \<le> x \<and> x < 2 powi (ilog2 x + 1)"
proof -
  obtain p q where pq: "quotient_of x = (p, q)" by (cases "quotient_of x") auto
  from pq have q: "0 < q" by (rule quotient_of_denom_pos)
  from pq have x: "x = of_int p / of_int q" by (rule quotient_of_div)
  with assms q have p: "0 < p" by (simp add: zero_less_divide_iff)
  have bounds: "(2 :: rat) powi (bitlen n - 1) \<le> of_int n \<and> (of_int n :: rat) < 2 powi bitlen n"
    if "0 < n" for n
  proof -
    from that have b: "1 \<le> bitlen n" using bitlen_bounds [OF that] by (cases "bitlen n \<le> 0") auto
    from bitlen_bounds [OF that] have "(of_int (2 ^ nat (bitlen n - 1)) :: rat) \<le> of_int n"
      and "(of_int n :: rat) < of_int (2 ^ nat (bitlen n))"
      by (simp_all only: of_int_le_iff of_int_less_iff)
    with b show ?thesis by (simp add: power_int_nonneg_exp)
  qed
  define e where "e = bitlen p - bitlen q"
  have "x < 2 powi bitlen p / 2 powi (bitlen q - 1)"
    unfolding x using bounds [OF p] bounds [OF q] p q by (intro frac_less) auto
  also have "\<dots> = 2 powi (e + 1)"
    by (simp add: e_def power_int_diff [symmetric] algebra_simps)
  finally have up: "x < 2 powi (e + 1)" .
  have "2 powi (e - 1) = 2 powi (bitlen p - 1) / (2 powi bitlen q :: rat)"
    by (simp add: e_def power_int_diff [symmetric] algebra_simps)
  also have "\<dots> \<le> x"
    unfolding x using bounds [OF p] bounds [OF q] p q by (intro frac_le) auto
  finally have lo: "2 powi (e - 1) \<le> x" .
  from up lo show ?thesis by (simp add: ilog2_def pq e_def [symmetric] Let_def)
qed

lemma ilog2_unique:
  assumes "2 powi e \<le> x" and "x < 2 powi (e + 1)"
  shows "ilog2 x = e"
proof -
  have "0 < x" using assms(1) by (meson less_le_trans zero_less_numeral zero_less_power_int)
  from ilog2_bounds [OF this] assms have "(2 :: rat) powi e < 2 powi (ilog2 x + 1)"
    and "(2 :: rat) powi ilog2 x < 2 powi (e + 1)" by linarith+
  then show ?thesis by (simp add: pow2_less)
qed

lemma ilog2_mono: "0 < x \<Longrightarrow> x \<le> y \<Longrightarrow> ilog2 x \<le> ilog2 y"
proof -
  assume "0 < x" "x \<le> y"
  with ilog2_bounds [of x] ilog2_bounds [of y] have "(2 :: rat) powi ilog2 x < 2 powi (ilog2 y + 1)"
    by linarith
  then show ?thesis by (simp add: pow2_less)
qed

subsection \<open>Rounding to an integer\<close>

lemma rhe_int [simp]: "round_half_even (of_int n) = n"
  by (simp add: round_half_even_def)

lemma rhe_error: "\<bar>of_int (round_half_even x) - x\<bar> \<le> 1 / 2"
proof -
  have "of_int \<lfloor>x\<rfloor> \<le> x" "x < of_int \<lfloor>x\<rfloor> + 1" by linarith+
  then show ?thesis by (auto simp: round_half_even_def Let_def)
qed

lemma rhe_mono:
  assumes "x \<le> y"
  shows "round_half_even x \<le> round_half_even y"
proof (cases "\<lfloor>x\<rfloor> = \<lfloor>y\<rfloor>")
  case True
  with assms show ?thesis by (auto simp: round_half_even_def Let_def)
next
  case False
  with floor_mono [OF assms] have "\<lfloor>x\<rfloor> + 1 \<le> \<lfloor>y\<rfloor>" by linarith
  moreover have "round_half_even x \<le> \<lfloor>x\<rfloor> + 1" and "\<lfloor>y\<rfloor> \<le> round_half_even y"
    by (auto simp: round_half_even_def Let_def)
  ultimately show ?thesis by linarith
qed

lemma rhe_le: "x \<le> of_int n \<Longrightarrow> round_half_even x \<le> n"
  using rhe_mono [of x "of_int n"] by simp

lemma le_rhe: "of_int n \<le> x \<Longrightarrow> n \<le> round_half_even x"
  using rhe_mono [of "of_int n" x] by simp

subsection \<open>Multiples of the quantum\<close>

lemma quantum_pos [simp]: "0 < quantum x"
  by (simp add: quantum_def)

lemma rnd_le_multiple:
  assumes "x \<le> of_int n * quantum x" and "x \<noteq> 0"
  shows "rnd x \<le> of_int n * quantum x"
proof -
  from assms have "x / quantum x \<le> of_int n" by (simp add: divide_le_eq)
  then have "round_half_even (x / quantum x) \<le> n" by (rule rhe_le)
  then have "(of_int (round_half_even (x / quantum x)) :: rat) \<le> of_int n" by simp
  with assms(2) show ?thesis
    by (simp add: rnd_def mult.commute mult_left_mono less_imp_le)
qed

lemma multiple_le_rnd:
  assumes "of_int n * quantum x \<le> x" and "x \<noteq> 0"
  shows "of_int n * quantum x \<le> rnd x"
proof -
  from assms have "of_int n \<le> x / quantum x" by (simp add: le_divide_eq)
  then have "n \<le> round_half_even (x / quantum x)" by (rule le_rhe)
  then have "(of_int n :: rat) \<le> of_int (round_half_even (x / quantum x))" by simp
  with assms(2) show ?thesis
    by (simp add: rnd_def mult.commute mult_left_mono less_imp_le)
qed

lemma pow2_multiple: "quantum_exp x \<le> e \<Longrightarrow> \<exists>n. (of_int m :: rat) * 2 powi e = of_int n * quantum x"
  by (rule exI [of _ "m * 2 ^ nat (e - quantum_exp x)"])
    (simp add: quantum_def pow2_nat [of "quantum_exp x" e] mult.assoc)

lemma rnd_zero [simp]: "rnd 0 = 0"
  by (simp add: rnd_def)

lemma rnd_error: "\<bar>rnd x - x\<bar> \<le> quantum x / 2"
proof (cases "x = 0")
  case False
  have "rnd x - x = quantum x * (of_int (round_half_even (x / quantum x)) - x / quantum x)"
    using False by (simp add: rnd_def right_diff_distrib) (metis less_irrefl quantum_pos)
  then have "\<bar>rnd x - x\<bar> = quantum x * \<bar>of_int (round_half_even (x / quantum x)) - x / quantum x\<bar>"
    by (simp add: abs_mult less_imp_le)
  also have "\<dots> \<le> quantum x * (1 / 2)"
    by (intro mult_left_mono rhe_error) (simp add: less_imp_le)
  finally show ?thesis by simp
qed (simp add: less_imp_le)


subsection \<open>Representable numbers\<close>

lemma representable_zero [simp]: "representable 0"
  unfolding representable_def by (rule exI [of _ 0], rule exI [of _ 0]) simp

lemma representable_minus [simp]: "representable (- z) = representable z"
proof -
  have neg: "representable (- z)" if rep: "representable z" for z
  proof -
    from rep obtain m k where "z = of_int m * 2 powi k" "\<bar>m\<bar> < 2 ^ 53" "- 1074 \<le> k"
      by (auto simp: representable_def)
    then have "- z = of_int (- m) * 2 powi k \<and> \<bar>- m\<bar> < 2 ^ 53 \<and> - 1074 \<le> k" by simp
    then show ?thesis unfolding representable_def by blast
  qed
  show ?thesis using neg [of z] neg [of "- z"] by auto
qed

lemma representable_pow2: "- 1074 \<le> e \<Longrightarrow> representable (2 powi e)"
  unfolding representable_def by (rule exI [of _ 1], rule exI [of _ e]) simp

lemma representable_int:
  assumes "\<bar>n\<bar> \<le> 2 ^ 53"
  shows "representable (of_int n)"
proof (cases "\<bar>n\<bar> = 2 ^ 53")
  case True
  then have "n = 2 ^ 53 \<or> n = - (2 ^ 53)" by linarith
  moreover have "representable (2 ^ 53)" using representable_pow2 [of 53] by simp
  ultimately show ?thesis
    using representable_minus [of "2 ^ 53"] by auto
next
  case False
  with assms show ?thesis
    unfolding representable_def by (intro exI [of _ n] exI [of _ 0]) simp
qed

lemma rhe_minus: "round_half_even (- x) = - round_half_even x"
proof (cases "x = of_int \<lfloor>x\<rfloor>")
  case True
  then show ?thesis by (metis of_int_minus rhe_int)
next
  case False
  then have "\<lfloor>- x\<rfloor> = - \<lfloor>x\<rfloor> - 1" by linarith
  then show ?thesis by (auto simp: round_half_even_def Let_def)
qed

lemma quantum_minus [simp]: "quantum (- x) = quantum x"
  by (simp add: quantum_def quantum_exp_def)

lemma rnd_minus: "rnd (- x) = - rnd x"
  by (simp add: rnd_def rhe_minus)

lemma representable_quantum:
  assumes "representable z" and "z \<noteq> 0"
  obtains m k where "z = of_int m * 2 powi k" and "\<bar>z\<bar> < 2 powi (k + 53)" and "quantum_exp z \<le> k"
proof -
  from assms(1) obtain m k where z: "z = of_int m * 2 powi k" and m: "\<bar>m\<bar> < 2 ^ 53"
    and k: "- 1074 \<le> k" by (auto simp: representable_def)
  have "\<bar>z\<bar> = of_int \<bar>m\<bar> * 2 powi k" by (simp add: z abs_mult)
  also have "\<dots> < of_int (2 ^ 53) * 2 powi k"
    using m by (intro mult_strict_right_mono) (simp_all only: of_int_less_iff, simp)
  finally have lt: "\<bar>z\<bar> < 2 powi (k + 53)" by (simp add: pow2_split mult.commute)
  with ilog2_bounds [of "\<bar>z\<bar>"] assms(2) have "(2 :: rat) powi ilog2 \<bar>z\<bar> < 2 powi (k + 53)" by auto
  then have "ilog2 \<bar>z\<bar> < k + 53" by (simp only: pow2_less)
  with k have "quantum_exp z \<le> k" by (simp add: quantum_exp_def)
  with z lt that show thesis by blast
qed

lemma quantum_exp_mono: "0 < x \<Longrightarrow> x \<le> y \<Longrightarrow> quantum_exp x \<le> quantum_exp y"
  using ilog2_mono [of x y] by (simp add: quantum_exp_def)

lemma rnd_le_rep:
  assumes "representable z" and "x \<le> z"
  shows "rnd x \<le> z"
proof (cases "x = 0 \<or> x < 0 \<and> 0 \<le> z")
  case True
  with assms rnd_le_multiple [of x 0] show ?thesis by auto
next
  case False
  with assms have nz: "x \<noteq> 0" "z \<noteq> 0" by auto
  obtain m k where z: "z = of_int m * 2 powi k" and lt: "\<bar>z\<bar> < 2 powi (k + 53)"
    and k: "quantum_exp z \<le> k" by (rule representable_quantum [OF assms(1) nz(2)])
  show ?thesis
  proof (cases "quantum_exp x \<le> k")
    case True
    then obtain n where "z = of_int n * quantum x" using pow2_multiple [of x k m] z by auto
    with rnd_le_multiple [of x n] assms(2) nz show ?thesis by auto
  next
    case far: False
    have "x < 0"
    proof (rule ccontr)
      assume "\<not> x < 0"
      with nz assms have "quantum_exp x \<le> quantum_exp z" by (intro quantum_exp_mono) auto
      with k far show False by simp
    qed
    with False have "z < 0" by simp
    have q: "quantum_exp x = ilog2 \<bar>x\<bar> - 52" and le: "k + 53 \<le> ilog2 \<bar>x\<bar>"
      using far k by (auto simp: quantum_exp_def split: if_splits)
    have p: "of_int (- (2 ^ 52)) * quantum x = - (2 powi ilog2 \<bar>x\<bar>)"
      using pow2_nat [of "ilog2 \<bar>x\<bar> - 52" "ilog2 \<bar>x\<bar>"] by (simp add: quantum_def q)
    have "x \<le> - (2 powi ilog2 \<bar>x\<bar>)" using ilog2_bounds [of "\<bar>x\<bar>"] \<open>x < 0\<close> by auto
    with p rnd_le_multiple [of x "- (2 ^ 52)"] nz have "rnd x \<le> - (2 powi ilog2 \<bar>x\<bar>)" by simp
    also have "\<dots> \<le> z"
    proof -
      from le have "(2 :: rat) powi (k + 53) \<le> 2 powi ilog2 \<bar>x\<bar>" by (simp only: pow2_mono)
      with lt \<open>z < 0\<close> show ?thesis by linarith
    qed
    finally show ?thesis .
  qed
qed

lemma le_rnd_rep: "representable z \<Longrightarrow> z \<le> x \<Longrightarrow> z \<le> rnd x"
  using rnd_le_rep [of "- z" "- x"] by (simp add: rnd_minus)

lemma rnd_mono_pos:
  assumes "0 < x" and "x \<le> y"
  shows "rnd x \<le> rnd y"
proof (cases "quantum_exp x = quantum_exp y")
  case True
  then have q: "quantum x = quantum y" by (simp add: quantum_def)
  have "round_half_even (x / quantum y) \<le> round_half_even (y / quantum y)"
    using assms by (intro rhe_mono divide_right_mono) (simp_all add: less_imp_le)
  then have "(of_int (round_half_even (x / quantum y)) :: rat) \<le>
      of_int (round_half_even (y / quantum y))"
    by simp
  with assms q show ?thesis
    by (simp add: rnd_def mult_left_mono less_imp_le)
next
  case False
  with quantum_exp_mono [OF assms] have lt: "quantum_exp x < quantum_exp y" by simp
  with assms have il: "ilog2 x + 1 \<le> ilog2 y" "- 1074 \<le> ilog2 y"
    by (auto simp: quantum_exp_def split: if_splits)
  have "x \<le> 2 powi ilog2 y"
    using ilog2_bounds [OF assms(1)] il(1) pow2_mono [of "ilog2 x + 1" "ilog2 y"] by linarith
  with rnd_le_rep [OF representable_pow2 [OF il(2)]]
  have "rnd x \<le> 2 powi ilog2 y" .
  also have "\<dots> \<le> rnd y"
    using ilog2_bounds [of y] assms by (intro le_rnd_rep representable_pow2 il) auto
  finally show ?thesis .
qed

lemma rnd_mono: "x \<le> y \<Longrightarrow> rnd x \<le> rnd y"
proof -
  assume le: "x \<le> y"
  consider "0 < x" | "x \<le> 0" "0 \<le> y" | "y < 0" by linarith
  then show ?thesis
  proof cases
    case 1
    then show ?thesis using le by (rule rnd_mono_pos)
  next
    case 2
    then have "rnd x \<le> 0" and "0 \<le> rnd y" by (auto intro: rnd_le_rep le_rnd_rep)
    then show ?thesis by simp
  next
    case 3
    with le rnd_mono_pos [of "- y" "- x"] show ?thesis by (simp add: rnd_minus)
  qed
qed

lemma representable_rnd: "representable (rnd x)"
proof (cases "x = 0")
  case False
  define n where "n = round_half_even (x / quantum x)"
  have "(2 :: rat) powi (ilog2 \<bar>x\<bar> + 1) \<le> 2 powi (53 + quantum_exp x)"
    by (simp only: pow2_mono) (simp add: quantum_exp_def)
  also have "\<dots> = 2 ^ 53 * quantum x" by (simp add: pow2_split quantum_def)
  finally have "\<bar>x\<bar> \<le> 2 ^ 53 * quantum x" using ilog2_bounds [of "\<bar>x\<bar>"] False by linarith
  then have "x / quantum x \<le> of_int (2 ^ 53)" and "of_int (- (2 ^ 53)) \<le> x / quantum x"
    by (simp_all add: divide_le_eq le_divide_eq)
  from rhe_le [OF this(1)] le_rhe [OF this(2)] have n: "\<bar>n\<bar> \<le> 2 ^ 53" by (simp add: n_def)
  have r: "rnd x = of_int n * 2 powi quantum_exp x"
    using False by (simp add: rnd_def n_def quantum_def)
  have k: "- 1074 \<le> quantum_exp x" by (simp add: quantum_exp_def)
  show ?thesis
  proof (cases "\<bar>n\<bar> < 2 ^ 53")
    case True
    with r k show ?thesis unfolding representable_def by blast
  next
    case False
    with n have "n = 2 ^ 53 \<or> n = - (2 ^ 53)" by linarith
    moreover have "(2 :: rat) ^ 53 * 2 powi quantum_exp x = 2 powi (53 + quantum_exp x)"
      by (simp add: pow2_split)
    moreover have "representable (2 powi (53 + quantum_exp x))"
      using k by (intro representable_pow2) simp
    ultimately show ?thesis by (auto simp: r)
  qed
qed simp

interpretation rd: rounding rnd representable
  by unfold_locales
    (auto intro: rnd_mono representable_rnd order.antisym rnd_le_rep le_rnd_rep)

lemma f64_limit_big: "2 ^ 64 \<le> f64_limit"
  unfolding f64_limit_def by (rule power_increasing) simp_all

definition underflow :: rat where "underflow = 2 powi (- 1075)"

lemma underflow_bounds [simp]: "0 \<le> underflow" "underflow \<le> 1 / 2 ^ 54"
proof -
  have "(2 :: rat) powi (- 1075) \<le> 2 powi (- 54)" by (rule iffD2 [OF pow2_mono]) simp
  also have "(2 :: rat) powi (- 54) = 1 / 2 ^ 54" by (simp add: power_int_def power_one_over)
  finally show "underflow \<le> 1 / 2 ^ 54" by (fold underflow_def)
  have "(0 :: rat) < 2 powi (- 1075)" by (rule zero_less_power_int) simp
  then show "0 \<le> underflow" by (fold underflow_def) (rule less_imp_le)
qed

text \<open>Half an ulp: the relative error is at most \<open>2\<^sup>-\<^sup>5\<^sup>3\<close>, plus the underflow term.\<close>

lemma rnd_relative: "\<bar>rnd x - x\<bar> \<le> \<bar>x\<bar> / 2 ^ 53 + underflow"
proof (cases "x = 0 \<or> ilog2 \<bar>x\<bar> - 52 < - 1074")
  case True
  then consider "x = 0" | "quantum_exp x = - 1074" by (auto simp: quantum_exp_def)
  then show ?thesis
  proof cases
    case 2
    then have "quantum x = 2 powi (1 + (- 1075))" by (simp add: quantum_def)
    also have "\<dots> = 2 * underflow" unfolding underflow_def by (subst pow2_split) simp
    finally have "quantum x / 2 = underflow" by simp
    moreover have "0 \<le> \<bar>x\<bar> / 2 ^ 53" by simp
    ultimately show ?thesis using rnd_error [of x] by linarith
  qed simp
next
  case False
  then have "quantum_exp x = ilog2 \<bar>x\<bar> - 52" by (simp add: quantum_exp_def)
  then have "quantum x / 2 = 2 powi (ilog2 \<bar>x\<bar> - 53)"
    using power_int_diff [of "2 :: rat" "ilog2 \<bar>x\<bar> - 52" 1] by (simp add: quantum_def)
  also have "\<dots> = 2 powi ilog2 \<bar>x\<bar> / 2 ^ 53" by (simp add: power_int_diff)
  also have "\<dots> \<le> \<bar>x\<bar> / 2 ^ 53"
    using False ilog2_bounds [of "\<bar>x\<bar>"] by (intro divide_right_mono) auto
  finally have "quantum x / 2 \<le> \<bar>x\<bar> / 2 ^ 53" .
  moreover have "0 \<le> underflow" by simp
  ultimately show ?thesis using rnd_error [of x] by linarith
qed

end
