(* ===== verification/Go_Strconv.thy ===== *)
theory Go_Strconv
  imports Float64 "HOL-Library.Word"
begin

text \<open>
  The number parsers of Go's \<open>strconv\<close> and \<open>time\<close> packages that the configuration loader calls:
  \<open>ParseInt(s, 10, 64)\<close> (and \<open>Atoi\<close>, the same function on a 64-bit platform), \<open>ParseBool\<close>,
  \<open>ParseFloat(s, 64)\<close> and \<open>ParseDuration\<close>, as functions of the bytes of the string.
\<close>

type_synonym int64 = "64 word"

section \<open>Integers\<close>

datatype num_error = ErrSyntax | ErrRange

definition digit_val :: "byte \<Rightarrow> int" where
  "digit_val c = of_char c - 48"

text \<open>The loop of \<open>ParseUint\<close>, which reports an overflow before a bad byte that comes later.\<close>

fun uint_loop :: "int \<Rightarrow> bytes \<Rightarrow> num_error + int" where
  "uint_loop n [] = Inr n"
| "uint_loop n (c # cs) =
     (if \<not> is_digit c then Inl ErrSyntax
      else if 2 ^ 64 \<le> n * 10 + digit_val c then Inl ErrRange
      else uint_loop (n * 10 + digit_val c) cs)"

definition parse_uint :: "bytes \<Rightarrow> num_error + int" where
  "parse_uint s = (if s = [] then Inl ErrSyntax else uint_loop 0 s)"

fun cut_sign :: "bytes \<Rightarrow> bool \<times> bytes" where
  "cut_sign [] = (False, [])"
| "cut_sign (c # cs) =
     (if c = CHR ''-'' then (True, cs) else if c = CHR ''+'' then (False, cs) else (False, c # cs))"

definition parse_int :: "bytes \<Rightarrow> num_error + int64" where
  "parse_int s =
     (case cut_sign s of (neg, ds) \<Rightarrow>
        (case parse_uint ds of
           Inl e \<Rightarrow> Inl e
         | Inr n \<Rightarrow>
             if \<not> neg \<and> 2 ^ 63 \<le> n then Inl ErrRange
             else if neg \<and> 2 ^ 63 < n then Inl ErrRange
             else Inr (of_int (if neg then - n else n))))"

section \<open>Booleans\<close>

definition parse_bool :: "bytes \<Rightarrow> bool option" where
  "parse_bool s =
     (if s \<in> set [''1'', ''t'', ''T'', ''true'', ''TRUE'', ''True''] then Some True
      else if s \<in> set [''0'', ''f'', ''F'', ''false'', ''FALSE'', ''False''] then Some False
      else None)"

section \<open>Floating-point numbers\<close>

definition is_hex :: "byte \<Rightarrow> bool" where
  "is_hex c \<longleftrightarrow> is_digit c \<or> 97 \<le> (of_char (lower_byte c) :: nat) \<and> (of_char (lower_byte c) :: nat) \<le> 102"

definition hex_val :: "byte \<Rightarrow> int" where
  "hex_val c = (if is_digit c then digit_val c else of_char (lower_byte c) - 87)"

text \<open>The mantissa read so far, and how many of its digits stand behind the dot.\<close>

record mantissa =
  m_val :: int
  m_frac :: nat
  m_dot :: bool
  m_digits :: bool

fun scan_mantissa :: "bool \<Rightarrow> bytes \<Rightarrow> mantissa \<Rightarrow> mantissa \<times> bytes" where
  "scan_mantissa hex [] m = (m, [])"
| "scan_mantissa hex (c # cs) m =
     (if c = CHR ''_'' then scan_mantissa hex cs m
      else if c = CHR ''.''
      then (if m_dot m then (m, c # cs) else scan_mantissa hex cs (m\<lparr>m_dot := True\<rparr>))
      else if is_digit c \<or> hex \<and> is_hex c
      then scan_mantissa hex cs
             (m\<lparr>m_val := m_val m * (if hex then 16 else 10) + hex_val c,
                m_frac := (if m_dot m then Suc (m_frac m) else m_frac m), m_digits := True\<rparr>)
      else (m, c # cs))"

text \<open>The exponent's digits, which stop counting at 10000.\<close>

fun scan_exponent :: "bytes \<Rightarrow> int \<Rightarrow> int \<times> bytes" where
  "scan_exponent [] e = (e, [])"
| "scan_exponent (c # cs) e =
     (if c = CHR ''_'' then scan_exponent cs e
      else if is_digit c then scan_exponent cs (if e < 10000 then e * 10 + digit_val c else e)
      else (e, c # cs))"

text \<open>\<open>underscoreOK\<close>: underscores separate digits, or follow the base prefix.\<close>

datatype saw = SawDigit | SawUnderscore | SawOther

fun underscore_loop :: "bool \<Rightarrow> saw \<Rightarrow> bytes \<Rightarrow> bool" where
  "underscore_loop hex i [] \<longleftrightarrow> i \<noteq> SawUnderscore"
| "underscore_loop hex i (c # cs) \<longleftrightarrow>
     (if is_digit c \<or> hex \<and> is_hex c then underscore_loop hex SawDigit cs
      else if c = CHR ''_'' then i = SawDigit \<and> underscore_loop hex SawUnderscore cs
      else i \<noteq> SawUnderscore \<and> underscore_loop hex SawOther cs)"

definition based :: "bytes \<Rightarrow> bytes \<Rightarrow> bool" where
  "based bs s \<longleftrightarrow>
     2 \<le> length s \<and> s ! 0 = CHR ''0'' \<and> lower_byte (s ! 1) \<in> set bs"

definition underscore_ok :: "bytes \<Rightarrow> bool" where
  "underscore_ok s =
     (let t = snd (cut_sign s)
      in if based ''box'' t then underscore_loop (lower_byte (t ! 1) = CHR ''x'') SawDigit (drop 2 t)
         else underscore_loop False SawOther t)"

definition is_special :: "bytes \<Rightarrow> bytes \<Rightarrow> bool" where
  "is_special w s \<longleftrightarrow> map lower_byte s = w"

text \<open>The exact value of a well-formed number, \<open>None\<close> for a syntax error.\<close>

definition read_float :: "bytes \<Rightarrow> rat option" where
  "read_float s =
     (case cut_sign s of (neg, t) \<Rightarrow>
        let hex = based ''x'' t \<and> 2 < length t;
            (m, u) = scan_mantissa hex (if hex then drop 2 t else t)
                       \<lparr>m_val = 0, m_frac = 0, m_dot = False, m_digits = False\<rparr>;
            sgn = (if neg then - 1 else 1 :: rat);
            val = (\<lambda>e. sgn * of_int (m_val m) *
                     (if hex then 2 powi (e - 4 * int (m_frac m)) else 10 powi (e - int (m_frac m))))
        in if \<not> m_digits m then None
           else (case u of
                   c # v \<Rightarrow>
                     if lower_byte c = (if hex then CHR ''p'' else CHR ''e'')
                     then (case cut_sign v of (eneg, w) \<Rightarrow>
                             if w = [] \<or> \<not> is_digit (hd w) then None
                             else (case scan_exponent w 0 of (e, rest) \<Rightarrow>
                                     if rest = [] \<and> (CHR ''_'' \<in> set s \<longrightarrow> underscore_ok s)
                                     then Some (val (if eneg then - e else e)) else None))
                     else None
                 | [] \<Rightarrow>
                     if hex \<or> CHR ''_'' \<in> set s \<and> \<not> underscore_ok s then None else Some (val 0)))"

definition parse_float :: "bytes \<Rightarrow> num_error + f64" where
  "parse_float s =
     (case cut_sign s of (neg, t) \<Rightarrow>
        if is_special ''inf'' t \<or> is_special ''infinity'' t then Inr (if neg then NInf else PInf)
        else if is_special ''nan'' s then Inr NaN
        else (case read_float s of
                None \<Rightarrow> Inl ErrSyntax
              | Some x \<Rightarrow> (case f64_of_rat x of Fin y \<Rightarrow> Inr (Fin y) | _ \<Rightarrow> Inl ErrRange)))"

section \<open>Durations\<close>

definition duration_unit :: "bytes \<Rightarrow> int option" where
  "duration_unit u =
     map_of [(''ns'', 1), (''us'', 1000), ([char_of (0xC2 :: nat), char_of (0xB5 :: nat), CHR ''s''], 1000),
             ([char_of (0xCE :: nat), char_of (0xBC :: nat), CHR ''s''], 1000), (''ms'', 1000000),
             (''s'', 1000000000), (''m'', 60000000000), (''h'', 3600000000000)] u"

text \<open>\<open>leadingInt\<close>: \<open>None\<close> on overflow.\<close>

fun leading_int :: "int \<Rightarrow> bytes \<Rightarrow> (int \<times> bytes) option" where
  "leading_int x [] = Some (x, [])"
| "leading_int x (c # cs) =
     (if \<not> is_digit c then Some (x, c # cs)
      else if 2 ^ 63 div 10 < x then None
      else if 2 ^ 63 < x * 10 + digit_val c then None
      else leading_int (x * 10 + digit_val c) cs)"

text \<open>\<open>leadingFraction\<close>: digits beyond the range are dropped; \<open>k\<close> counts those kept.\<close>

fun leading_fraction :: "int \<Rightarrow> nat \<Rightarrow> bool \<Rightarrow> bytes \<Rightarrow> int \<times> nat \<times> bytes" where
  "leading_fraction x k over [] = (x, k, [])"
| "leading_fraction x k over (c # cs) =
     (if \<not> is_digit c then (x, k, c # cs)
      else if over \<or> (2 ^ 63 - 1) div 10 < x \<or> 2 ^ 63 < x * 10 + digit_val c
      then leading_fraction x k True cs
      else leading_fraction (x * 10 + digit_val c) (Suc k) False cs)"

text \<open>One number with its unit: the nanoseconds and the rest, \<open>None\<close> for any error.\<close>

definition duration_piece :: "bytes \<Rightarrow> (int \<times> bytes) option" where
  "duration_piece s =
     (if s = [] \<or> \<not> (hd s = CHR ''.'' \<or> is_digit (hd s)) then None
      else (case leading_int 0 s of
              None \<Rightarrow> None
            | Some (v, s1) \<Rightarrow>
                let (f, k, s2) =
                      (if s1 \<noteq> [] \<and> hd s1 = CHR ''.'' then leading_fraction 0 0 False (tl s1)
                       else (0, 0, s1));
                    pre = (length s1 < length s);
                    post = (s1 \<noteq> [] \<and> hd s1 = CHR ''.'' \<and> Suc (length s2) < length s1);
                    u = takeWhile (\<lambda>c. c \<noteq> CHR ''.'' \<and> \<not> is_digit c) s2
                in if \<not> pre \<and> \<not> post then None
                   else (case duration_unit u of
                           None \<Rightarrow> None
                         | Some unit \<Rightarrow>
                             if 2 ^ 63 div unit < v then None
                             else let d = v * unit +
                                        (if 0 < f
                                         then \<lfloor>rnd (rnd (of_int f) * rnd (of_int unit / 10 ^ k))\<rfloor>
                                         else 0)
                                  in if 2 ^ 63 < d then None else Some (d, drop (length u) s2))))"

text \<open>Every piece consumes a byte at least, so the length of the string is fuel enough.\<close>

fun duration_loop :: "nat \<Rightarrow> int \<Rightarrow> bytes \<Rightarrow> int option" where
  "duration_loop n d [] = Some d"
| "duration_loop 0 d (c # cs) = None"
| "duration_loop (Suc n) d (c # cs) =
     (case duration_piece (c # cs) of
        None \<Rightarrow> None
      | Some (v, rest) \<Rightarrow> if 2 ^ 63 < d + v then None else duration_loop n (d + v) rest)"

definition parse_duration :: "bytes \<Rightarrow> int64 option" where
  "parse_duration s =
     (case cut_sign s of (neg, t) \<Rightarrow>
        if t = ''0'' then Some 0
        else if t = [] then None
        else (case duration_loop (length t) 0 t of
                None \<Rightarrow> None
              | Some d \<Rightarrow>
                  if neg then Some (of_int (- d))
                  else if 2 ^ 63 - 1 < d then None
                  else Some (of_int d)))"

end
