(* ===== verification/Config.thy ===== *)
theory Config
  imports Go_Strconv
begin

text \<open>
  The configuration of \<open>src/config/config.go\<close>: the record of the parameters, the readers of the
  environment variables, \<open>Load\<close> and \<open>validate\<close>.  The environment is a function from names to values,
  empty when unset, as \<open>os.Getenv\<close> reports it; an error is a value that says which variable or which
  pair of fields is wrong.
\<close>

section \<open>The parameters\<close>

record config =
  ListenAddr :: bytes
  MetricsListenAddr :: bytes
  TargetURL :: bytes
  InsecureSkipVerify :: bool
  ReadTimeout :: int64
  WriteTimeout :: int64
  IdleTimeout :: int64
  BackendTimeout :: int64
  RateLimit :: f64
  BurstSize :: int64
  MaxConcurrent :: int64
  QueueSize :: int64
  QueueTimeout :: int64
  StripThreshold :: int64

text \<open>Nanoseconds in a second, and the durations written \<open>n*time.Second\<close>.\<close>

definition seconds :: "int64 \<Rightarrow> int64" where "seconds n = n * 1000000000"

section \<open>Errors\<close>

datatype value_error =
  InvalidDuration bytes | NotPositive bytes | InvalidFloat bytes num_error
| InvalidInteger bytes num_error | InvalidBoolean bytes

datatype config_error =
  VarError bytes value_error
| TargetEmpty
| RateNotPositive f64
| BurstNotPositive int64
| MaxConcurrentNotPositive int64
| QueueSizeNotPositive int64
| StripNotBelowMax int64 int64
| WriteNotAboveQueue int64 int64

definition and_then :: "'e + 'a \<Rightarrow> ('a \<Rightarrow> 'e + 'b) \<Rightarrow> 'e + 'b" where
  "and_then r f = (case r of Inl e \<Rightarrow> Inl e | Inr x \<Rightarrow> f x)"

lemma and_then_Inr: "and_then r f = Inr y \<longleftrightarrow> (\<exists>x. r = Inr x \<and> f x = Inr y)"
  by (cases r) (simp_all add: and_then_def)

lemma and_then_Inl: "and_then r f = Inl e \<longleftrightarrow> r = Inl e \<or> (\<exists>x. r = Inr x \<and> f x = Inl e)"
  by (cases r) (simp_all add: and_then_def)

lemma and_then_ret [simp]: "and_then (Inr x) f = f x"
  by (simp add: and_then_def)

section \<open>The readers\<close>

type_synonym environ = "bytes \<Rightarrow> bytes"

definition envString :: "environ \<Rightarrow> bytes \<Rightarrow> bytes \<Rightarrow> bytes" where
  "envString env key dflt = (if env key \<noteq> [] then env key else dflt)"

definition envDuration :: "environ \<Rightarrow> bytes \<Rightarrow> int64 \<Rightarrow> value_error + int64" where
  "envDuration env key dflt =
     (let v = env key
      in if v = [] then Inr dflt
         else (case parse_duration v of
                 None \<Rightarrow> Inl (InvalidDuration v)
               | Some d \<Rightarrow> if sint d \<le> 0 then Inl (NotPositive v) else Inr d))"

definition envFloat64 :: "environ \<Rightarrow> bytes \<Rightarrow> f64 \<Rightarrow> value_error + f64" where
  "envFloat64 env key dflt =
     (let v = env key
      in if v = [] then Inr dflt
         else (case parse_float v of Inl e \<Rightarrow> Inl (InvalidFloat v e) | Inr f \<Rightarrow> Inr f))"

definition envInt64 :: "environ \<Rightarrow> bytes \<Rightarrow> int64 \<Rightarrow> value_error + int64" where
  "envInt64 env key dflt =
     (let v = env key
      in if v = [] then Inr dflt
         else (case parse_int v of Inl e \<Rightarrow> Inl (InvalidInteger v e) | Inr i \<Rightarrow> Inr i))"

text \<open>An \<open>int\<close> has 64 bits on the platforms the program targets, and \<open>Atoi\<close> reads it as \<open>ParseInt\<close> does.\<close>

definition envInt :: "environ \<Rightarrow> bytes \<Rightarrow> int64 \<Rightarrow> value_error + int64" where
  "envInt env key dflt =
     (let v = env key
      in if v = [] then Inr dflt
         else (case parse_int v of Inl e \<Rightarrow> Inl (InvalidInteger v e) | Inr i \<Rightarrow> Inr i))"

definition envBool :: "environ \<Rightarrow> bytes \<Rightarrow> bool \<Rightarrow> value_error + bool" where
  "envBool env key dflt =
     (let v = env key
      in if v = [] then Inr dflt
         else (case parse_bool v of None \<Rightarrow> Inl (InvalidBoolean v) | Some b \<Rightarrow> Inr b))"

section \<open>\<open>validate\<close> and \<open>Load\<close>\<close>

definition validate :: "config \<Rightarrow> config_error + unit" where
  "validate c =
     (if TargetURL c = [] then Inl TargetEmpty
      else if RateLimit c \<le> Fin 0 then Inl (RateNotPositive (RateLimit c))
      else if sint (BurstSize c) \<le> 0 then Inl (BurstNotPositive (BurstSize c))
      else if sint (MaxConcurrent c) \<le> 0 then Inl (MaxConcurrentNotPositive (MaxConcurrent c))
      else if sint (QueueSize c) \<le> 0 then Inl (QueueSizeNotPositive (QueueSize c))
      else if sint (MaxConcurrent c) \<le> sint (StripThreshold c)
      then Inl (StripNotBelowMax (StripThreshold c) (MaxConcurrent c))
      else if sint (WriteTimeout c) \<le> sint (QueueTimeout c)
      then Inl (WriteNotAboveQueue (WriteTimeout c) (QueueTimeout c))
      else Inr ())"

text \<open>An error of a reader, wrapped with the name of its variable.\<close>

definition var :: "bytes \<Rightarrow> (bytes \<Rightarrow> value_error + 'a) \<Rightarrow> config_error + 'a" where
  "var key read = (case read key of Inl e \<Rightarrow> Inl (VarError key e) | Inr x \<Rightarrow> Inr x)"

definition Load :: "environ \<Rightarrow> config_error + config" where
  "Load env =
     and_then (var ''PEAKSHIELD_INSECURE_SKIP_VERIFY'' (\<lambda>k. envBool env k False)) (\<lambda>insecure.
     and_then (var ''PEAKSHIELD_READ_TIMEOUT'' (\<lambda>k. envDuration env k (seconds 10))) (\<lambda>rt.
     and_then (var ''PEAKSHIELD_WRITE_TIMEOUT'' (\<lambda>k. envDuration env k (seconds 60))) (\<lambda>wt.
     and_then (var ''PEAKSHIELD_IDLE_TIMEOUT'' (\<lambda>k. envDuration env k (seconds 120))) (\<lambda>it.
     and_then (var ''PEAKSHIELD_BACKEND_TIMEOUT'' (\<lambda>k. envDuration env k (seconds 15))) (\<lambda>bt.
     and_then (var ''PEAKSHIELD_RATE_LIMIT'' (\<lambda>k. envFloat64 env k (Fin 100))) (\<lambda>rate.
     and_then (var ''PEAKSHIELD_BURST'' (\<lambda>k. envInt64 env k 200)) (\<lambda>burst.
     and_then (var ''PEAKSHIELD_MAX_CONCURRENT'' (\<lambda>k. envInt64 env k 50)) (\<lambda>maxc.
     and_then (var ''PEAKSHIELD_QUEUE_SIZE'' (\<lambda>k. envInt env k 500)) (\<lambda>qsize.
     and_then (var ''PEAKSHIELD_QUEUE_TIMEOUT'' (\<lambda>k. envDuration env k (seconds 30))) (\<lambda>qt.
     and_then (var ''PEAKSHIELD_STRIP_THRESHOLD'' (\<lambda>k. envInt64 env k 40)) (\<lambda>strip.
       let cfg =
         \<lparr>ListenAddr = envString env ''PEAKSHIELD_LISTEN'' '':8080'',
          MetricsListenAddr = envString env ''PEAKSHIELD_METRICS_LISTEN'' ''127.0.0.1:9090'',
          TargetURL = envString env ''PEAKSHIELD_TARGET'' ''http://localhost:9090'',
          InsecureSkipVerify = insecure, ReadTimeout = rt, WriteTimeout = wt, IdleTimeout = it,
          BackendTimeout = bt, RateLimit = rate, BurstSize = burst, MaxConcurrent = maxc,
          QueueSize = qsize, QueueTimeout = qt, StripThreshold = strip\<rparr>
       in and_then (validate cfg) (\<lambda>_. Inr cfg))))))))))))"

section \<open>What a loaded configuration satisfies\<close>

definition config_ok :: "config \<Rightarrow> bool" where
  "config_ok c \<longleftrightarrow>
     TargetURL c \<noteq> [] \<and> \<not> RateLimit c \<le> Fin 0 \<and> 0 < sint (BurstSize c) \<and>
     0 < sint (QueueSize c) \<and> 0 < sint (MaxConcurrent c) \<and>
     sint (StripThreshold c) < sint (MaxConcurrent c) \<and>
     0 < sint (QueueTimeout c) \<and> sint (QueueTimeout c) < sint (WriteTimeout c) \<and>
     0 < sint (ReadTimeout c) \<and> 0 < sint (IdleTimeout c) \<and> 0 < sint (BackendTimeout c)"

lemma validate_Inr: "validate c = Inr u \<longleftrightarrow>
    TargetURL c \<noteq> [] \<and> \<not> RateLimit c \<le> Fin 0 \<and> 0 < sint (BurstSize c) \<and>
    0 < sint (MaxConcurrent c) \<and> 0 < sint (QueueSize c) \<and>
    sint (StripThreshold c) < sint (MaxConcurrent c) \<and> sint (QueueTimeout c) < sint (WriteTimeout c)"
  by (auto simp: validate_def)

lemma var_Inr: "var k f = Inr x \<longleftrightarrow> f k = Inr x"
  by (simp add: var_def split: sum.split)

lemma var_Inl: "var k f = Inl e \<longleftrightarrow> (\<exists>v. f k = Inl v \<and> e = VarError k v)"
  by (auto simp: var_def split: sum.split)

lemma envDuration_pos: "envDuration env k d = Inr x \<Longrightarrow> 0 < sint d \<Longrightarrow> 0 < sint x"
  by (auto simp: envDuration_def Let_def split: if_splits option.splits)

lemma seconds_pos: "0 < sint (seconds 10)" "0 < sint (seconds 60)" "0 < sint (seconds 120)"
  "0 < sint (seconds 15)" "0 < sint (seconds 30)"
  by (simp_all add: seconds_def)

lemma Load_Inr:
  assumes "Load env = Inr c"
  shows "(\<exists>u. validate c = Inr u) \<and>
    envDuration env ''PEAKSHIELD_READ_TIMEOUT'' (seconds 10) = Inr (ReadTimeout c) \<and>
    envDuration env ''PEAKSHIELD_WRITE_TIMEOUT'' (seconds 60) = Inr (WriteTimeout c) \<and>
    envDuration env ''PEAKSHIELD_IDLE_TIMEOUT'' (seconds 120) = Inr (IdleTimeout c) \<and>
    envDuration env ''PEAKSHIELD_BACKEND_TIMEOUT'' (seconds 15) = Inr (BackendTimeout c) \<and>
    envDuration env ''PEAKSHIELD_QUEUE_TIMEOUT'' (seconds 30) = Inr (QueueTimeout c)"
  using assms unfolding Load_def and_then_Inr var_Inr Let_def sum.inject
  apply (elim exE conjE)
  apply hypsubst
  apply (simp (no_asm) only: config.select_convs)
  apply (intro conjI exI)
       apply assumption+
  done

text \<open>A configuration that loads is sound: the target is not empty, the burst, the queue and the
  concurrency limit are positive, the stripper's threshold is below the concurrency limit, every
  timeout is positive and the write timeout is above the queue timeout.\<close>

lemma load_sound:
  assumes "Load env = Inr c"
  shows "config_ok c"
proof -
  note L = Load_Inr [OF assms, unfolded validate_Inr]
  have "0 < sint (ReadTimeout c)" and "0 < sint (WriteTimeout c)" and "0 < sint (IdleTimeout c)"
    and "0 < sint (BackendTimeout c)" and "0 < sint (QueueTimeout c)"
    using L by (blast intro: envDuration_pos seconds_pos)+
  then show ?thesis using L unfolding config_ok_def by blast
qed

section \<open>Defaults and errors\<close>

definition default_config :: config where
  "default_config =
     \<lparr>ListenAddr = '':8080'', MetricsListenAddr = ''127.0.0.1:9090'',
      TargetURL = ''http://localhost:9090'', InsecureSkipVerify = False,
      ReadTimeout = seconds 10, WriteTimeout = seconds 60, IdleTimeout = seconds 120,
      BackendTimeout = seconds 15, RateLimit = Fin 100, BurstSize = 200, MaxConcurrent = 50,
      QueueSize = 500, QueueTimeout = seconds 30, StripThreshold = 40\<rparr>"

lemma env_unset [simp]:
  "env k = [] \<Longrightarrow> envDuration env k d = Inr d" "env k = [] \<Longrightarrow> envFloat64 env k f = Inr f"
  "env k = [] \<Longrightarrow> envInt64 env k i = Inr i" "env k = [] \<Longrightarrow> envInt env k i = Inr i"
  "env k = [] \<Longrightarrow> envBool env k b = Inr b" "env k = [] \<Longrightarrow> envString env k s = s"
  by (simp_all add: envDuration_def envFloat64_def envInt64_def envInt_def envBool_def envString_def Let_def)

lemma var_ret: "f k = Inr x \<Longrightarrow> var k f = Inr x"
  by (simp add: var_Inr)

lemma var_const [simp]: "var k (\<lambda>k. Inr x) = Inr x"
  by (simp add: var_def)

lemma var_bool [simp]: "env k = [] \<Longrightarrow> var k (\<lambda>k. envBool env k b) = Inr b"
  by (simp add: var_def)

lemma validate_default: "validate default_config = Inr ()"
  by (simp add: validate_Inr default_config_def seconds_def f64_ops)

text \<open>With no variable set, the configuration is the documented one.\<close>

theorem load_defaults: "Load (\<lambda>_. []) = Inr default_config"
  using validate_default
  by (simp add: Load_def var_ret and_then_ret Let_def default_config_def)

text \<open>An error that names a variable names one that is set.\<close>

definition blames :: "environ \<Rightarrow> config_error + 'a \<Rightarrow> bool" where
  "blames env r \<longleftrightarrow> (\<forall>k e. r = Inl (VarError k e) \<longrightarrow> env k \<noteq> [])"

lemma blames_and_then:
  "blames env r \<Longrightarrow> (\<And>x. blames env (f x)) \<Longrightarrow> blames env (and_then r f)"
  by (cases r) (simp_all add: blames_def and_then_def)

lemma blames_var: "(\<And>e. f k = Inl e \<Longrightarrow> env k \<noteq> []) \<Longrightarrow> blames env (var k f)"
  by (auto simp: blames_def var_Inl)

lemma blames_readers:
  "envDuration env k d = Inl e \<Longrightarrow> env k \<noteq> []" "envFloat64 env k f = Inl e \<Longrightarrow> env k \<noteq> []"
  "envInt64 env k i = Inl e \<Longrightarrow> env k \<noteq> []" "envInt env k i = Inl e \<Longrightarrow> env k \<noteq> []"
  "envBool env k b = Inl e \<Longrightarrow> env k \<noteq> []"
  by auto

lemma blames_validate: "blames env (let c = r in and_then (validate c) (\<lambda>_. Inr c))"
  by (auto simp: blames_def and_then_Inl validate_def Let_def)

text \<open>An unset variable is never an error: whenever loading fails with the name of a variable, that
  variable is set.\<close>

theorem load_blames_set:
  assumes "Load env = Inl (VarError k e)"
  shows "env k \<noteq> []"
proof -
  have "blames env (Load env)"
    unfolding Load_def
    by (intro blames_and_then blames_var blames_validate; erule blames_readers)
  with assms show ?thesis by (simp add: blames_def)
qed

section \<open>Values the validation lets through\<close>

text \<open>The environment with one variable set.\<close>

definition env_of :: "bytes \<Rightarrow> bytes \<Rightarrow> environ" where
  "env_of k v = (\<lambda>k'. if k' = k then v else [])"

lemma load_rate:
  assumes "parse_float v = Inr f" and "v \<noteq> []" and "\<not> f \<le> Fin 0"
  shows "Load (env_of ''PEAKSHIELD_RATE_LIMIT'' v) = Inr (default_config\<lparr>RateLimit := f\<rparr>)"
proof -
  have "validate (default_config\<lparr>RateLimit := f\<rparr>) = Inr ()"
    using assms(3) by (simp add: validate_Inr default_config_def seconds_def)
  moreover have "envFloat64 (env_of ''PEAKSHIELD_RATE_LIMIT'' v) ''PEAKSHIELD_RATE_LIMIT'' d = Inr f" for d
    using assms by (simp add: envFloat64_def env_of_def)
  ultimately show ?thesis
    by (simp add: Load_def var_ret and_then_ret Let_def default_config_def env_of_def)
qed

lemma parse_nan: "parse_float ''NaN'' = Inr NaN"
  by code_simp

theorem load_blames_set_witness:
  "Load (env_of ''PEAKSHIELD_BURST'' ''x'') =
     Inl (VarError ''PEAKSHIELD_BURST'' (InvalidInteger ''x'' ErrSyntax)) \<and>
   env_of ''PEAKSHIELD_BURST'' ''x'' ''PEAKSHIELD_BURST'' \<noteq> []"
proof
  have "parse_int ''x'' = Inl ErrSyntax" by code_simp
  then have "envInt64 (env_of ''PEAKSHIELD_BURST'' ''x'') ''PEAKSHIELD_BURST'' d =
      Inl (InvalidInteger ''x'' ErrSyntax)" for d
    by (simp add: envInt64_def env_of_def)
  then have bad: "var ''PEAKSHIELD_BURST'' (\<lambda>k. envInt64 (env_of ''PEAKSHIELD_BURST'' ''x'') k d) =
      Inl (VarError ''PEAKSHIELD_BURST'' (InvalidInteger ''x'' ErrSyntax))" for d
    by (simp add: var_def)
  have stop: "and_then (Inl e :: config_error + 'a) f = Inl e" for e and f :: "'a \<Rightarrow> config_error + 'b"
    by (simp add: and_then_def)
  show load: "Load (env_of ''PEAKSHIELD_BURST'' ''x'') =
      Inl (VarError ''PEAKSHIELD_BURST'' (InvalidInteger ''x'' ErrSyntax))"
    using bad by (simp add: Load_def var_ret and_then_ret stop env_of_def)
  show "env_of ''PEAKSHIELD_BURST'' ''x'' ''PEAKSHIELD_BURST'' \<noteq> []"
    by (rule load_blames_set [OF load])
qed

text \<open>A rate that is not a number passes the validation: \<open>NaN <= 0\<close> is false.\<close>

theorem load_accepts_nan:
  "Load (env_of ''PEAKSHIELD_RATE_LIMIT'' ''NaN'') = Inr (default_config\<lparr>RateLimit := NaN\<rparr>)"
  by (rule load_rate [OF parse_nan]) (simp_all add: f64_ops)

end
