(* ===== verification/Reverse_Proxy.thy ===== *)
theory Reverse_Proxy
  imports Go_Http Go_Url Config
begin

text \<open>
  The reverse proxy of \<open>src/proxy/proxy.go\<close>: its construction, the request it makes of the client's,
  the headers it copies and drops, and its answers.  The backend behind \<open>client.Do\<close> is a function from
  the outbound request to a reply; a run of the handler is the list of its calls on the response writer.
\<close>

section \<open>Construction\<close>

text \<open>The fields \<open>New\<close> sets of \<open>http.Transport\<close> and \<open>net.Dialer\<close>; durations are in nanoseconds.\<close>

record transport =
  DialTimeout :: int64
  DialKeepAlive :: int64
  MaxIdleConns :: int64
  MaxIdleConnsPerHost :: int64
  MaxConnsPerHost :: int64
  IdleConnTimeout :: int64
  TlsInsecureSkipVerify :: bool
  ResponseHeaderTimeout :: int64
  TLSHandshakeTimeout :: int64
  ExpectContinueTimeout :: int64
  DisableCompression :: bool
  ForceAttemptHTTP2 :: bool
  ReadBufferSize :: int64
  WriteBufferSize :: int64

text \<open>The client is its transport and its timeout; it never follows a redirect.\<close>

record proxy =
  px_target :: url
  px_transport :: transport
  px_client_timeout :: int64
  px_cfg :: config

datatype new_error = TargetInvalid bytes | TargetWithoutHost bytes

definition header_timeout :: "int64 \<Rightarrow> int64" where
  "header_timeout backendTimeout =
     (if sint backendTimeout > sint (seconds 1) then backendTimeout - seconds 1 else 0)"

definition new_transport :: "config \<Rightarrow> transport" where
  "new_transport cfg =
     \<lparr>DialTimeout = seconds 30, DialKeepAlive = seconds 15, MaxIdleConns = 1024,
      MaxIdleConnsPerHost = 256, MaxConnsPerHost = 0, IdleConnTimeout = seconds 90,
      TlsInsecureSkipVerify = InsecureSkipVerify cfg,
      ResponseHeaderTimeout = header_timeout (BackendTimeout cfg),
      TLSHandshakeTimeout = seconds 10, ExpectContinueTimeout = 1 * seconds 1,
      DisableCompression = False, ForceAttemptHTTP2 = False,
      ReadBufferSize = 32 * 1024, WriteBufferSize = 32 * 1024\<rparr>"

definition new_proxy :: "config \<Rightarrow> new_error + proxy" where
  "new_proxy cfg =
     (case url_parse (TargetURL cfg) of
        None \<Rightarrow> Inl (TargetInvalid (TargetURL cfg))
      | Some targetURL \<Rightarrow>
          if u_host targetURL = [] then Inl (TargetWithoutHost (TargetURL cfg))
          else Inr \<lparr>px_target = targetURL, px_transport = new_transport cfg,
                    px_client_timeout = BackendTimeout cfg, px_cfg = cfg\<rparr>)"

definition Transport :: "proxy \<Rightarrow> transport" where "Transport p = px_transport p"

section \<open>Headers\<close>

definition hopByHopHeaders :: "bytes list" where
  "hopByHopHeaders =
     [''Connection'', ''Keep-Alive'', ''Proxy-Authenticate'', ''Proxy-Authorization'', ''TE'',
      ''Trailers'', ''Transfer-Encoding'', ''Upgrade'']"

definition excludedResponseHeaders :: "bytes list" where
  "excludedResponseHeaders =
     [''Connection'', ''Keep-Alive'', ''Transfer-Encoding'', ''Trailer'', ''Upgrade'']"

definition copyRequestHeaders :: "header \<Rightarrow> header \<Rightarrow> header" where
  "copyRequestHeaders dst src = fold (\<lambda>(key, values). fold (header_add key) values) src dst"

text \<open>The fields the first \<open>Connection\<close> line nominates, and both passes of the removal.\<close>

definition nominated :: "header \<Rightarrow> bytes list" where
  "nominated h =
     (let connHeader = header_get h ''Connection''
      in if connHeader \<noteq> []
         then filter (\<lambda>field. field \<noteq> []) (map trim_space (split_on CHR '','' connHeader))
         else [])"

definition sanitizeHopByHopHeaders :: "header \<Rightarrow> header" where
  "sanitizeHopByHopHeaders h = fold header_del hopByHopHeaders (fold header_del (nominated h) h)"

text \<open>Copying to the response writer is a list of calls of \<open>Header().Add\<close>.\<close>

definition copyResponseHeaders :: "header \<Rightarrow> rw_call list" where
  "copyResponseHeaders src =
     concat (map (\<lambda>(key, values).
       if key \<in> set excludedResponseHeaders then [] else map (HeaderAdd key) values) src)"

section \<open>Paths and addresses\<close>

definition joinPath :: "bytes \<Rightarrow> bytes \<Rightarrow> bytes" where
  "joinPath base reqPath =
     (if base = [] \<or> base = ''/'' then reqPath
      else trim_right CHR ''/'' base @ ''/'' @ trim_left CHR ''/'' reqPath)"

definition ExtractIP :: "bytes \<Rightarrow> bytes" where
  "ExtractIP remoteAddr =
     (case SplitHostPort remoteAddr of None \<Rightarrow> remoteAddr | Some (ip, port) \<Rightarrow> ip)"

section \<open>The outbound request\<close>

text \<open>
  The request handed to the client: \<open>or_uri\<close> is what its request line carries, path and query; the
  connection goes to the target's host.
\<close>

record out_request =
  or_method :: bytes
  or_scheme :: bytes
  or_uri :: bytes
  or_host :: bytes
  or_header :: header
  or_body :: bytes

datatype build_error = BadMethod bytes | BadURL

text \<open>
  \<open>http.NewRequestWithContext\<close> on the backend's URL: the method must be a token (an empty one means
  GET), and the URL's text is parsed again, which fails on a control byte before the first \<open>#\<close> of the
  query and on a bad escape after it; scheme, host and path come from \<open>escape\<close> and pass.
\<close>

definition uri_ok :: "bytes \<Rightarrow> bool" where
  "uri_ok query \<longleftrightarrow>
     \<not> list_ex ctl_byte (before CHR ''#'' query) \<and> unescape_path (after CHR ''#'' query) \<noteq> None"

definition new_request :: "bytes \<Rightarrow> url \<Rightarrow> bytes \<Rightarrow> bytes \<Rightarrow> build_error + out_request" where
  "new_request meth u query body =
     (let m = (if meth = [] then ''GET'' else meth)
      in if \<not> list_all token_byte m then Inl (BadMethod m)
         else if \<not> uri_ok query then Inl BadURL
         else Inr \<lparr>or_method = m, or_scheme = u_scheme u, or_uri = wire_target (u_path u) query,
                   or_host = u_host u, or_header = [], or_body = body\<rparr>)"

definition set_if_missing :: "bytes \<Rightarrow> bytes \<Rightarrow> header \<Rightarrow> header" where
  "set_if_missing k v h = (if header_get h k = [] then header_set k v h else h)"

definition forward_for :: "bytes \<Rightarrow> header \<Rightarrow> header" where
  "forward_for clientIP h =
     (let prior = header_get h ''X-Forwarded-For''
      in if prior \<noteq> [] then header_set ''X-Forwarded-For'' (prior @ '', '' @ clientIP) h
         else header_set ''X-Forwarded-For'' clientIP h)"

definition outbound_header :: "request \<Rightarrow> header" where
  "outbound_header r =
     (let h0 = sanitizeHopByHopHeaders (copyRequestHeaders [] (rq_header r));
          clientIP = ExtractIP (rq_remote r);
          h1 = forward_for clientIP h0;
          h2 = set_if_missing ''X-Real-IP'' clientIP h1;
          h3 = set_if_missing ''X-Forwarded-Host'' (rq_host r) h2;
          h4 = set_if_missing ''X-Forwarded-Proto'' (if rq_tls r then ''https'' else ''http'') h3
      in header_set ''Via'' ''1.1 peakshield'' h4)"

definition buildBackendRequest :: "proxy \<Rightarrow> request \<Rightarrow> build_error + out_request" where
  "buildBackendRequest p r =
     (let backendURL = \<lparr>u_scheme = u_scheme (px_target p), u_host = u_host (px_target p),
                        u_path = joinPath (u_path (px_target p)) (rq_path r)\<rparr>
      in case new_request (rq_method r) backendURL (rq_raw_query r) (rq_body r) of
           Inl e \<Rightarrow> Inl e
         | Inr outReq \<Rightarrow>
             Inr (outReq\<lparr>or_header := outbound_header r, or_host := u_host (px_target p)\<rparr>))"

section \<open>Answers\<close>

text \<open>\<open>http.StatusText\<close>.\<close>

definition status_texts :: "(int \<times> bytes) list" where
  "status_texts =
    [(100, ''Continue''), (101, ''Switching Protocols''), (102, ''Processing''),
     (103, ''Early Hints''), (200, ''OK''), (201, ''Created''), (202, ''Accepted''),
     (203, ''Non-Authoritative Information''), (204, ''No Content''), (205, ''Reset Content''),
     (206, ''Partial Content''), (207, ''Multi-Status''), (208, ''Already Reported''),
     (226, ''IM Used''), (300, ''Multiple Choices''), (301, ''Moved Permanently''),
     (302, ''Found''), (303, ''See Other''), (304, ''Not Modified''), (305, ''Use Proxy''),
     (307, ''Temporary Redirect''), (308, ''Permanent Redirect''), (400, ''Bad Request''),
     (401, ''Unauthorized''), (402, ''Payment Required''), (403, ''Forbidden''),
     (404, ''Not Found''), (405, ''Method Not Allowed''), (406, ''Not Acceptable''),
     (407, ''Proxy Authentication Required''), (408, ''Request Timeout''), (409, ''Conflict''),
     (410, ''Gone''), (411, ''Length Required''), (412, ''Precondition Failed''),
     (413, ''Request Entity Too Large''), (414, ''Request URI Too Long''),
     (415, ''Unsupported Media Type''), (416, ''Requested Range Not Satisfiable''),
     (417, ''Expectation Failed''), (418, ''I'' @ [CHR 0x27] @ ''m a teapot''),
     (421, ''Misdirected Request''), (422, ''Unprocessable Entity''), (423, ''Locked''),
     (424, ''Failed Dependency''), (425, ''Too Early''), (426, ''Upgrade Required''),
     (428, ''Precondition Required''), (429, ''Too Many Requests''),
     (431, ''Request Header Fields Too Large''), (451, ''Unavailable For Legal Reasons''),
     (500, ''Internal Server Error''), (501, ''Not Implemented''), (502, ''Bad Gateway''),
     (503, ''Service Unavailable''), (504, ''Gateway Timeout''),
     (505, ''HTTP Version Not Supported''), (506, ''Variant Also Negotiates''),
     (507, ''Insufficient Storage''), (508, ''Loop Detected''), (510, ''Not Extended''),
     (511, ''Network Authentication Required'')]"

definition status_text :: "int \<Rightarrow> bytes" where
  "status_text code = (case map_of status_texts code of None \<Rightarrow> [] | Some t \<Rightarrow> t)"

record error_response =
  er_error :: bytes
  er_code :: int
  er_message :: bytes
  er_backend :: bytes

text \<open>
  \<open>json.Marshal\<close> of an \<open>ErrorResponse\<close>, which has strings and an integer only and so does not fail;
  an empty backend is omitted.
\<close>

definition json_field :: "bytes \<Rightarrow> bytes \<Rightarrow> bytes" where
  "json_field name v = json_string name @ '':'' @ v"

definition marshal_error :: "error_response \<Rightarrow> bytes" where
  "marshal_error e =
     ''{'' @ json_field ''error'' (json_string (er_error e)) @ '','' @
     json_field ''code'' (show_int (er_code e)) @ '','' @
     json_field ''message'' (json_string (er_message e)) @
     (if er_backend e = [] then [] else '','' @ json_field ''backend'' (json_string (er_backend e))) @ ''}''"

definition writeError :: "proxy \<Rightarrow> int \<Rightarrow> bytes \<Rightarrow> rw_call list" where
  "writeError p statusCode errType =
     [HeaderSet ''Content-Type'' ''application/json; charset=utf-8'',
      HeaderSet ''X-PeakShield-Error'' errType,
      HeaderSet ''X-Content-Type-Options'' ''nosniff'',
      WriteHeader statusCode,
      Write (marshal_error
        \<lparr>er_error = errType, er_code = statusCode, er_message = status_text statusCode,
         er_backend = TargetURL (px_cfg p)\<rparr>)]"

text \<open>
  What \<open>client.Do\<close> and the reading of the body come to: no response, with the state of the client's
  context and of the error's \<open>Timeout()\<close>; or a status, a header and the chunks \<open>io.Copy\<close> passes on
  before the end of the body or its first error.
\<close>

datatype reply = NoReply bool bool | Reply int header "bytes list"

definition ServeHTTP :: "proxy \<Rightarrow> (out_request \<Rightarrow> reply) \<Rightarrow> request \<Rightarrow> rw_call list" where
  "ServeHTTP p backend r =
     (case buildBackendRequest p r of
        Inl e \<Rightarrow> writeError p 502 ''request_build_failed''
      | Inr outReq \<Rightarrow>
          (case backend outReq of
             NoReply gone timeout \<Rightarrow>
               if gone then []
               else if timeout then writeError p 504 ''backend_timeout''
               else writeError p 502 ''backend_error''
           | Reply statusCode header chunks \<Rightarrow>
               copyResponseHeaders header @
               [HeaderSet ''X-PeakShield-Proxied'' ''1'', HeaderSet ''Via'' ''1.1 peakshield'',
                WriteHeader statusCode] @ map Write chunks))"

end
