(* ===== verification/Token_Bucket.thy ===== *)
theory Token_Bucket
  imports Go_Strconv
begin

unbundle bit_operations_syntax

text \<open>
  The rate limiter of \<open>src/ratelimiter/token_bucket.go\<close>.  Buckets are heap objects the shard maps
  point to, as in the code, so that two calls that looked up one bucket share it; a shard's map is
  an association list in one iteration order.  Every critical section (\<open>RLock\<close> lookup, \<open>Lock\<close>
  insertion, the bucket's own lock, the two phases of the sweep) is one definition, and every
  reading of the clock is an argument.
\<close>

section \<open>State\<close>



text \<open>\<open>numShards\<close>, \<open>shardMask\<close> and \<open>bucketIdleTimeout\<close> (in nanoseconds).\<close>

definition numShards :: nat where "numShards = 256"

definition shardMask :: "32 word" where "shardMask = 255"

definition bucketIdleTimeout :: int64 where "bucketIdleTimeout = 5 * 60 * 1000000000"

record bucket =
  tokens :: f64
  lastRefillNano :: int64
  lastSeenNano :: int64

type_synonym shard = "(bytes \<times> nat) list"

record limiter =
  shards :: "shard list"
  heap :: "bucket list"
  ratePerNano :: f64
  burstSize :: f64

definition new_limiter :: "f64 \<Rightarrow> int \<Rightarrow> limiter" where
  "new_limiter rateLimit burst =
     \<lparr>shards = replicate numShards [], heap = [],
      ratePerNano = f64_div_const rateLimit 1000000000, burstSize = f64_of_int burst\<rparr>"

section \<open>Sharding\<close>

text \<open>FNV-1a: exclusive or with each byte, then times the 32-bit prime.\<close>

definition fnv32a :: "bytes \<Rightarrow> 32 word" where
  "fnv32a s = fold (\<lambda>c h. (h XOR of_char c) * 16777619) s 2166136261"

definition shard_for :: "bytes \<Rightarrow> nat" where
  "shard_for ip = unat (fnv32a ip AND shardMask)"

lemma shard_for_mod: "shard_for ip = unat (fnv32a ip) mod numShards"
proof -
  have "(255 :: 32 word) = mask 8" by (simp add: mask_eq_exp_minus_1)
  then have "fnv32a ip AND 255 = take_bit 8 (fnv32a ip)"
    by (simp only: take_bit_eq_mask)
  then have "shard_for ip = take_bit 8 (unat (fnv32a ip))"
    by (simp only: shard_for_def shardMask_def unsigned_take_bit_eq)
  then show ?thesis by (simp add: numShards_def take_bit_eq_mod)
qed

lemma shard_for_less [simp]: "shard_for ip < numShards"
  by (simp add: shard_for_mod numShards_def)

section \<open>One bucket\<close>

text \<open>
  \<open>b.tokens += float64(elapsed) * l.ratePerNano\<close>: the Go specification lets a compiler fuse the
  product and the sum into one rounding (as it does on arm64) or not; \<open>fused\<close> says which.
\<close>

definition refill_sum :: "bool \<Rightarrow> f64 \<Rightarrow> f64 \<Rightarrow> f64 \<Rightarrow> f64" where
  "refill_sum fused t e r = (if fused then f64_fma e r t else t + e * r)"

definition refill :: "bool \<Rightarrow> f64 \<Rightarrow> f64 \<Rightarrow> int64 \<Rightarrow> bucket \<Rightarrow> bucket" where
  "refill fused rate burst now b =
     (let elapsed = now - lastRefillNano b
      in if sint elapsed > 0
         then (let t = refill_sum fused (tokens b) (f64_of_int (sint elapsed)) rate;
                   t' = (if burst < t then burst else t)
               in b\<lparr>tokens := t', lastRefillNano := now\<rparr>)
         else b)"

definition take_token :: "int64 \<Rightarrow> bucket \<Rightarrow> bool \<times> bucket" where
  "take_token now b =
     (let b' = b\<lparr>lastSeenNano := now\<rparr>
      in if Fin 1 \<le> tokens b' then (True, b'\<lparr>tokens := tokens b' - Fin 1\<rparr>) else (False, b'))"

definition consume_bucket :: "bool \<Rightarrow> f64 \<Rightarrow> f64 \<Rightarrow> int64 \<Rightarrow> bucket \<Rightarrow> bool \<times> bucket" where
  "consume_bucket fused rate burst now b = take_token now (refill fused rate burst now b)"

definition fresh_bucket :: "f64 \<Rightarrow> int64 \<Rightarrow> bucket" where
  "fresh_bucket burst now = \<lparr>tokens = burst, lastRefillNano = now, lastSeenNano = now\<rparr>"

section \<open>The critical sections of \<open>Allow\<close>\<close>

definition lookup :: "bytes \<Rightarrow> limiter \<Rightarrow> nat option" where
  "lookup ip l = map_of (shards l ! shard_for ip) ip"

definition getOrCreate :: "int64 \<Rightarrow> bytes \<Rightarrow> limiter \<Rightarrow> nat \<times> limiter" where
  "getOrCreate now ip l =
     (case lookup ip l of
        Some b \<Rightarrow> (b, l)
      | None \<Rightarrow>
          (let i = shard_for ip; b = length (heap l)
           in (b, l\<lparr>heap := heap l @ [fresh_bucket (burstSize l) now],
                    shards := (shards l)[i := AList.update ip b (shards l ! i)]\<rparr>)))"

definition consume :: "bool \<Rightarrow> int64 \<Rightarrow> nat \<Rightarrow> limiter \<Rightarrow> bool \<times> limiter" where
  "consume fused now b l =
     (case consume_bucket fused (ratePerNano l) (burstSize l) now (heap l ! b) of
        (ok, b') \<Rightarrow> (ok, l\<lparr>heap := (heap l)[b := b']\<rparr>))"

text \<open>\<open>t1\<close> is the clock in \<open>getOrCreate\<close>, \<open>t2\<close> that in \<open>consume\<close>.\<close>

definition Allow :: "bool \<Rightarrow> int64 \<times> int64 \<Rightarrow> bytes \<Rightarrow> limiter \<Rightarrow> bool \<times> limiter" where
  "Allow fused t ip l =
     (case lookup ip l of
        Some b \<Rightarrow> consume fused (snd t) b l
      | None \<Rightarrow> (case getOrCreate (fst t) ip l of (b, l') \<Rightarrow> consume fused (snd t) b l'))"

section \<open>The sweep\<close>

definition idle :: "int64 \<Rightarrow> limiter \<Rightarrow> nat \<Rightarrow> bool" where
  "idle cutoff l b \<longleftrightarrow> sint (lastSeenNano (heap l ! b)) < sint cutoff"

text \<open>Phase 1, under the read lock.\<close>

definition gc_scan :: "int64 \<Rightarrow> nat \<Rightarrow> limiter \<Rightarrow> bytes list" where
  "gc_scan cutoff i l = map fst (filter (\<lambda>(ip, b). idle cutoff l b) (shards l ! i))"

text \<open>Phase 2, under the write lock: every candidate is looked up and tested again.\<close>

fun gc_delete :: "int64 \<Rightarrow> nat \<Rightarrow> bytes list \<Rightarrow> limiter \<times> nat \<Rightarrow> limiter \<times> nat" where
  "gc_delete cutoff i [] (l, n) = (l, n)"
| "gc_delete cutoff i (ip # ips) (l, n) =
     (case map_of (shards l ! i) ip of
        Some b \<Rightarrow>
          (if idle cutoff l b
           then gc_delete cutoff i ips
                  (l\<lparr>shards := (shards l)[i := AList.delete ip (shards l ! i)]\<rparr>, n + 1)
           else gc_delete cutoff i ips (l, n))
      | None \<Rightarrow> gc_delete cutoff i ips (l, n))"

definition gc_shard :: "int64 \<Rightarrow> nat \<Rightarrow> limiter \<times> nat \<Rightarrow> limiter \<times> nat" where
  "gc_shard cutoff i s =
     (let toEvict = gc_scan cutoff i (fst s)
      in if toEvict = [] then s else gc_delete cutoff i toEvict s)"

definition runGC :: "int64 \<Rightarrow> limiter \<Rightarrow> limiter \<times> nat" where
  "runGC now l =
     (let cutoff = now - bucketIdleTimeout
      in fold (gc_shard cutoff) [0 ..< numShards] (l, 0))"

text \<open>The loop around it: one sweep for every tick, until the context is done.\<close>

datatype gc_event = TickC int64 | DoneC

fun gcLoop :: "gc_event list \<Rightarrow> limiter \<Rightarrow> limiter" where
  "gcLoop [] l = l"
| "gcLoop (DoneC # es) l = l"
| "gcLoop (TickC now # es) l = gcLoop es (fst (runGC now l))"

section \<open>Telemetry\<close>

record limiter_stats =
  TrackedIPs :: nat
  NumShards :: nat
  LimBurstSize :: int
  RatePerSec :: f64

definition limiter_Stats :: "(f64 \<Rightarrow> int) \<Rightarrow> limiter \<Rightarrow> limiter_stats" where
  "limiter_Stats oor l =
     \<lparr>TrackedIPs = fold (\<lambda>s total. total + length s) (shards l) 0, NumShards = numShards,
      LimBurstSize = f64_to_int64 oor (burstSize l), RatePerSec = ratePerNano l * Fin 1000000000\<rparr>"

end
