(* ===== verification/Token_Bucket_Spec.thy ===== *)
theory Token_Bucket_Spec
  imports Token_Bucket
begin

text \<open>
  What the rate limiter promises.  Its abstract state is a map from IP to bucket (\<open>view\<close>); the
  interface \<open>keyed_limiter\<close> says that a call on a key is one step of that key's own bucket, and
  its lemmas hold for any limiter with that interface; the interpretation shows it for the model
  of the code, with its shards, heap and double-checked insertion.
\<close>

section \<open>The interface of a per-key limiter\<close>

locale keyed_limiter =
  fixes ok :: "'s \<Rightarrow> bool"
    and view :: "'s \<Rightarrow> 'k \<Rightarrow> 'b option"
    and call :: "'t \<Rightarrow> 'k \<Rightarrow> 's \<Rightarrow> bool \<times> 's"
    and step :: "'s \<Rightarrow> 't \<Rightarrow> 'b option \<Rightarrow> bool \<times> 'b"
  assumes ok_call: "ok s \<Longrightarrow> ok (snd (call t k s))"
    and call_result: "ok s \<Longrightarrow> fst (call t k s) = fst (step s t (view s k))"
    and call_view: "ok s \<Longrightarrow> view (snd (call t k s)) k' =
          (if k' = k then Some (snd (step s t (view s k))) else view s k')"
    and step_frame: "ok s \<Longrightarrow> step (snd (call t k s)) = step s"
begin

fun calls :: "('t \<times> 'k) list \<Rightarrow> 's \<Rightarrow> bool list \<times> 's" where
  "calls [] s = ([], s)"
| "calls ((t, k) # cs) s =
     (case call t k s of (a, s') \<Rightarrow> (case calls cs s' of (as, s'') \<Rightarrow> (a # as, s'')))"

text \<open>The answers given to one key's calls.\<close>

definition answers :: "'k \<Rightarrow> ('t \<times> 'k) list \<Rightarrow> 's \<Rightarrow> bool list" where
  "answers k cs s = map fst (filter (\<lambda>(a, c). snd c = k) (zip (fst (calls cs s)) cs))"

lemma answers_Cons:
  "answers k ((t, k') # cs) s =
     (if k' = k then fst (call t k' s) # answers k cs (snd (call t k' s))
      else answers k cs (snd (call t k' s)))"
  by (simp add: answers_def split: prod.splits)

lemma answers_Nil [simp]: "answers k [] s = []"
  by (simp add: answers_def)

text \<open>
  Isolation: the answers to a key's calls depend on that key's calls and bucket alone.
\<close>

lemma isolation:
  assumes "ok s" and "ok s'" and "view s k = view s' k" and "step s = step s'"
  shows "answers k cs s = answers k (filter (\<lambda>c. snd c = k) cs) s'"
  using assms
proof (induction cs arbitrary: s s')
  case Nil
  then show ?case by simp
next
  case (Cons c cs)
  obtain t k' where c: "c = (t, k')" by (cases c)
  note ok = Cons.prems(1,2)
  show ?case
  proof (cases "k' = k")
    case True
    have "answers k cs (snd (call t k s)) =
        answers k (filter (\<lambda>c. snd c = k) cs) (snd (call t k s'))"
      using Cons.prems by (intro Cons.IH) (auto simp: ok_call call_view step_frame)
    moreover have "fst (call t k s) = fst (call t k s')"
      using Cons.prems by (simp add: call_result)
    ultimately show ?thesis using True by (simp add: c answers_Cons)
  next
    case False
    have "answers k cs (snd (call t k' s)) = answers k (filter (\<lambda>c. snd c = k) cs) s'"
      using Cons.prems False by (intro Cons.IH) (auto simp: ok_call call_view step_frame)
    with False show ?thesis by (simp add: c answers_Cons)
  qed
qed

end

section \<open>The code's limiter keeps its invariant\<close>

definition shard_ok :: "limiter \<Rightarrow> nat \<Rightarrow> bool" where
  "shard_ok l i \<longleftrightarrow> distinct (map fst (shards l ! i)) \<and>
     list_all (\<lambda>(ip, b). shard_for ip = i \<and> b < length (heap l)) (shards l ! i)"

definition limiter_ok :: "limiter \<Rightarrow> bool" where
  "limiter_ok l \<longleftrightarrow>
     length (shards l) = numShards \<and> (\<forall>i<numShards. shard_ok l i) \<and>
     (\<forall>ip ip' b. lookup ip l = Some b \<and> lookup ip' l = Some b \<longrightarrow> ip = ip')"

definition view :: "limiter \<Rightarrow> bytes \<Rightarrow> bucket option" where
  "view l ip = map_option (\<lambda>b. heap l ! b) (lookup ip l)"

lemma limiter_ok_new: "limiter_ok (new_limiter r b)"
  by (simp add: limiter_ok_def new_limiter_def lookup_def shard_ok_def)

lemma lookup_less:
  assumes "limiter_ok l" and "lookup ip l = Some b"
  shows "b < length (heap l)"
proof -
  from assms(2) have "(ip, b) \<in> set (shards l ! shard_for ip)"
    by (simp add: lookup_def map_of_SomeD)
  moreover from assms(1) have "shard_ok l (shard_for ip)" by (simp add: limiter_ok_def)
  ultimately show ?thesis by (auto simp: shard_ok_def list_all_iff)
qed

lemma lookup_insert:
  assumes "limiter_ok l"
  shows "lookup ip' (l\<lparr>heap := h, shards := (shards l)[shard_for ip :=
      AList.update ip b (shards l ! shard_for ip)]\<rparr>) = (if ip' = ip then Some b else lookup ip' l)"
  using assms
  by (cases "shard_for ip' = shard_for ip")
    (auto simp: lookup_def update_conv' limiter_ok_def)

lemma update_subset: "set (AList.update k v al) \<subseteq> insert (k, v) (set al)"
  by (induction al) auto

lemma lookup_heap [simp]: "lookup ip (l\<lparr>heap := h\<rparr>) = lookup ip l"
  by (simp add: lookup_def)

lemma getOrCreate_ok:
  assumes ok: "limiter_ok l" and new: "lookup ip l = None"
  shows "limiter_ok (snd (getOrCreate now ip l))"
proof -
  let ?l = "snd (getOrCreate now ip l)"
  let ?b = "length (heap l)"
  have l: "?l = l\<lparr>heap := heap l @ [fresh_bucket (burstSize l) now], shards := (shards l)[shard_for ip :=
      AList.update ip ?b (shards l ! shard_for ip)]\<rparr>"
    by (simp add: getOrCreate_def new Let_def)
  have "shard_ok ?l i" if "i < numShards" for i
  proof (cases "i = shard_for ip")
    case True
    with ok that have s: "shard_ok l i" and len: "i < length (shards l)"
      by (auto simp: limiter_ok_def)
    have "set (AList.update ip ?b (shards l ! i)) \<subseteq> insert (ip, ?b) (set (shards l ! i))"
      by (rule update_subset)
    with s len True show ?thesis
      by (auto simp: shard_ok_def l distinct_update list_all_iff less_Suc_eq)
  next
    case False
    with ok that show ?thesis
      by (auto simp: limiter_ok_def shard_ok_def l list_all_iff less_Suc_eq)
  qed
  moreover have "ip1 = ip2" if "lookup ip1 ?l = Some b" "lookup ip2 ?l = Some b" for ip1 ip2 b
    using that ok lookup_less [OF ok]
    by (auto simp: l lookup_insert limiter_ok_def split: if_splits)
  ultimately show ?thesis
    using ok by (auto simp: limiter_ok_def l)
qed

lemma consume_ok:
  assumes "limiter_ok l"
  shows "limiter_ok (snd (consume fused now b l))"
  using assms
  by (auto simp: consume_def limiter_ok_def shard_ok_def split: prod.splits)

lemma getOrCreate_view:
  assumes "limiter_ok l" and "lookup ip l = None"
  shows "view (snd (getOrCreate now ip l)) ip' =
      (if ip' = ip then Some (fresh_bucket (burstSize l) now) else view l ip')"
    and "lookup ip (snd (getOrCreate now ip l)) = Some (fst (getOrCreate now ip l))"
  using assms lookup_less [OF assms(1)]
  by (auto simp: view_def getOrCreate_def Let_def lookup_insert nth_append
      intro!: option.map_cong0)

lemma consume_view:
  assumes ok: "limiter_ok l" and b: "lookup ip l = Some b"
  shows "view (snd (consume fused now b l)) ip' =
      (if ip' = ip then Some (snd (consume_bucket fused (ratePerNano l) (burstSize l) now (heap l ! b)))
       else view l ip')"
proof -
  have "lookup ip' l \<noteq> Some b" if "ip' \<noteq> ip" using ok b that by (auto simp: limiter_ok_def)
  with lookup_less [OF ok b] b show ?thesis
    by (auto simp: view_def consume_def split: prod.splits intro!: option.map_cong0)
qed

text \<open>A call as one step of the caller's bucket.\<close>

definition bucket_step ::
  "bool \<Rightarrow> limiter \<Rightarrow> int64 \<times> int64 \<Rightarrow> bucket option \<Rightarrow> bool \<times> bucket" where
  "bucket_step fused l t b =
     consume_bucket fused (ratePerNano l) (burstSize l) (snd t)
       (case b of None \<Rightarrow> fresh_bucket (burstSize l) (fst t) | Some b \<Rightarrow> b)"

lemma limiter_params [simp]:
  "ratePerNano (snd (getOrCreate now ip l)) = ratePerNano l"
  "burstSize (snd (getOrCreate now ip l)) = burstSize l"
  "ratePerNano (snd (consume fused now b l)) = ratePerNano l"
  "burstSize (snd (consume fused now b l)) = burstSize l"
  by (simp_all add: getOrCreate_def consume_def Let_def split: option.splits prod.splits)

lemma Allow_split:
  "Allow fused t ip l =
     (case lookup ip l of Some b \<Rightarrow> consume fused (snd t) b l
      | None \<Rightarrow> consume fused (snd t) (fst (getOrCreate (fst t) ip l)) (snd (getOrCreate (fst t) ip l)))"
  by (simp add: Allow_def split: option.splits prod.splits)

lemma consume_result:
  "fst (consume fused now b l) =
     fst (consume_bucket fused (ratePerNano l) (burstSize l) now (heap l ! b))"
  by (simp add: consume_def split: prod.splits)

lemma Allow_ok: "limiter_ok l \<Longrightarrow> limiter_ok (snd (Allow fused t ip l))"
  by (auto simp: Allow_split consume_ok getOrCreate_ok split: option.splits)

lemma fresh_at:
  assumes "lookup ip l = None"
  shows "heap (snd (getOrCreate now ip l)) ! fst (getOrCreate now ip l) =
    fresh_bucket (burstSize l) now"
  by (simp add: getOrCreate_def assms Let_def)

lemma Allow_result:
  "limiter_ok l \<Longrightarrow> fst (Allow fused t ip l) = fst (bucket_step fused l t (view l ip))"
  by (auto simp: Allow_split consume_result bucket_step_def view_def fresh_at split: option.splits)

lemma Allow_view:
  assumes ok: "limiter_ok l"
  shows "view (snd (Allow fused t ip l)) ip' =
    (if ip' = ip then Some (snd (bucket_step fused l t (view l ip))) else view l ip')"
proof (cases "lookup ip l")
  case None
  let ?g = "getOrCreate (fst t) ip l"
  have "view (snd (consume fused (snd t) (fst ?g) (snd ?g))) ip' =
      (if ip' = ip then Some (snd (bucket_step fused l t None)) else view (snd ?g) ip')"
    using consume_view [OF getOrCreate_ok [OF ok None] getOrCreate_view(2) [OF ok None]] None
    by (simp add: fresh_at bucket_step_def)
  with None getOrCreate_view(1) [OF ok None] show ?thesis
    by (simp add: Allow_split) (simp add: view_def)
next
  case (Some b)
  have "bucket_step fused l t (view l ip) =
      consume_bucket fused (ratePerNano l) (burstSize l) (snd t) (heap l ! b)"
    by (simp add: bucket_step_def view_def Some)
  with Some consume_view [OF ok Some] show ?thesis by (simp add: Allow_split)
qed

lemma bucket_step_frame: "bucket_step fused (snd (Allow fused t ip l)) = bucket_step fused l"
  by (cases "lookup ip l") (simp_all add: fun_eq_iff bucket_step_def Allow_split cong: option.case_cong)

interpretation kl: keyed_limiter limiter_ok view "Allow fused" "bucket_step fused"
  for fused
  by unfold_locales (simp_all add: Allow_ok Allow_result Allow_view bucket_step_frame)

section \<open>The sweep evicts the idle buckets and nothing else\<close>

lemma map_of_filter_val:
  "distinct (map fst al) \<Longrightarrow> map_of (filter (\<lambda>(k, v). P v) al) k =
     (case map_of al k of None \<Rightarrow> None | Some v \<Rightarrow> if P v then Some v else None)"
  by (induction al) (auto split: option.splits, force simp: map_of_eq_None_iff)

lemma length_filter_delete:
  assumes "distinct (map fst al)" and "map_of al k = Some v"
  shows "length (filter P al) = (if P (k, v) then 1 else 0) + length (filter P (AList.delete k al))"
  using assms
proof (induction al)
  case (Cons x al)
  show ?case
  proof (cases "fst x = k")
    case True
    with Cons.prems have "k \<notin> fst ` set al" and "x = (k, v)" by (auto simp: prod_eq_iff)
    then show ?thesis by (simp add: delete_idem)
  qed (use Cons in \<open>auto split: prod.splits\<close>)
qed simp

lemma gc_delete_eq:
  assumes "i < length (shards l)" and "distinct (map fst (shards l ! i))" and "distinct ips"
  shows "gc_delete c i ips (l, n) =
    (l\<lparr>shards := (shards l)[i :=
       filter (\<lambda>(ip, b). \<not> (ip \<in> set ips \<and> idle c l b)) (shards l ! i)]\<rparr>,
     n + length (filter (\<lambda>(ip, b). ip \<in> set ips \<and> idle c l b) (shards l ! i)))"
  using assms
proof (induction ips arbitrary: l n)
  case Nil
  then show ?case by (simp add: case_prod_unfold)
next
  case (Cons ip ips)
  let ?s = "shards l ! i"
  have other: "(ip', b') \<in> set ?s \<Longrightarrow> ip' = ip \<Longrightarrow> map_of ?s ip = Some b'" for ip' b'
    using Cons.prems(2) by (simp add: map_of_eq_Some_iff)
  show ?case
  proof (cases "\<exists>b. map_of ?s ip = Some b \<and> idle c l b")
    case True
    then obtain b where b: "map_of ?s ip = Some b" "idle c l b" by blast
    let ?l = "l\<lparr>shards := (shards l)[i := AList.delete ip ?s]\<rparr>"
    have idle: "idle c ?l = idle c l" by (simp add: fun_eq_iff idle_def)
    have keep: "filter (\<lambda>(ip', b). \<not> (ip' \<in> set ips \<and> idle c l b)) (AList.delete ip ?s) =
        filter (\<lambda>(ip', b). \<not> (ip' \<in> set (ip # ips) \<and> idle c l b)) ?s"
      using other b by (auto simp: AList.delete_eq intro!: filter_cong)
    have "filter (\<lambda>(ip', b). ip' \<in> set ips \<and> idle c l b) (AList.delete ip ?s) =
        filter (\<lambda>(ip', b). ip' \<in> set (ip # ips) \<and> idle c l b) (AList.delete ip ?s)"
      by (auto simp: AList.delete_eq intro!: filter_cong)
    then have "length (filter (\<lambda>(ip', b). ip' \<in> set (ip # ips) \<and> idle c l b) ?s) =
        Suc (length (filter (\<lambda>(ip', b). ip' \<in> set ips \<and> idle c l b) (AList.delete ip ?s)))"
      using length_filter_delete [OF Cons.prems(2) b(1)] b(2) by simp
    with keep Cons.IH [of ?l "n + 1"] Cons.prems b show ?thesis
      by (simp add: idle distinct_delete del: set_simps)
  next
    case False
    have skip: "(ip' \<in> set (ip # ips) \<and> idle c l b) = (ip' \<in> set ips \<and> idle c l b)"
      if "(ip', b) \<in> set ?s" for ip' b
      using other [OF that] False that by auto
    have "gc_delete c i (ip # ips) (l, n) = gc_delete c i ips (l, n)"
      using False by (auto split: option.splits)
    moreover have "filter (\<lambda>(ip', b). \<not> (ip' \<in> set (ip # ips) \<and> idle c l b)) ?s =
        filter (\<lambda>(ip', b). \<not> (ip' \<in> set ips \<and> idle c l b)) ?s"
      and "filter (\<lambda>(ip', b). ip' \<in> set (ip # ips) \<and> idle c l b) ?s =
        filter (\<lambda>(ip', b). ip' \<in> set ips \<and> idle c l b) ?s"
      using skip by (auto simp del: set_simps intro!: filter_cong)
    ultimately show ?thesis using Cons by (simp del: set_simps gc_delete.simps)
  qed
qed

lemma gc_shard_eq:
  assumes "i < length (shards l)" and "distinct (map fst (shards l ! i))"
  shows "gc_shard c i (l, n) =
    (l\<lparr>shards := (shards l)[i := filter (\<lambda>(ip, b). \<not> idle c l b) (shards l ! i)]\<rparr>,
     n + length (filter (\<lambda>(ip, b). idle c l b) (shards l ! i)))"
proof -
  let ?s = "shards l ! i"
  have mem: "(ip \<in> set (gc_scan c i l) \<and> idle c l b) = idle c l b" if "(ip, b) \<in> set ?s" for ip b
    using that by (force simp: gc_scan_def)
  have "filter (\<lambda>(ip, b). \<not> (ip \<in> set (gc_scan c i l) \<and> idle c l b)) ?s =
      filter (\<lambda>(ip, b). \<not> idle c l b) ?s"
    and "filter (\<lambda>(ip, b). ip \<in> set (gc_scan c i l) \<and> idle c l b) ?s =
      filter (\<lambda>(ip, b). idle c l b) ?s"
    using mem by (auto intro!: filter_cong)
  moreover have "distinct (gc_scan c i l)"
    using assms(2) by (simp add: gc_scan_def distinct_map_filter)
  ultimately have "gc_delete c i (gc_scan c i l) (l, n) =
    (l\<lparr>shards := (shards l)[i := filter (\<lambda>(ip, b). \<not> idle c l b) ?s]\<rparr>,
     n + length (filter (\<lambda>(ip, b). idle c l b) ?s))"
    using gc_delete_eq [OF assms, of "gc_scan c i l" c n] by simp
  then show ?thesis
    by (cases "gc_scan c i l = []") (auto simp: gc_shard_def Let_def)
qed

lemma gc_shards_eq:
  assumes "limiter_ok l" and "m \<le> numShards"
  shows "fold (gc_shard c) [0 ..< m] (l, 0) =
    (l\<lparr>shards := map (filter (\<lambda>(ip, b). \<not> idle c l b)) (take m (shards l)) @ drop m (shards l)\<rparr>,
     sum_list (map (\<lambda>s. length (filter (\<lambda>(ip, b). idle c l b) s)) (take m (shards l))))"
  using assms(2)
proof (induction m)
  case (Suc m)
  let ?k = "filter (\<lambda>(ip, b). \<not> idle c l b)"
  let ?ss = "map ?k (take m (shards l)) @ drop m (shards l)"
  have m: "m < length (shards l)" using Suc.prems assms(1) by (simp add: limiter_ok_def)
  have nth: "?ss ! m = shards l ! m" using m by (simp add: nth_append)
  have dist: "distinct (map fst (shards l ! m))"
    using Suc.prems assms(1) by (simp add: limiter_ok_def shard_ok_def)
  have idle: "idle c (l\<lparr>shards := ss\<rparr>) = idle c l" for ss by (simp add: fun_eq_iff idle_def)
  have upd: "?ss[m := ?k (shards l ! m)] =
      map ?k (take (Suc m) (shards l)) @ drop (Suc m) (shards l)"
    using m by (simp add: list_update_append take_Suc_conv_app_nth Cons_nth_drop_Suc [symmetric])
  show ?case
    using Suc m dist gc_shard_eq [of m "l\<lparr>shards := ?ss\<rparr>" c]
    by (simp add: nth idle upd take_Suc_conv_app_nth [of m "shards l"])
qed simp

lemma runGC_eq:
  assumes "limiter_ok l"
  defines "c now \<equiv> now - bucketIdleTimeout"
  shows "runGC now l =
    (l\<lparr>shards := map (filter (\<lambda>(ip, b). \<not> idle (c now) l b)) (shards l)\<rparr>,
     sum_list (map (\<lambda>s. length (filter (\<lambda>(ip, b). idle (c now) l b) s)) (shards l)))"
  using gc_shards_eq [OF assms(1) order_refl, of "c now"] assms(1)
  by (simp add: runGC_def Let_def c_def limiter_ok_def)

lemma lookup_runGC:
  assumes "limiter_ok l"
  shows "lookup ip (fst (runGC now l)) =
    (case lookup ip l of None \<Rightarrow> None
     | Some b \<Rightarrow> if idle (now - bucketIdleTimeout) l b then None else Some b)"
proof -
  have s: "shard_for ip < length (shards l)" and d: "distinct (map fst (shards l ! shard_for ip))"
    using assms by (simp_all add: limiter_ok_def shard_ok_def)
  show ?thesis
    using map_of_filter_val [OF d, of "\<lambda>b. \<not> idle (now - bucketIdleTimeout) l b" ip] s
    by (simp add: runGC_eq [OF assms] lookup_def split: option.split)
qed

lemma runGC_ok:
  assumes ok: "limiter_ok l"
  shows "limiter_ok (fst (runGC now l))"
proof -
  have "shard_ok (fst (runGC now l)) i" if "i < numShards" for i
    using ok that
    by (auto simp: runGC_eq limiter_ok_def shard_ok_def list_all_iff distinct_map_filter)
  moreover have "ip = ip'" if "lookup ip (fst (runGC now l)) = Some b"
      "lookup ip' (fst (runGC now l)) = Some b" for ip ip' b
    using that ok by (auto simp: lookup_runGC limiter_ok_def split: option.splits if_splits)
  ultimately show ?thesis
    using ok by (auto simp: limiter_ok_def) (simp add: runGC_eq limiter_ok_def ok)
qed

lemma heap_runGC [simp]: "limiter_ok l \<Longrightarrow> heap (fst (runGC now l)) = heap l"
  by (simp add: runGC_eq)

lemma TrackedIPs_sum: "TrackedIPs (limiter_Stats oor l) = sum_list (map length (shards l))"
proof -
  have "fold (\<lambda>s total. total + length s) ss t = t + sum_list (map length ss)"
    for ss :: "shard list" and t by (induction ss arbitrary: t) simp_all
  then show ?thesis by (simp add: limiter_Stats_def)
qed

end
