(* ===== verification/Waiting_Room.thy ===== *)
theory Waiting_Room
  imports Go_Http Config "HOL-Library.Signed_Division"
begin

text \<open>
  The circuit breaker of \<open>src/waitingroom/waitingroom.go\<close>.  The first part is the wait page and the
  estimate shown on it.  The second is \<open>Middleware\<close> with \<open>releaseSlot\<close>, \<open>signalNext\<close> and
  \<open>drainTicket\<close> as a system of goroutines: each request is a goroutine with a program counter between
  the atomic operations of its code, each may start one helper goroutine, and a schedule is a list of
  events, one for every atomic operation on the counters, every channel operation and every choice of
  a \<open>select\<close>.
\<close>

section \<open>Formatting\<close>

text \<open>\<open>fmt.Sprintf\<close> with arguments already rendered: \<open>%s\<close> and \<open>%d\<close> take the next one, \<open>%%\<close> is a
  percent; every format of the source has as many arguments as verbs.\<close>

fun sprintf :: "bytes \<Rightarrow> bytes list \<Rightarrow> bytes" where
  "sprintf [] args = []"
| "sprintf (CHR ''%'' # c # f) args =
     (if c = CHR ''%'' then CHR ''%'' # sprintf f args
      else (case args of [] \<Rightarrow> sprintf f [] | a # as \<Rightarrow> a @ sprintf f as))"
| "sprintf (c # f) args = c # sprintf f args"

definition waitPageTemplate :: bytes where
  "waitPageTemplate =
     ''<!DOCTYPE html><html lang=\"en\"><head><meta charset=\"UTF-8\"><meta http-equiv='' @
     ''\"refresh\" content=\"5\"><meta name=\"viewport\" content=\"width=device-width,init'' @
     ''ial-scale=1\"><title>Please Wait '' @
     map char_of [0xE2, 0x80, 0x94 :: nat] @
     '' High Traffic</title><style>*{box-sizing:border-box;margin:0;padding:0}body{'' @
     ''font-family:system-ui,-apple-system,sans-serif;background:#0f172a;color:#e2e'' @
     ''8f0;display:flex;align-items:center;justify-content:center;min-height:100vh;'' @
     ''text-align:center;padding:1rem}.c{max-width:400px}.e{font-size:2.8rem;margin'' @
     ''-bottom:.6rem}h1{font-size:1.15rem;font-weight:600;margin-bottom:1rem}.m{col'' @
     ''or:#94a3b8;font-size:.9rem;margin-bottom:.4rem}.d{color:#94a3b8;font-size:.8'' @
     ''2rem;margin-bottom:1.2rem}.dots{display:flex;justify-content:center;gap:6px;'' @
     ''margin-bottom:1.2rem}.dot{width:9px;height:9px;border-radius:50%%;background'' @
     '':#38bdf8}@keyframes blink{0%%,100%%{opacity:.15}50%%{opacity:1}}.dot:nth-chi'' @
     ''ld(1){animation:blink 1.2s 0s infinite}.dot:nth-child(2){animation:blink 1.2'' @
     ''s .4s infinite}.dot:nth-child(3){animation:blink 1.2s .8s infinite}small{col'' @
     ''or:#475569;font-size:.73rem}</style></head><body><div class=\"c\"><div class=\"'' @
     ''e\">'' @
     map char_of [0xE2, 0x8F, 0xB3 :: nat] @
     ''</div><h1>High Traffic '' @
     map char_of [0xE2, 0x80, 0x94 :: nat] @
     '' Please Wait</h1><p class=\"m\">%s</p><p class=\"d\">%s</p><div class=\"dots\"><di'' @
     ''v class=\"dot\"></div><div class=\"dot\"></div><div class=\"dot\"></div></div><sma'' @
     ''ll>Auto-refreshes every 5 seconds. Please do not press F5 or reload.</small>'' @
     ''</div></body></html>''"

section \<open>The estimate\<close>

text \<open>\<open>d.Seconds()\<close> of a duration.\<close>

definition duration_seconds :: "int64 \<Rightarrow> f64" where
  "duration_seconds d =
     f64_of_int (sint d sdiv 1000000000) + f64_div_const (f64_of_int (sint d smod 1000000000)) 1000000000"

text \<open>
  A position is an \<open>int\<close>; \<open>oor\<close> is what the platform's conversion from float to \<open>int\<close> gives outside
  the range of \<open>int\<close>.
\<close>

definition estimateWait :: "(f64 \<Rightarrow> int) \<Rightarrow> config \<Rightarrow> int64 \<Rightarrow> int" where
  "estimateWait oor cfg pos =
     (if sint pos \<le> 0 then 5
      else
        let maxConc = (if sint (MaxConcurrent cfg) \<le> 0 then 1 else MaxConcurrent cfg);
            avgServiceTimeSec = f64_div_const (duration_seconds (BackendTimeout cfg)) 3;
            waves = sint (pos + maxConc - 1) sdiv sint maxConc;
            estimated = f64_to_int64 oor (f64_of_int waves * avgServiceTimeSec)
        in if estimated < 5 then 5 else estimated)"

section \<open>The wait page\<close>

datatype waitMode = modeQueued | modeQueueFull | modeTimeout

definition main_message :: "waitMode \<Rightarrow> int64 \<Rightarrow> bytes" where
  "main_message mode pos =
     (case mode of
        modeQueued \<Rightarrow>
          sprintf ''Queue position: <strong style=\"color:#38bdf8;font-size:1.4rem\">#%d</strong>'' [show_int (sint pos)]
      | modeQueueFull \<Rightarrow> ''The server is at full capacity right now.''
      | modeTimeout \<Rightarrow>
          sprintf ''Still waiting &mdash; queue position was <strong style=\"color:#38bdf8\">#%d</strong>.''
            [show_int (sint pos)])"

definition detail_message :: "(f64 \<Rightarrow> int) \<Rightarrow> config \<Rightarrow> waitMode \<Rightarrow> int64 \<Rightarrow> bytes" where
  "detail_message oor cfg mode pos =
     (case mode of
        modeQueued \<Rightarrow>
          sprintf ''Estimated wait: approximately %d seconds.'' [show_int (estimateWait oor cfg pos)]
      | modeQueueFull \<Rightarrow> ''You will be automatically redirected when a slot becomes available.''
      | modeTimeout \<Rightarrow>
          sprintf ''Estimated remaining wait: ~%d seconds. Holding your place.''
            [show_int (estimateWait oor cfg pos)])"

text \<open>The calls on the response writer, in order.\<close>

definition serveWaitPage :: "(f64 \<Rightarrow> int) \<Rightarrow> config \<Rightarrow> int64 \<Rightarrow> waitMode \<Rightarrow> rw_call list" where
  "serveWaitPage oor cfg pos mode =
     [HeaderSet ''Content-Type'' ''text/html; charset=utf-8'',
      HeaderSet ''Cache-Control'' ''no-store, no-cache, must-revalidate, max-age=0'',
      HeaderSet ''Pragma'' ''no-cache'',
      HeaderSet ''X-PeakShield-Queue'' ''1'',
      HeaderSet ''X-Robots-Tag'' ''noindex, nofollow'',
      WriteHeader 503,
      Write (sprintf waitPageTemplate [main_message mode pos, detail_message oor cfg mode pos])]"

definition retry_after :: "(f64 \<Rightarrow> int) \<Rightarrow> config \<Rightarrow> int64 \<Rightarrow> rw_call" where
  "retry_after oor cfg pos = HeaderSet ''Retry-After'' (show_int (estimateWait oor cfg pos))"

section \<open>Go channels\<close>

text \<open>
  A buffered channel is the list of what it holds; a non-blocking send or receive that cannot proceed
  is \<open>None\<close>.  The interface says what both do to the contents; its lemma is the order of a FIFO.
\<close>

locale fifo_channel =
  fixes items :: "'c \<Rightarrow> 'x list"
    and send :: "'x \<Rightarrow> 'c \<Rightarrow> 'c option"
    and recv :: "'c \<Rightarrow> ('x \<times> 'c) option"
  assumes send_items: "send x c = Some c' \<Longrightarrow> items c' = items c @ [x]"
    and recv_items: "recv c = Some (x, c') \<Longrightarrow> items c = x # items c'"
    and recv_none: "recv c = None \<Longrightarrow> items c = []"
begin

text \<open>A history of one channel: the values sent and those received.\<close>

inductive history :: "'c \<Rightarrow> 'x list \<Rightarrow> 'x list \<Rightarrow> 'c \<Rightarrow> bool" for c0 :: 'c where
  hist_nil: "history c0 [] [] c0"
| hist_send: "history c0 xs ys c \<Longrightarrow> send x c = Some c' \<Longrightarrow> history c0 (xs @ [x]) ys c'"
| hist_recv: "history c0 xs ys c \<Longrightarrow> recv c = Some (y, c') \<Longrightarrow> history c0 xs (ys @ [y]) c'"

lemma fifo: "history c0 xs ys c \<Longrightarrow> items c0 @ xs = ys @ items c"
proof (induction rule: history.induct)
  case (hist_send xs ys c x c')
  then show ?case using send_items [of x c c'] by (metis append.assoc)
next
  case (hist_recv xs ys c y c')
  then show ?case using recv_items [of c y c'] by simp
qed simp

end

definition chan_send :: "nat \<Rightarrow> 'x \<Rightarrow> 'x list \<Rightarrow> 'x list option" where
  "chan_send cap x c = (if length c < cap then Some (c @ [x]) else None)"

fun chan_recv :: "'x list \<Rightarrow> ('x \<times> 'x list) option" where
  "chan_recv [] = None"
| "chan_recv (x # c) = Some (x, c)"

interpretation ch: fifo_channel "\<lambda>c. c" "chan_send cap" chan_recv for cap
  by unfold_locales (auto simp: chan_send_def elim: chan_recv.elims split: if_splits)

section \<open>The goroutines\<close>

text \<open>
  Where a request's goroutine is in \<open>Middleware\<close>, named for the operation it has done last, with the
  values its local variables hold; \<open>bool\<close> in \<open>Serving\<close>, \<open>Releasing\<close> and \<open>Handing\<close> tells a request
  admitted from the queue from one admitted directly.
\<close>

datatype outcome = Served bool | FullPage | TimeoutPage | Vanished | AdmittedGone

datatype pc =
  Arriving
| Over
| Undone
| Positioned int64
| Rejected int64
| Parked int64
| Signalled int64
| Resumed int64
| Claiming int64
| Serving bool
| Releasing bool
| Handing bool nat
| Done outcome

text \<open>
  The goroutine a request may start: \<open>drainTicket\<close> on its own ticket, or \<open>signalNext\<close>.
\<close>

datatype helper =
  NoHelper
| Draining
| DrainSignalled
| DrainExpired
| Forwarding
| HelperHanding nat
| HelperDone

text \<open>
  The shared state: the two counters, the queue of tickets (a ticket is named by the request that
  made it) and every ticket's one-place buffer; then the goroutines, whether a request's context is
  cancelled, and the calls the middleware has made on its response writer.
\<close>

record room =
  activeRequests :: int64
  queueDepth :: int64
  queue :: "nat list"
  ticket :: "nat \<Rightarrow> unit list"
  pc :: "nat \<Rightarrow> pc"
  helper :: "nat \<Rightarrow> helper"
  gone :: "nat \<Rightarrow> bool"
  calls :: "nat \<Rightarrow> rw_call list"

definition new_room :: room where
  "new_room =
     \<lparr>activeRequests = 0, queueDepth = 0, queue = [], ticket = (\<lambda>_. []), pc = (\<lambda>_. Arriving),
      helper = (\<lambda>_. NoHelper), gone = (\<lambda>_. False), calls = (\<lambda>_. [])\<rparr>"

text \<open>
  \<open>New\<close>: \<open>make\<close> panics if the channel's buffer, a pointer for each place, does not fit the address space, which
  has 48 bits on the 64-bit platforms.
\<close>

definition chan_fits :: "int64 \<Rightarrow> bool" where
  "chan_fits n \<longleftrightarrow> 0 \<le> sint n \<and> 8 * sint n \<le> 2 ^ 48 - 96"

definition new_waiting_room :: "config \<Rightarrow> room option" where
  "new_waiting_room cfg = (if chan_fits (QueueSize cfg) then Some new_room else None)"

definition goto :: "nat \<Rightarrow> pc \<Rightarrow> room \<Rightarrow> room" where
  "goto g p s = s\<lparr>pc := (pc s)(g := p)\<rparr>"

definition helped :: "nat \<Rightarrow> helper \<Rightarrow> room \<Rightarrow> room" where
  "helped g h s = s\<lparr>helper := (helper s)(g := h)\<rparr>"

definition respond :: "nat \<Rightarrow> rw_call list \<Rightarrow> room \<Rightarrow> room" where
  "respond g cs s = s\<lparr>calls := (calls s)(g := calls s g @ cs)\<rparr>"

text \<open>\<open>atomic.AddInt64\<close> on the two counters.\<close>

definition add_active :: "int64 \<Rightarrow> room \<Rightarrow> room" where
  "add_active d s = s\<lparr>activeRequests := activeRequests s + d\<rparr>"

definition add_depth :: "int64 \<Rightarrow> room \<Rightarrow> room" where
  "add_depth d s = s\<lparr>queueDepth := queueDepth s + d\<rparr>"

section \<open>Events\<close>

text \<open>Who runs \<open>signalNext\<close>: a request leaving (\<open>releaseSlot\<close>), or a helper.\<close>

datatype actor = Req nat | Aux nat

datatype event =
  Arrive nat
| Undo nat
| TakePosition nat
| Enqueue nat
| QueueFull nat
| GiveUp nat
| ReceiveTicket nat
| QueueTimeoutE nat
| ContextDone nat
| LeaveQueue nat
| CheckContext nat
| Claim nat
| Release nat
| Dequeue actor nat
| QueueEmpty actor
| SendTicket actor
| DrainReceive nat
| DrainTimeout nat
| DrainLeave nat
| Disconnect nat

text \<open>
  \<open>releaseSlot\<close> up to its call of \<open>signalNext\<close>.  It is deferred: the event \<open>Release\<close> stands for the return of
  \<open>next.ServeHTTP\<close> as for its panic.
\<close>

definition releaseSlot :: "nat \<Rightarrow> bool \<Rightarrow> room \<Rightarrow> room" where
  "releaseSlot g q s = goto g (Releasing q) (add_active (- 1) s)"

text \<open>An actor about to run \<open>signalNext\<close>, one that holds the ticket it received, and the moves between.\<close>

definition signalling :: "actor \<Rightarrow> room \<Rightarrow> bool" where
  "signalling a s =
     (case a of
        Req g \<Rightarrow> (case pc s g of Releasing q \<Rightarrow> True | _ \<Rightarrow> False)
      | Aux g \<Rightarrow> helper s g = Forwarding)"

definition holding :: "actor \<Rightarrow> room \<Rightarrow> nat option" where
  "holding a s =
     (case a of
        Req g \<Rightarrow> (case pc s g of Handing q t \<Rightarrow> Some t | _ \<Rightarrow> None)
      | Aux g \<Rightarrow> (case helper s g of HelperHanding t \<Rightarrow> Some t | _ \<Rightarrow> None))"

definition hold :: "actor \<Rightarrow> nat \<Rightarrow> room \<Rightarrow> room" where
  "hold a t s =
     (case a of
        Req g \<Rightarrow> (case pc s g of Releasing q \<Rightarrow> goto g (Handing q t) s | _ \<Rightarrow> s)
      | Aux g \<Rightarrow> helped g (HelperHanding t) s)"

definition finish :: "actor \<Rightarrow> room \<Rightarrow> room" where
  "finish a s =
     (case a of
        Req g \<Rightarrow>
          (case pc s g of
             Releasing q \<Rightarrow> goto g (Done (Served q)) s
           | Handing q t \<Rightarrow> goto g (Done (Served q)) s
           | _ \<Rightarrow> s)
      | Aux g \<Rightarrow> helped g HelperDone s)"

text \<open>
  One event, \<open>None\<close> when it cannot happen in the state.  A timer may fire at any time after it is
  set, so its events are always possible where the code waits on it.
\<close>

fun fire :: "(f64 \<Rightarrow> int) \<Rightarrow> config \<Rightarrow> event \<Rightarrow> room \<Rightarrow> room option" where
  "fire oor cfg (Arrive g) s =
     (if pc s g = Arriving
      then (let s' = add_active 1 s
            in Some (goto g (if sint (activeRequests s') \<le> sint (MaxConcurrent cfg)
                           then Serving False else Over) s'))
      else None)"
| "fire oor cfg (Undo g) s =
     (if pc s g = Over then Some (goto g Undone (add_active (- 1) s)) else None)"
| "fire oor cfg (TakePosition g) s =
     (if pc s g = Undone
      then (let s' = add_depth 1 s in Some (goto g (Positioned (queueDepth s')) s'))
      else None)"
| "fire oor cfg (Enqueue g) s =
     (case pc s g of
        Positioned p \<Rightarrow>
          (case chan_send (unat (QueueSize cfg)) g (queue s) of
             Some q \<Rightarrow> Some (respond g [retry_after oor cfg p] (goto g (Parked p) (s\<lparr>queue := q\<rparr>)))
           | None \<Rightarrow> None)
      | _ \<Rightarrow> None)"
| "fire oor cfg (QueueFull g) s =
     (case pc s g of
        Positioned p \<Rightarrow>
          (case chan_send (unat (QueueSize cfg)) g (queue s) of
             Some q \<Rightarrow> None
           | None \<Rightarrow> Some (goto g (Rejected p) s))
      | _ \<Rightarrow> None)"
| "fire oor cfg (GiveUp g) s =
     (case pc s g of
        Rejected p \<Rightarrow>
          Some (respond g (retry_after oor cfg p # serveWaitPage oor cfg 0 modeQueueFull)
                 (goto g (Done FullPage) (add_depth (- 1) s)))
      | _ \<Rightarrow> None)"
| "fire oor cfg (ReceiveTicket g) s =
     (case pc s g of
        Parked p \<Rightarrow>
          (case chan_recv (ticket s g) of
             Some (u, b) \<Rightarrow> Some (goto g (Signalled p) (s\<lparr>ticket := (ticket s)(g := b)\<rparr>))
           | None \<Rightarrow> None)
      | _ \<Rightarrow> None)"
| "fire oor cfg (QueueTimeoutE g) s =
     (case pc s g of
        Parked p \<Rightarrow>
          Some (respond g (serveWaitPage oor cfg p modeTimeout)
                 (goto g (Done TimeoutPage) (helped g Draining s)))
      | _ \<Rightarrow> None)"
| "fire oor cfg (ContextDone g) s =
     (case pc s g of
        Parked p \<Rightarrow>
          if gone s g then Some (goto g (Done Vanished) (helped g Draining s)) else None
      | _ \<Rightarrow> None)"
| "fire oor cfg (LeaveQueue g) s =
     (case pc s g of
        Signalled p \<Rightarrow> Some (goto g (Resumed p) (add_depth (- 1) s))
      | _ \<Rightarrow> None)"
| "fire oor cfg (CheckContext g) s =
     (case pc s g of
        Resumed p \<Rightarrow>
          if gone s g then Some (goto g (Done AdmittedGone) (helped g Forwarding s))
          else Some (goto g (Claiming p) s)
      | _ \<Rightarrow> None)"
| "fire oor cfg (Claim g) s =
     (case pc s g of
        Claiming p \<Rightarrow> Some (goto g (Serving True) (add_active 1 s))
      | _ \<Rightarrow> None)"
| "fire oor cfg (Release g) s =
     (case pc s g of
        Serving q \<Rightarrow> Some (releaseSlot g q s)
      | _ \<Rightarrow> None)"
| "fire oor cfg (Dequeue a t) s =
     (if signalling a s
      then (case chan_recv (queue s) of
              Some (t', q) \<Rightarrow> if t' = t then Some (hold a t (s\<lparr>queue := q\<rparr>)) else None
            | None \<Rightarrow> None)
      else None)"
| "fire oor cfg (QueueEmpty a) s =
     (if signalling a s
      then (case chan_recv (queue s) of Some x \<Rightarrow> None | None \<Rightarrow> Some (finish a s))
      else None)"
| "fire oor cfg (SendTicket a) s =
     (case holding a s of
        Some t \<Rightarrow>
          (case chan_send 1 () (ticket s t) of
             Some b \<Rightarrow> Some (finish a (s\<lparr>ticket := (ticket s)(t := b)\<rparr>))
           | None \<Rightarrow> None)
      | None \<Rightarrow> None)"
| "fire oor cfg (DrainReceive g) s =
     (if helper s g = Draining
      then (case chan_recv (ticket s g) of
              Some (u, b) \<Rightarrow> Some (helped g DrainSignalled (s\<lparr>ticket := (ticket s)(g := b)\<rparr>))
            | None \<Rightarrow> None)
      else None)"
| "fire oor cfg (DrainTimeout g) s =
     (if helper s g = Draining then Some (helped g DrainExpired s) else None)"
| "fire oor cfg (DrainLeave g) s =
     (case helper s g of
        DrainSignalled \<Rightarrow> Some (helped g Forwarding (add_depth (- 1) s))
      | DrainExpired \<Rightarrow> Some (helped g HelperDone (add_depth (- 1) s))
      | _ \<Rightarrow> None)"
| "fire oor cfg (Disconnect g) s = (if gone s g then None else Some (s\<lparr>gone := (gone s)(g := True)\<rparr>))"

text \<open>The reachable states, with the schedule that leads there.\<close>

inductive runs :: "(f64 \<Rightarrow> int) \<Rightarrow> config \<Rightarrow> event list \<Rightarrow> room \<Rightarrow> bool"
  for oor :: "f64 \<Rightarrow> int" and cfg :: config where
  runs_nil: "runs oor cfg [] new_room"
| runs_snoc: "runs oor cfg es s \<Longrightarrow> fire oor cfg e s = Some s' \<Longrightarrow> runs oor cfg (es @ [e]) s'"

inductive_cases runs_snocE: "runs oor cfg (es @ [e]) s"

fun exec :: "(f64 \<Rightarrow> int) \<Rightarrow> config \<Rightarrow> event list \<Rightarrow> room \<Rightarrow> room option" where
  "exec oor cfg [] s = Some s"
| "exec oor cfg (e # es) s =
     (case fire oor cfg e s of None \<Rightarrow> None | Some s' \<Rightarrow> exec oor cfg es s')"

section \<open>Observability\<close>

definition ActiveRequests :: "room \<Rightarrow> int64" where "ActiveRequests s = activeRequests s"

definition QueueDepth :: "room \<Rightarrow> int64" where "QueueDepth s = queueDepth s"

record room_stats =
  StActiveRequests :: int64
  StQueueDepth :: int64
  StMaxConcurrent :: int64
  StQueueCapacity :: int64

definition GetStats :: "config \<Rightarrow> room \<Rightarrow> room_stats" where
  "GetStats cfg s =
     \<lparr>StActiveRequests = activeRequests s, StQueueDepth = queueDepth s,
      StMaxConcurrent = MaxConcurrent cfg, StQueueCapacity = QueueSize cfg\<rparr>"

end
