(* ===== verification/Room_Inv.thy ===== *)
theory Room_Inv
  imports Waiting_Room
begin

text \<open>
  The invariants of the waiting room, over all schedules: the two counters are the numbers of
  goroutines they should count, a ticket is in one place at a time, and the queue respects its
  capacity.  Each is proved to be kept by every event.
\<close>

section \<open>What each operation touches\<close>

lemma room_fields [simp]:
  "activeRequests (goto g p s) = activeRequests s" "queueDepth (goto g p s) = queueDepth s"
  "queue (goto g p s) = queue s" "ticket (goto g p s) = ticket s" "gone (goto g p s) = gone s"
  "helper (goto g p s) = helper s" "calls (goto g p s) = calls s" "pc (goto g p s) = (pc s)(g := p)"
  "activeRequests (helped g h s) = activeRequests s" "queueDepth (helped g h s) = queueDepth s"
  "queue (helped g h s) = queue s" "ticket (helped g h s) = ticket s" "gone (helped g h s) = gone s"
  "pc (helped g h s) = pc s" "calls (helped g h s) = calls s"
  "helper (helped g h s) = (helper s)(g := h)"
  "activeRequests (respond g cs s) = activeRequests s" "queueDepth (respond g cs s) = queueDepth s"
  "queue (respond g cs s) = queue s" "ticket (respond g cs s) = ticket s"
  "gone (respond g cs s) = gone s" "pc (respond g cs s) = pc s" "helper (respond g cs s) = helper s"
  "calls (respond g cs s) = (calls s)(g := calls s g @ cs)"
  by (simp_all add: goto_def helped_def respond_def)

lemma counter_fields [simp]:
  "activeRequests (add_active d s) = activeRequests s + d" "queueDepth (add_active d s) = queueDepth s"
  "queue (add_active d s) = queue s" "ticket (add_active d s) = ticket s"
  "gone (add_active d s) = gone s" "pc (add_active d s) = pc s" "helper (add_active d s) = helper s"
  "calls (add_active d s) = calls s"
  "activeRequests (add_depth d s) = activeRequests s" "queueDepth (add_depth d s) = queueDepth s + d"
  "queue (add_depth d s) = queue s" "ticket (add_depth d s) = ticket s"
  "gone (add_depth d s) = gone s" "pc (add_depth d s) = pc s" "helper (add_depth d s) = helper s"
  "calls (add_depth d s) = calls s"
  by (simp_all add: add_active_def add_depth_def)

lemma chan_send_Some: "chan_send n x c = Some c' \<longleftrightarrow> length c < n \<and> c' = c @ [x]"
  by (auto simp: chan_send_def)

lemma chan_send_None: "chan_send n x c = None \<longleftrightarrow> n \<le> length c"
  by (simp add: chan_send_def)

lemma chan_recv_Some: "chan_recv c = Some (x, c') \<longleftrightarrow> c = x # c'"
  by (cases c) auto

lemma chan_recv_None: "chan_recv c = None \<longleftrightarrow> c = []"
  by (cases c) auto

lemmas chan_simps = chan_send_Some chan_send_None chan_recv_Some chan_recv_None

text \<open>The cases of an event that happened, as equations for the new state.\<close>

lemmas fire_cases = releaseSlot_def Let_def chan_simps
lemmas actor_defs = signalling_def holding_def hold_def finish_def

section \<open>Events as a step relation\<close>

text \<open>What \<open>fire\<close> does, one rule for every branch: the form the invariants are proved over.\<close>

inductive room_step :: "(f64 \<Rightarrow> int) \<Rightarrow> config \<Rightarrow> room \<Rightarrow> event \<Rightarrow> room \<Rightarrow> bool"
  for oor :: "f64 \<Rightarrow> int" and cfg :: config and s :: room where
  st_direct: "pc s g = Arriving \<Longrightarrow> sint (activeRequests s + 1) \<le> sint (MaxConcurrent cfg) \<Longrightarrow>
    room_step oor cfg s (Arrive g) (goto g (Serving False) (add_active 1 s))"
| st_over: "pc s g = Arriving \<Longrightarrow> sint (MaxConcurrent cfg) < sint (activeRequests s + 1) \<Longrightarrow>
    room_step oor cfg s (Arrive g) (goto g Over (add_active 1 s))"
| st_undo: "pc s g = Over \<Longrightarrow> room_step oor cfg s (Undo g) (goto g Undone (add_active (- 1) s))"
| st_position: "pc s g = Undone \<Longrightarrow>
    room_step oor cfg s (TakePosition g) (goto g (Positioned (queueDepth s + 1)) (add_depth 1 s))"
| st_enqueue: "pc s g = Positioned p \<Longrightarrow> length (queue s) < unat (QueueSize cfg) \<Longrightarrow>
    room_step oor cfg s (Enqueue g)
      (respond g [retry_after oor cfg p] (goto g (Parked p) (s\<lparr>queue := queue s @ [g]\<rparr>)))"
| st_full: "pc s g = Positioned p \<Longrightarrow> unat (QueueSize cfg) \<le> length (queue s) \<Longrightarrow>
    room_step oor cfg s (QueueFull g) (goto g (Rejected p) s)"
| st_give_up: "pc s g = Rejected p \<Longrightarrow>
    room_step oor cfg s (GiveUp g)
      (respond g (retry_after oor cfg p # serveWaitPage oor cfg 0 modeQueueFull)
        (goto g (Done FullPage) (add_depth (- 1) s)))"
| st_receive: "pc s g = Parked p \<Longrightarrow> ticket s g = u # b \<Longrightarrow>
    room_step oor cfg s (ReceiveTicket g) (goto g (Signalled p) (s\<lparr>ticket := (ticket s)(g := b)\<rparr>))"
| st_timeout: "pc s g = Parked p \<Longrightarrow>
    room_step oor cfg s (QueueTimeoutE g)
      (respond g (serveWaitPage oor cfg p modeTimeout) (goto g (Done TimeoutPage) (helped g Draining s)))"
| st_context: "pc s g = Parked p \<Longrightarrow> gone s g \<Longrightarrow>
    room_step oor cfg s (ContextDone g) (goto g (Done Vanished) (helped g Draining s))"
| st_leave: "pc s g = Signalled p \<Longrightarrow>
    room_step oor cfg s (LeaveQueue g) (goto g (Resumed p) (add_depth (- 1) s))"
| st_check_gone: "pc s g = Resumed p \<Longrightarrow> gone s g \<Longrightarrow>
    room_step oor cfg s (CheckContext g) (goto g (Done AdmittedGone) (helped g Forwarding s))"
| st_check: "pc s g = Resumed p \<Longrightarrow> \<not> gone s g \<Longrightarrow>
    room_step oor cfg s (CheckContext g) (goto g (Claiming p) s)"
| st_claim: "pc s g = Claiming p \<Longrightarrow>
    room_step oor cfg s (Claim g) (goto g (Serving True) (add_active 1 s))"
| st_release: "pc s g = Serving q \<Longrightarrow>
    room_step oor cfg s (Release g) (goto g (Releasing q) (add_active (- 1) s))"
| st_dequeue: "pc s g = Releasing q \<Longrightarrow> queue s = t # ts \<Longrightarrow>
    room_step oor cfg s (Dequeue (Req g) t) (goto g (Handing q t) (s\<lparr>queue := ts\<rparr>))"
| st_dequeue_aux: "helper s g = Forwarding \<Longrightarrow> queue s = t # ts \<Longrightarrow>
    room_step oor cfg s (Dequeue (Aux g) t) (helped g (HelperHanding t) (s\<lparr>queue := ts\<rparr>))"
| st_empty: "pc s g = Releasing q \<Longrightarrow> queue s = [] \<Longrightarrow>
    room_step oor cfg s (QueueEmpty (Req g)) (goto g (Done (Served q)) s)"
| st_empty_aux: "helper s g = Forwarding \<Longrightarrow> queue s = [] \<Longrightarrow>
    room_step oor cfg s (QueueEmpty (Aux g)) (helped g HelperDone s)"
| st_send: "pc s g = Handing q t \<Longrightarrow> ticket s t = [] \<Longrightarrow>
    room_step oor cfg s (SendTicket (Req g))
      (goto g (Done (Served q)) (s\<lparr>ticket := (ticket s)(t := [()])\<rparr>))"
| st_send_aux: "helper s g = HelperHanding t \<Longrightarrow> ticket s t = [] \<Longrightarrow>
    room_step oor cfg s (SendTicket (Aux g)) (helped g HelperDone (s\<lparr>ticket := (ticket s)(t := [()])\<rparr>))"
| st_drain: "helper s g = Draining \<Longrightarrow> ticket s g = u # b \<Longrightarrow>
    room_step oor cfg s (DrainReceive g) (helped g DrainSignalled (s\<lparr>ticket := (ticket s)(g := b)\<rparr>))"
| st_drain_timeout: "helper s g = Draining \<Longrightarrow>
    room_step oor cfg s (DrainTimeout g) (helped g DrainExpired s)"
| st_drain_leave: "helper s g = DrainSignalled \<Longrightarrow>
    room_step oor cfg s (DrainLeave g) (helped g Forwarding (add_depth (- 1) s))"
| st_drain_expired: "helper s g = DrainExpired \<Longrightarrow>
    room_step oor cfg s (DrainLeave g) (helped g HelperDone (add_depth (- 1) s))"
| st_disconnect: "\<not> gone s g \<Longrightarrow>
    room_step oor cfg s (Disconnect g) (s\<lparr>gone := (gone s)(g := True)\<rparr>)"

lemma step_fire: "room_step oor cfg s e s' \<Longrightarrow> fire oor cfg e s = Some s'"
  by (induction rule: room_step.induct)
    (auto simp: releaseSlot_def Let_def chan_send_def chan_recv_None signalling_def holding_def
      hold_def finish_def)

lemma fire_step: "fire oor cfg e s = Some s' \<Longrightarrow> room_step oor cfg s e s'"
  by (cases e)
    (auto simp: fire_cases actor_defs intro: room_step.intros
      split: if_splits option.splits pc.splits helper.splits actor.splits)

lemma fire_iff_step: "fire oor cfg e s = Some s' \<longleftrightarrow> room_step oor cfg s e s'"
  using step_fire fire_step by blast

inductive_cases step_ArriveE: "room_step oor cfg s (Arrive g) s'"
inductive_cases step_ReleaseE: "room_step oor cfg s (Release g) s'"

section \<open>Helpers only for requests that are done\<close>

definition helper_ok :: "room \<Rightarrow> bool" where
  "helper_ok s \<longleftrightarrow> (\<forall>g. (\<forall>c. pc s g \<noteq> Done c) \<longrightarrow> helper s g = NoHelper)"

lemma helper_ok_step: "room_step oor cfg s e s' \<Longrightarrow> helper_ok s \<Longrightarrow> helper_ok s'"
  by (induction rule: room_step.induct) (auto simp: helper_ok_def)

section \<open>The counters\<close>

text \<open>Who is counted in \<open>activeRequests\<close>, and who in \<open>queueDepth\<close>.\<close>

fun counted :: "pc \<Rightarrow> bool" where
  "counted Over = True" | "counted (Serving q) = True" | "counted _ = False"

fun positioned :: "pc \<Rightarrow> bool" where
  "positioned (Positioned p) = True" | "positioned (Rejected p) = True"
| "positioned (Parked p) = True" | "positioned (Signalled p) = True" | "positioned _ = False"

fun draining :: "helper \<Rightarrow> bool" where
  "draining Draining = True" | "draining DrainSignalled = True" | "draining DrainExpired = True"
| "draining _ = False"

definition finite_room :: "room \<Rightarrow> bool" where
  "finite_room s \<longleftrightarrow> finite {g. pc s g \<noteq> Arriving} \<and> finite {g. helper s g \<noteq> NoHelper}"

lemma finite_room_step: "room_step oor cfg s e s' \<Longrightarrow> finite_room s \<Longrightarrow> finite_room s'"
  by (induction rule: room_step.induct)
    (auto simp: finite_room_def finite_upd_set [where P = "\<lambda>x. x \<noteq> _"] simp del: fun_upd_apply)

lemma finite_pred:
  assumes "finite_room s"
  shows "\<not> P Arriving \<Longrightarrow> finite {g. P (pc s g)}" and "\<not> Q NoHelper \<Longrightarrow> finite {g. Q (helper s g)}"
proof -
  show "finite {g. P (pc s g)}" if "\<not> P Arriving"
    by (rule finite_subset [of _ "{g. pc s g \<noteq> Arriving}"]) (use that assms in \<open>auto simp: finite_room_def\<close>)
  show "finite {g. Q (helper s g)}" if "\<not> Q NoHelper"
    by (rule finite_subset [of _ "{g. helper s g \<noteq> NoHelper}"])
      (use that assms in \<open>auto simp: finite_room_def\<close>)
qed

text \<open>How many goroutines are at a place of a kind, after one of them moved.\<close>

lemma occ_pc_upd:
  assumes "finite_room s" and "\<not> P Arriving"
  shows "occ P ((pc s)(g := p)) = occ P (pc s) - of_bool (P (pc s g)) + of_bool (P p)"
  using finite_pred(1) [where P = P, OF assms] by (rule occ_upd)

lemma occ_helper_upd:
  assumes "finite_room s" and "\<not> Q NoHelper"
  shows "occ Q ((helper s)(g := h)) = occ Q (helper s) - of_bool (Q (helper s g)) + of_bool (Q h)"
  using finite_pred(2) [where Q = Q, OF assms] by (rule occ_upd)

definition counters_ok :: "room \<Rightarrow> bool" where
  "counters_ok s \<longleftrightarrow>
     activeRequests s = of_int (occ counted (pc s)) \<and>
     queueDepth s = of_int (occ positioned (pc s) + occ draining (helper s))"

lemma counters_ok_step:
  assumes step: "room_step oor cfg s e s'" and fin: "finite_room s" and hok: "helper_ok s"
    and ok: "counters_ok s"
  shows "counters_ok s'"
proof -
  have nh: "helper s g = NoHelper" if "\<And>c. pc s g \<noteq> Done c" for g
    using hok that by (simp add: helper_ok_def)
  from step ok show ?thesis
    by cases (simp_all add: counters_ok_def occ_pc_upd [OF fin] occ_helper_upd [OF fin] nh)
qed

section \<open>Every ticket is in one place\<close>

text \<open>
  The places a ticket, or the signal it stands for, can be: the queue, the hands of a goroutine that
  dequeued it, its own buffer.
\<close>

fun pc_holds :: "nat \<Rightarrow> pc \<Rightarrow> bool" where
  "pc_holds t (Handing q t') = (t' = t)" | "pc_holds t _ = False"

fun helper_holds :: "nat \<Rightarrow> helper \<Rightarrow> bool" where
  "helper_holds t (HelperHanding t') = (t' = t)" | "helper_holds t _ = False"

definition places :: "room \<Rightarrow> nat \<Rightarrow> int" where
  "places s t =
     int (count_list (queue s) t) + occ (pc_holds t) (pc s) + occ (helper_holds t) (helper s) +
     int (length (ticket s t))"

definition waiting :: "room \<Rightarrow> nat \<Rightarrow> bool" where
  "waiting s t \<longleftrightarrow> (\<exists>p. pc s t = Parked p) \<or> helper s t = Draining"

definition dead :: "room \<Rightarrow> nat \<Rightarrow> bool" where
  "dead s t \<longleftrightarrow> helper s t = DrainExpired \<or> helper s t = HelperDone"

definition tickets_ok :: "room \<Rightarrow> bool" where
  "tickets_ok s \<longleftrightarrow>
     (\<forall>t. if waiting s t then places s t = 1 else if dead s t then places s t \<le> 1 else places s t = 0)"

lemma count_list_snoc [simp]: "count_list (xs @ [x]) y = count_list xs y + of_bool (x = y)"
  by (induction xs) auto

lemma places_nonneg:
  "0 \<le> occ (pc_holds t) (pc s)" "0 \<le> occ (helper_holds t) (helper s)"
  by simp_all

lemma tickets_ok_step:
  assumes step: "room_step oor cfg s e s'" and fin: "finite_room s" and hok: "helper_ok s"
    and ok: "tickets_ok s"
  shows "tickets_ok s'"
proof -
  have nh: "helper s g = NoHelper" if "\<And>c. pc s g \<noteq> Done c" for g
    using hok that by (simp add: helper_ok_def)
  note defs = places_def waiting_def dead_def
  have "if waiting s' t then places s' t = 1 else if dead s' t then places s' t \<le> 1 else places s' t = 0" for t
  proof -
    have t: "if waiting s t then places s t = 1 else if dead s t then places s t \<le> 1 else places s t = 0"
      using ok by (simp add: tickets_ok_def)
    from step show ?thesis
      by cases (use t in \<open>auto simp: defs occ_pc_upd [OF fin] occ_helper_upd [OF fin] nh split: if_splits\<close>)
  qed
  then show ?thesis by (simp add: tickets_ok_def)
qed

lemma places_le_1: "tickets_ok s \<Longrightarrow> places s t \<le> 1"
  unfolding tickets_ok_def by (drule spec [of _ t]) (simp split: if_splits)

section \<open>All invariants together\<close>

definition room_ok :: "config \<Rightarrow> room \<Rightarrow> bool" where
  "room_ok cfg s \<longleftrightarrow>
     finite_room s \<and> helper_ok s \<and> counters_ok s \<and> tickets_ok s \<and>
     length (queue s) \<le> unat (QueueSize cfg)"

lemma room_ok_new: "room_ok cfg new_room"
  by (simp add: room_ok_def finite_room_def helper_ok_def counters_ok_def tickets_ok_def new_room_def
      occ_def places_def waiting_def dead_def)

lemma queue_bound_step:
  "room_step oor cfg s e s' \<Longrightarrow> length (queue s) \<le> unat (QueueSize cfg) \<Longrightarrow>
     length (queue s') \<le> unat (QueueSize cfg)"
  by (induction rule: room_step.induct) auto

lemma room_ok_step:
  assumes step: "room_step oor cfg s e s'" and ok: "room_ok cfg s"
  shows "room_ok cfg s'"
  using ok finite_room_step [OF step] helper_ok_step [OF step] counters_ok_step [OF step]
    tickets_ok_step [OF step] queue_bound_step [OF step]
  by (simp add: room_ok_def)

lemma runs_step_induct [consumes 1, case_names nil step]:
  assumes "runs oor cfg es s" and "P [] new_room"
    and "\<And>es s e s'. runs oor cfg es s \<Longrightarrow> P es s \<Longrightarrow> room_step oor cfg s e s' \<Longrightarrow> P (es @ [e]) s'"
  shows "P es s"
  using assms(1) by (induction rule: runs.induct) (auto intro: assms(2,3) fire_step)

lemma runs_ok: "runs oor cfg es s \<Longrightarrow> room_ok cfg s"
  by (induction rule: runs_step_induct) (auto intro: room_ok_new room_ok_step)

lemmas runs_parts = runs_ok [unfolded room_ok_def]

section \<open>The queue as a FIFO channel\<close>

text \<open>The tickets that entered the queue in a schedule, and those that left it.\<close>

fun joined :: "event list \<Rightarrow> nat list" where
  "joined [] = []"
| "joined (Enqueue g # es) = g # joined es"
| "joined (e # es) = joined es"

fun dequeued :: "event list \<Rightarrow> nat list" where
  "dequeued [] = []"
| "dequeued (Dequeue a t # es) = t # dequeued es"
| "dequeued (e # es) = dequeued es"

lemma joined_append [simp]: "joined (es @ fs) = joined es @ joined fs"
  by (induction es rule: joined.induct) auto

lemma dequeued_append [simp]: "dequeued (es @ fs) = dequeued es @ dequeued fs"
  by (induction es rule: dequeued.induct) auto

lemma queue_history:
  "runs oor cfg es s \<Longrightarrow> ch.history (unat (QueueSize cfg)) [] (joined es) (dequeued es) (queue s)"
proof (induction rule: runs_step_induct)
  case nil
  then show ?case by (simp add: new_room_def ch.hist_nil)
next
  case (step es s e s')
  from step.hyps(2) show ?case
    by cases (use step.IH in \<open>auto intro: ch.hist_send ch.hist_recv simp: chan_simps\<close>)
qed

section \<open>What a request's response writer has been told\<close>

fun told :: "(f64 \<Rightarrow> int) \<Rightarrow> config \<Rightarrow> pc \<Rightarrow> rw_call list \<Rightarrow> bool" where
  "told oor cfg (Parked p) cs \<longleftrightarrow> cs = [retry_after oor cfg p]"
| "told oor cfg (Signalled p) cs \<longleftrightarrow> cs = [retry_after oor cfg p]"
| "told oor cfg (Resumed p) cs \<longleftrightarrow> cs = [retry_after oor cfg p]"
| "told oor cfg (Claiming p) cs \<longleftrightarrow> cs = [retry_after oor cfg p]"
| "told oor cfg (Serving q) cs \<longleftrightarrow> (if q then \<exists>p. cs = [retry_after oor cfg p] else cs = [])"
| "told oor cfg (Releasing q) cs \<longleftrightarrow> (if q then \<exists>p. cs = [retry_after oor cfg p] else cs = [])"
| "told oor cfg (Handing q t) cs \<longleftrightarrow> (if q then \<exists>p. cs = [retry_after oor cfg p] else cs = [])"
| "told oor cfg (Done (Served q)) cs \<longleftrightarrow> (if q then \<exists>p. cs = [retry_after oor cfg p] else cs = [])"
| "told oor cfg (Done FullPage) cs \<longleftrightarrow>
     (\<exists>p. cs = retry_after oor cfg p # serveWaitPage oor cfg 0 modeQueueFull)"
| "told oor cfg (Done TimeoutPage) cs \<longleftrightarrow>
     (\<exists>p. cs = retry_after oor cfg p # serveWaitPage oor cfg p modeTimeout)"
| "told oor cfg (Done o') cs \<longleftrightarrow> (\<exists>p. cs = [retry_after oor cfg p])"
| "told oor cfg p cs \<longleftrightarrow> cs = []"

lemma told_step:
  assumes "room_step oor cfg s e s'" and "\<forall>g. told oor cfg (pc s g) (calls s g)"
  shows "told oor cfg (pc s' g) (calls s' g)"
  using assms by cases (force dest: spec [of _ g])+

lemma runs_told: "runs oor cfg es s \<Longrightarrow> told oor cfg (pc s g) (calls s g)"
proof (induction arbitrary: g rule: runs_step_induct)
  case (step es s e s')
  then show ?case by (blast intro: told_step)
qed (simp add: new_room_def)

end
