(* ===== verification/Pipeline.thy ===== *)
theory Pipeline
  imports Reverse_Proxy Strip_Writer Token_Bucket_Spec Room_Inv
begin

text \<open>
  The program of \<open>src/main.go\<close>: the middleware chain of \<open>src/middleware/chain.go\<close>, the rate limiter's
  wrapper, the stage a request sees of the waiting room, the proxy at the end, the metrics page and the
  start-up from the environment.
\<close>

section \<open>\<open>middleware.Chain\<close>\<close>

type_synonym 'h middleware = "'h \<Rightarrow> 'h"

text \<open>The loop counts \<open>i\<close> down from the last index; \<open>Suc i\<close> is the value before the decrement.\<close>

fun chain_loop :: "nat \<Rightarrow> 'h middleware list \<Rightarrow> 'h \<Rightarrow> 'h" where
  "chain_loop 0 middlewares handler = handler"
| "chain_loop (Suc i) middlewares handler = chain_loop i middlewares ((middlewares ! i) handler)"

definition Chain :: "'h \<Rightarrow> 'h middleware list \<Rightarrow> 'h" where
  "Chain handler middlewares = chain_loop (length middlewares) middlewares handler"

lemma chain_loop_take:
  "i \<le> length ms \<Longrightarrow> chain_loop i ms h = foldr (\<lambda>m. m) (take i ms) h"
  by (induction i arbitrary: h) (simp_all add: take_Suc_conv_app_nth)

lemma Chain_foldr: "Chain h ms = foldr (\<lambda>m. m) ms h"
  by (simp add: Chain_def chain_loop_take)

text \<open>
  The first middleware is the outermost: the chain of a list is its head around the chain of its tail,
  and the chain of two lists is the first around the second.
\<close>

theorem chain_order:
  "Chain h [] = h \<and> Chain h (m # ms) = m (Chain h ms) \<and> Chain h (ms @ ns) = Chain (Chain h ns) ms"
  by (simp add: Chain_foldr)

section \<open>The stages\<close>

text \<open>
  What the stages share: the limiter, the waiting room's counter as the stripper reads it, and the
  requests the backend has been sent.
\<close>

record gateway =
  gw_limiter :: limiter
  gw_active :: int64
  gw_sent :: "out_request list"

text \<open>\<open>http.Error\<close>: the message and a newline as plain text.\<close>

definition http_error :: "bytes \<Rightarrow> int \<Rightarrow> rw_call list" where
  "http_error msg code =
     [HeaderSet ''Content-Type'' ''text/plain; charset=utf-8'',
      HeaderSet ''X-Content-Type-Options'' ''nosniff'', WriteHeader code, Write (msg @ [CHR 0x0A])]"

definition client_ip :: "bytes \<Rightarrow> bytes" where
  "client_ip remoteAddr =
     (case SplitHostPort remoteAddr of Some (ip, port) \<Rightarrow> ip | None \<Rightarrow> remoteAddr)"

definition rl_middleware ::
  "(bytes \<Rightarrow> bytes) \<Rightarrow> bool \<Rightarrow> int64 \<times> int64 \<Rightarrow> (rwriter, gateway) handler middleware" where
  "rl_middleware detect fused now next r w st =
     (case Allow fused now (client_ip (rq_remote r)) (gw_limiter st) of
        (allowed, l) \<Rightarrow>
          (let st' = st\<lparr>gw_limiter := l\<rparr>
           in if \<not> allowed
              then (fold (rw.perform detect) (http_error ''429 Too Many Requests'' 429) w, st')
              else next r w st'))"

text \<open>
  How the waiting room's \<open>Middleware\<close> comes out for one request, which the other requests decide: with
  the position it was given, if it was given one.
\<close>

datatype verdict =
  Direct
| FromQueue int64
| RoomFull int64
| WaitedTooLong int64
| ClientLeft int64

definition admits :: "verdict \<Rightarrow> bool" where
  "admits v = (case v of Direct \<Rightarrow> True | FromQueue p \<Rightarrow> True | _ \<Rightarrow> False)"

definition wait_calls :: "(f64 \<Rightarrow> int) \<Rightarrow> config \<Rightarrow> verdict \<Rightarrow> rw_call list" where
  "wait_calls oor cfg v =
     (case v of
        Direct \<Rightarrow> []
      | FromQueue p \<Rightarrow> [retry_after oor cfg p]
      | RoomFull p \<Rightarrow> retry_after oor cfg p # serveWaitPage oor cfg 0 modeQueueFull
      | WaitedTooLong p \<Rightarrow> retry_after oor cfg p # serveWaitPage oor cfg p modeTimeout
      | ClientLeft p \<Rightarrow> [retry_after oor cfg p])"

definition wait_middleware ::
  "(bytes \<Rightarrow> bytes) \<Rightarrow> (f64 \<Rightarrow> int) \<Rightarrow> config \<Rightarrow> verdict \<Rightarrow> (rwriter, 'st) handler middleware" where
  "wait_middleware detect oor cfg v next r w st =
     (let w' = fold (rw.perform detect) (wait_calls oor cfg v) w
      in if admits v then next r w' st else (w', st))"

text \<open>The proxy as the innermost handler; what it hands to \<open>client.Do\<close> is recorded.\<close>

definition sent_for :: "proxy \<Rightarrow> request \<Rightarrow> out_request list" where
  "sent_for p r = (case buildBackendRequest p r of Inl e \<Rightarrow> [] | Inr q \<Rightarrow> [q])"

definition proxy_handler ::
  "(bytes \<Rightarrow> bytes) \<Rightarrow> proxy \<Rightarrow> (out_request \<Rightarrow> reply) \<Rightarrow> (rwriter, gateway) handler" where
  "proxy_handler detect p backend =
     scripted detect (ServeHTTP p backend) (\<lambda>r st. st\<lparr>gw_sent := gw_sent st @ sent_for p r\<rparr>)"

definition public_handler ::
  "(bytes \<Rightarrow> bytes) \<Rightarrow> bool \<Rightarrow> int64 \<times> int64 \<Rightarrow> (f64 \<Rightarrow> int) \<Rightarrow> config \<Rightarrow> verdict \<Rightarrow> proxy \<Rightarrow>
   (out_request \<Rightarrow> reply) \<Rightarrow> (rwriter, gateway) handler" where
  "public_handler detect fused now oor cfg v p backend =
     Chain (proxy_handler detect p backend)
       [rl_middleware detect fused now,
        wait_middleware detect oor cfg v,
        strip_middleware detect (\<lambda>st. sint (gw_active st)) (sint (StripThreshold cfg))]"

section \<open>The metrics page\<close>

definition gauge :: "bytes \<Rightarrow> bytes \<Rightarrow> bytes \<Rightarrow> rw_call list" where
  "gauge name help v =
     [Write (''# HELP '' @ name @ '' '' @ help @ [CHR 0x0A]),
      Write (''# TYPE '' @ name @ '' gauge'' @ [CHR 0x0A]),
      Write (sprintf (name @ '' %d'' @ [CHR 0x0A]) [v])]"

text \<open>\<open>NumGoroutine\<close> and \<open>MemStats.Alloc\<close> are readings of the runtime.\<close>

definition metrics_handler :: "room_stats \<Rightarrow> int \<Rightarrow> 64 word \<Rightarrow> rw_call list" where
  "metrics_handler stats numGoroutine alloc =
     HeaderSet ''Content-Type'' ''text/plain; version=0.0.4'' #
     gauge ''peakshield_active_requests'' ''Number of requests currently in-flight to backend''
       (show_int (sint (StActiveRequests stats))) @
     gauge ''peakshield_queue_depth'' ''Number of requests waiting in queue''
       (show_int (sint (StQueueDepth stats))) @
     gauge ''peakshield_goroutines'' ''Number of active goroutines'' (show_int numGoroutine) @
     gauge ''peakshield_alloc_bytes'' ''Bytes allocated and still in use'' (show_int (uint alloc))"

section \<open>Start-up\<close>

record http_server =
  srv_addr :: bytes
  srv_read :: int64
  srv_write :: int64
  srv_idle :: int64

definition proxy_server :: "config \<Rightarrow> http_server" where
  "proxy_server cfg =
     \<lparr>srv_addr = ListenAddr cfg, srv_read = seconds 10,
      srv_write = QueueTimeout cfg + BackendTimeout cfg + seconds 15, srv_idle = seconds 120\<rparr>"

definition metrics_server :: "config \<Rightarrow> http_server" where
  "metrics_server cfg =
     \<lparr>srv_addr = MetricsListenAddr cfg, srv_read = seconds 5, srv_write = seconds 10,
      srv_idle = seconds 120\<rparr>"

datatype startup_error = ConfigFailed config_error | RoomPanics int64 | ProxyFailed new_error

record program =
  pg_config :: config
  pg_limiter :: limiter
  pg_room :: room
  pg_proxy :: proxy
  pg_server :: http_server
  pg_metrics :: http_server

text \<open>\<open>main\<close> up to its two \<open>ListenAndServe\<close>; an error ends the process with status 1, a panic with 2.\<close>

definition startup :: "environ \<Rightarrow> startup_error + program" where
  "startup env =
     (case Load env of
        Inl e \<Rightarrow> Inl (ConfigFailed e)
      | Inr cfg \<Rightarrow>
          (case new_waiting_room cfg of
             None \<Rightarrow> Inl (RoomPanics (QueueSize cfg))
           | Some wr \<Rightarrow>
               (case new_proxy cfg of
                  Inl e \<Rightarrow> Inl (ProxyFailed e)
                | Inr prx \<Rightarrow>
                    Inr \<lparr>pg_config = cfg, pg_limiter = new_limiter (RateLimit cfg) (sint (BurstSize cfg)),
                         pg_room = wr, pg_proxy = prx, pg_server = proxy_server cfg,
                         pg_metrics = metrics_server cfg\<rparr>)))"

definition exit_code :: "startup_error \<Rightarrow> nat" where
  "exit_code e = (case e of RoomPanics n \<Rightarrow> 2 | _ \<Rightarrow> 1)"

end
