(* ===== verification/Go_Decimal.thy ===== *)
theory Go_Decimal
  imports Go_Strconv
begin

text \<open>
  How \<open>encoding/json\<close> prints a \<open>float64\<close>: \<open>strconv.AppendFloat\<close> with precision \<open>-1\<close>, the shortest decimal
  that reads back as the same number and of those the nearest, in plain or, far from 1, in
  scientific notation.
\<close>

section \<open>The shortest decimal\<close>

definition decimal :: "int \<Rightarrow> int \<Rightarrow> rat" where
  "decimal n k = of_int n * 10 powi k"

definition reads_as :: "rat \<Rightarrow> int \<Rightarrow> int \<Rightarrow> bool" where
  "reads_as x n k \<longleftrightarrow> f64_of_rat (decimal n k) = Fin x"

text \<open>The multiple of \<open>10\<^sup>k\<close> that reads as \<open>x\<close>: the nearest if it does, else the one on the other side.\<close>

definition digits_at :: "rat \<Rightarrow> int \<Rightarrow> int option" where
  "digits_at x k =
     (let q = x / 10 powi k; n = round_half_even q; lo = \<lfloor>q\<rfloor>
      in if reads_as x n k then Some n
         else if reads_as x lo k then Some lo
         else if reads_as x (lo + 1) k then Some (lo + 1) else None)"

fun shortest_from :: "nat \<Rightarrow> int \<Rightarrow> rat \<Rightarrow> (int \<times> int) option" where
  "shortest_from 0 k x = None"
| "shortest_from (Suc fuel) k x =
     (case digits_at x k of Some n \<Rightarrow> Some (n, k) | None \<Rightarrow> shortest_from fuel (k - 1) x)"

text \<open>
  From the number of digits before the point, beyond which no decimal is small enough, down to
  \<open>10\<^sup>-\<^sup>1\<^sup>0\<^sup>7\<^sup>4\<close>, of which every \<open>float64\<close> is a multiple.
\<close>

definition shortest :: "rat \<Rightarrow> (int \<times> int) option" where
  "shortest x =
     (let k = length (show_nat (nat \<lfloor>x\<rfloor>)) in shortest_from (k + 1075) (int k) x)"

section \<open>The text\<close>

definition fixed_text :: "int \<Rightarrow> int \<Rightarrow> bytes" where
  "fixed_text n k =
     (let ds = show_nat (nat n)
      in if 0 \<le> k then ds @ replicate (nat k) CHR ''0''
         else (let f = nat (- k); ds' = replicate (Suc f - length ds) CHR ''0'' @ ds; i = length ds' - f
               in take i ds' @ CHR ''.'' # drop i ds'))"

text \<open>The exponent without a leading zero, as \<open>json\<close> trims it.\<close>

definition sci_text :: "int \<Rightarrow> int \<Rightarrow> bytes" where
  "sci_text n k =
     (let ds = show_nat (nat n); e = int (length ds) - 1 + k
      in hd ds # (if tl ds = [] then [] else CHR ''.'' # tl ds) @
         CHR ''e'' # (if e < 0 then CHR ''-'' else CHR ''+'') # show_nat (nat \<bar>e\<bar>))"

definition positive_text :: "rat \<Rightarrow> bytes option" where
  "positive_text x =
     (if x = 0 then Some ''0''
      else map_option (\<lambda>(n, k). if x < 1 / 10 ^ 6 \<or> 10 ^ 21 \<le> x then sci_text n k else fixed_text n k)
             (shortest x))"

text \<open>\<open>None\<close> is the \<open>UnsupportedValueError\<close> of \<open>json\<close>.\<close>

fun json_float :: "f64 \<Rightarrow> bytes option" where
  "json_float (Fin x) =
     (if x < 0 then map_option ((#) CHR ''-'') (positive_text (- x)) else positive_text x)"
| "json_float f = None"

section \<open>Reading a decimal\<close>

definition digits_value :: "int \<Rightarrow> bytes \<Rightarrow> int" where
  "digits_value n ds = foldl (\<lambda>n c. n * 10 + digit_val c) n ds"

lemma digits_value_simps [simp]:
  "digits_value n [] = n" "digits_value n (c # cs) = digits_value (n * 10 + digit_val c) cs"
  "digits_value n (ds @ es) = digits_value (digits_value n ds) es"
  by (simp_all add: digits_value_def)

lemma digit_char: "n < 10 \<Longrightarrow> digit_val (char_of (48 + n)) = int n \<and> is_digit (char_of (48 + n))"
proof -
  assume n: "n < 10"
  then have "(of_char (char_of (48 + n)) :: nat) = 48 + n" by simp
  then show "digit_val (char_of (48 + n)) = int n \<and> is_digit (char_of (48 + n))"
    using n of_nat_of_char [where 'a = int, of "char_of (48 + n)"] by (simp add: digit_val_def is_digit_def)
qed

lemma digits_value_show [simp]: "digits_value 0 (show_nat n) = int n"
proof (induction n rule: show_nat.induct)
  case (1 n)
  moreover have "int (n div 10) * 10 + int (n mod 10) = int n" by presburger
  ultimately show ?case
    using digit_char [of "n mod 10"] by (subst show_nat.simps) (auto simp: digit_char)
qed

lemma digits_value_zeros: "digits_value n (replicate k CHR ''0'') = n * 10 ^ k"
  by (induction k arbitrary: n) (simp_all add: digit_val_def)

lemma digit_plain:
  assumes "is_digit c"
  shows "c \<noteq> CHR ''_''" "c \<noteq> CHR ''.''" "c \<noteq> CHR ''-''" "c \<noteq> CHR ''+''" "hex_val c = digit_val c"
    "lower_byte c = c"
  using assms by (auto simp: is_digit_def hex_val_def lower_byte_def)

lemma scan_digits:
  assumes "list_all is_digit ds"
  shows "scan_mantissa False (ds @ rest) m =
    scan_mantissa False rest
      (m\<lparr>m_val := digits_value (m_val m) ds, m_frac := m_frac m + (if m_dot m then length ds else 0),
         m_digits := m_digits m \<or> ds \<noteq> []\<rparr>)"
  using assms by (induction ds arbitrary: m) (simp_all add: digit_plain)

lemma digits_value_mono: "list_all is_digit ds \<Longrightarrow> 0 \<le> n \<Longrightarrow> n \<le> digits_value n ds"
proof (induction ds arbitrary: n)
  case (Cons c cs)
  then have "0 \<le> digit_val c"
    using of_nat_of_char [where 'a = int, of c] by (simp add: digit_val_def is_digit_def)
  then show ?case using Cons.IH [of "n * 10 + digit_val c"] Cons.prems by simp
qed simp

lemma scan_exponent_digits:
  "list_all is_digit ds \<Longrightarrow> 0 \<le> e \<Longrightarrow> digits_value e ds < 10000 \<Longrightarrow> scan_exponent ds e = (digits_value e ds, [])"
proof (induction ds arbitrary: e)
  case (Cons c cs)
  have "0 \<le> digit_val c"
    using Cons.prems(1) of_nat_of_char [where 'a = int, of c] by (simp add: digit_val_def is_digit_def)
  moreover have "e \<le> digits_value e (c # cs)" using Cons.prems by (intro digits_value_mono)
  ultimately show ?case using Cons by (simp add: digit_plain)
qed simp

lemma show_nat_all: "list_all is_digit (show_nat n)"
  using show_nat_digits by (auto simp: list_all_iff)

lemma digit_zero: "is_digit CHR ''0''" by (simp add: is_digit_def)

text \<open>What \<open>ParseFloat\<close> makes of digits with a point and an exponent.\<close>

definition empty_mantissa :: mantissa where
  "empty_mantissa = \<lparr>m_val = 0, m_frac = 0, m_dot = False, m_digits = False\<rparr>"

text \<open>The bytes of a printed number, none of which begins a base prefix or separates digits.\<close>

definition float_char :: "byte \<Rightarrow> bool" where
  "float_char c \<longleftrightarrow> is_digit c \<or> c \<in> {CHR ''.'', CHR ''e'', CHR ''+'', CHR ''-''}"

lemma float_char_lower:
  assumes "float_char c"
  shows "lower_byte c = c" and "c \<noteq> CHR ''x''" and "c \<noteq> CHR ''_''"
proof -
  show "lower_byte c = c"
    using assms by (auto simp: float_char_def digit_plain) (simp_all add: lower_byte_def)
  show "c \<noteq> CHR ''x''" "c \<noteq> CHR ''_''" using assms by (auto simp: float_char_def is_digit_def)
qed

lemma plain_chars:
  assumes "list_all float_char t"
  shows "CHR ''_'' \<notin> set t" and "\<not> based ''x'' t"
proof -
  show "CHR ''_'' \<notin> set t" using assms float_char_lower(3) by (auto simp: list_all_iff)
  show "\<not> based ''x'' t"
  proof
    assume b: "based ''x'' t"
    then have "float_char (t ! 1)" using assms by (simp add: based_def list_all_length)
    then show False using b float_char_lower [of "t ! 1"] by (simp add: based_def)
  qed
qed

lemma digits_float: "list_all is_digit ds \<Longrightarrow> list_all float_char ds"
  by (auto simp: list_all_iff float_char_def)

lemma read_plain:
  assumes t: "scan_mantissa False t empty_mantissa = (m, [])" and m: "m_digits m"
    and c: "t \<noteq> []" "is_digit (hd t)" "list_all float_char t"
  shows "read_float t = Some (of_int (m_val m) * 10 powi (- int (m_frac m)))"
proof -
  have "cut_sign t = (False, t)" using c by (cases t) (auto simp: digit_plain)
  then show ?thesis using t m plain_chars [OF c(3)] by (simp add: read_float_def empty_mantissa_def Let_def)
qed

lemma read_exponent:
  assumes t: "scan_mantissa False t empty_mantissa = (m, CHR ''e'' # v)" and m: "m_digits m"
    and c: "t \<noteq> []" "is_digit (hd t)" "list_all float_char t"
    and v: "cut_sign v = (eneg, w)" "w \<noteq> []" "is_digit (hd w)" "scan_exponent w 0 = (e, [])"
  shows "read_float t = Some (of_int (m_val m) * 10 powi ((if eneg then - e else e) - int (m_frac m)))"
proof -
  have "cut_sign t = (False, t)" using c by (cases t) (auto simp: digit_plain)
  moreover have "lower_byte CHR ''e'' = CHR ''e''" by (simp add: lower_byte_def)
  ultimately show ?thesis using t m plain_chars [OF c(3)] v
    by (simp add: read_float_def empty_mantissa_def Let_def)
qed

lemma hd_digit: "ds \<noteq> [] \<Longrightarrow> list_all is_digit ds \<Longrightarrow> is_digit (hd (ds @ rest))"
  by (cases ds) auto

lemma read_point:
  assumes ds: "list_all is_digit ds" "ds \<noteq> []" and fs: "list_all is_digit fs"
  shows "read_float (ds @ CHR ''.'' # fs) =
    Some (of_int (digits_value 0 (ds @ fs)) * 10 powi (- int (length fs)))"
proof -
  let ?t = "ds @ CHR ''.'' # fs"
  have "scan_mantissa False ?t empty_mantissa =
      (\<lparr>m_val = digits_value 0 (ds @ fs), m_frac = length fs, m_dot = True, m_digits = True\<rparr>, [])"
    using ds fs scan_digits [of fs "[]"] by (simp add: scan_digits empty_mantissa_def)
  moreover have "list_all float_char ?t"
    using digits_float [OF ds(1)] digits_float [OF fs] by (simp add: float_char_def)
  ultimately show ?thesis
    using read_plain [of ?t] hd_digit [OF ds(2,1)] by simp
qed

lemma read_integer:
  assumes ds: "list_all is_digit ds" "ds \<noteq> []"
  shows "read_float ds = Some (of_int (digits_value 0 ds))"
proof -
  have "scan_mantissa False ds empty_mantissa =
      (\<lparr>m_val = digits_value 0 ds, m_frac = 0, m_dot = False, m_digits = True\<rparr>, [])"
    using ds scan_digits [of ds "[]"] by (simp add: empty_mantissa_def)
  then show ?thesis
    using read_plain [of ds] hd_digit [OF ds(2,1), of "[]"] digits_float [OF ds(1)] ds(2) by simp
qed

lemma zeros_digits: "list_all is_digit (replicate k CHR ''0'')"
  by (simp add: list_all_iff digit_zero)

lemma list_all_parts: "list_all P xs \<Longrightarrow> list_all P (take i xs) \<and> list_all P (drop i xs)"
  by (auto simp: list_all_iff dest: in_set_takeD in_set_dropD)

lemma fixed_split:
  assumes "k < 0"
  obtains ds fs where "fixed_text n k = ds @ CHR ''.'' # fs" and "ds \<noteq> []" and "list_all is_digit ds"
    and "list_all is_digit fs" and "length fs = nat (- k)" and "digits_value 0 (ds @ fs) = int (nat n)"
proof -
  define f where "f = nat (- k)"
  define ds where "ds = replicate (Suc f - length (show_nat (nat n))) CHR ''0'' @ show_nat (nat n)"
  define i where "i = length ds - f"
  have "fixed_text n k = take i ds @ CHR ''.'' # drop i ds"
    using assms by (simp add: fixed_text_def f_def ds_def i_def Let_def)
  moreover have "Suc f \<le> length ds" by (simp add: ds_def)
  then have "take i ds \<noteq> []" "length (drop i ds) = nat (- k)" by (auto simp: i_def f_def)
  moreover have "list_all is_digit ds" using show_nat_all zeros_digits by (simp add: ds_def)
  moreover have "digits_value 0 ds = int (nat n)" by (simp add: ds_def digits_value_zeros)
  then have "digits_value 0 (take i ds @ drop i ds) = int (nat n)" by (simp only: append_take_drop_id)
  ultimately show ?thesis using that list_all_parts by blast
qed

lemma read_fixed:
  assumes "0 \<le> n"
  shows "read_float (fixed_text n k) = Some (decimal n k)"
proof (cases "0 \<le> k")
  case True
  have "read_float (fixed_text n k) = Some (of_int (n * 10 ^ nat k))"
    using assms True show_nat_all zeros_digits
    by (simp add: fixed_text_def read_integer digits_value_zeros)
  then show ?thesis using True by (simp add: decimal_def power_int_def)
next
  case False
  then obtain ds fs where ds: "fixed_text n k = ds @ CHR ''.'' # fs" "ds \<noteq> []" "list_all is_digit ds"
    "list_all is_digit fs" "length fs = nat (- k)" "digits_value 0 (ds @ fs) = int (nat n)"
    by (elim fixed_split [of k n, OF not_le_imp_less])
  then have "read_float (fixed_text n k) = Some (of_int (int (nat n)) * 10 powi (- int (nat (- k))))"
    using read_point [OF ds(3,2,4)] by (simp only:)
  then show ?thesis using False assms by (simp add: decimal_def)
qed

lemma read_sci:
  assumes "0 \<le> n" and e: "\<bar>int (length (show_nat (nat n))) - 1 + k\<bar> < 10000"
  shows "read_float (sci_text n k) = Some (decimal n k)"
proof -
  obtain d fs where ds: "show_nat (nat n) = d # fs" by (cases "show_nat (nat n)") simp_all
  then have d: "is_digit d" "list_all is_digit fs" using show_nat_all [of "nat n"] by simp_all
  define e where "e = int (length fs) + k"
  define w where "w = show_nat (nat \<bar>e\<bar>)"
  define v where "v = (if e < 0 then CHR ''-'' else CHR ''+'') # w"
  have shown: "sci_text n k = d # (if fs = [] then [] else CHR ''.'' # fs) @ CHR ''e'' # v"
    by (simp add: sci_text_def ds Let_def v_def w_def e_def)
  have val: "digits_value 0 (d # fs) = n" using assms(1) digits_value_show [of "nat n"] by (simp add: ds)
  let ?m = "\<lparr>m_val = n, m_frac = length fs, m_dot = fs \<noteq> [], m_digits = True\<rparr>"
  have e_stop: "scan_mantissa False (CHR ''e'' # v) m = (m, CHR ''e'' # v)" for m
    by (simp add: is_digit_def)
  have dot_step: "\<not> m_dot m \<Longrightarrow>
      scan_mantissa False (CHR ''.'' # r) m = scan_mantissa False r (m\<lparr>m_dot := True\<rparr>)" for m r
    by simp
  have "scan_mantissa False (sci_text n k) empty_mantissa = (?m, CHR ''e'' # v)"
    using d val scan_digits [of "[d]"] unfolding shown
    by (auto simp: empty_mantissa_def e_stop dot_step scan_digits [OF d(2)] digit_plain
        simp del: scan_mantissa.simps)
  moreover have "list_all float_char (sci_text n k)"
    using d digits_float [OF d(2)] digits_float [OF show_nat_all [of "nat \<bar>e\<bar>"]]
    by (auto simp: shown v_def w_def float_char_def)
  moreover have "cut_sign v = (e < 0, w)" by (simp add: v_def)
  moreover have "w \<noteq> [] \<and> is_digit (hd w)"
    using show_nat_all [of "nat \<bar>e\<bar>"] hd_digit [of w "[]"] by (simp add: w_def)
  moreover have "scan_exponent w 0 = (\<bar>e\<bar>, [])"
    using e ds show_nat_all [of "nat \<bar>e\<bar>"] by (simp add: w_def e_def scan_exponent_digits)
  ultimately have "read_float (sci_text n k) =
      Some (of_int n * 10 powi ((if e < 0 then - \<bar>e\<bar> else \<bar>e\<bar>) - int (length fs)))"
    using read_exponent [of "sci_text n k" ?m v] d(1) by (simp add: shown)
  moreover have "(if e < 0 then - \<bar>e\<bar> else \<bar>e\<bar>) - int (length fs) = k" by (simp add: e_def)
  ultimately show ?thesis by (simp add: decimal_def)
qed

section \<open>The shortest decimal reads back\<close>

lemma f64_Fin: "f64_of_rat y = Fin x \<longleftrightarrow> rnd y = x \<and> - f64_limit < x \<and> x < f64_limit"
  by (auto simp: f64_of_rat_def Let_def)

lemma pow10_pos [simp]: "0 < (10 :: rat) powi k"
  by (simp add: power_int_def)

lemma decimal_mono: "m \<le> n \<Longrightarrow> decimal m k \<le> decimal n k"
  by (simp add: decimal_def)

text \<open>A number that is read is read at the nearest multiples, if at all.\<close>

lemma digits_at_None:
  assumes x: "representable x" "- f64_limit < x" "x < f64_limit" and none: "digits_at x k = None"
  shows "\<not> reads_as x n k"
proof
  assume n: "reads_as x n k"
  let ?q = "x / 10 powi k" and ?lo = "\<lfloor>x / 10 powi k\<rfloor>"
  have below: "decimal ?lo k \<le> x" and above: "x \<le> decimal (?lo + 1) k"
    unfolding decimal_def using floor_le_iff [of ?q ?lo] of_int_floor_le [of ?q] floor_correct [of ?q]
    by (simp_all add: pos_le_divide_eq [symmetric] pos_divide_le_eq [symmetric] less_imp_le)
  have lo: "\<not> reads_as x ?lo k" and hi: "\<not> reads_as x (?lo + 1) k"
    using none by (auto simp: digits_at_def Let_def split: if_splits)
  have rx: "rnd x = x" using x(1) by (rule rd.round_rep)
  have rn: "rnd (decimal n k) = x" using n by (simp add: reads_as_def f64_Fin)
  show False
  proof (cases "n \<le> ?lo")
    case True
    then have "x \<le> rnd (decimal ?lo k)" using rd.round_mono [OF decimal_mono [OF True, of k]] rn by simp
    moreover have "rnd (decimal ?lo k) \<le> x" using rd.round_mono [OF below] rx by simp
    ultimately show False using lo x by (simp add: reads_as_def f64_Fin)
  next
    case False
    then have "?lo + 1 \<le> n" by simp
    then have "rnd (decimal (?lo + 1) k) \<le> x" using rd.round_mono [OF decimal_mono] rn by fastforce
    moreover have "x \<le> rnd (decimal (?lo + 1) k)" using rd.round_mono [OF above] rx by simp
    ultimately show False using hi x by (simp add: reads_as_def f64_Fin)
  qed
qed

lemma digits_at_Some:
  assumes "digits_at x k = Some n"
  shows "reads_as x n k" and "n \<le> \<lfloor>x / 10 powi k\<rfloor> + 1"
proof -
  have "round_half_even q \<le> \<lfloor>q\<rfloor> + 1" for q by (simp add: round_half_even_def Let_def)
  then show "reads_as x n k" "n \<le> \<lfloor>x / 10 powi k\<rfloor> + 1"
    using assms by (auto simp: digits_at_def Let_def split: if_splits)
qed

lemma shortest_from_Some:
  "shortest_from fuel k x = Some (n, j) \<Longrightarrow>
     digits_at x j = Some n \<and> j \<le> k \<and> k - int fuel < j \<and> (\<forall>i. j < i \<and> i \<le> k \<longrightarrow> digits_at x i = None)"
proof (induction fuel arbitrary: k)
  case (Suc fuel)
  show ?case
  proof (cases "digits_at x k")
    case None
    then have "shortest_from fuel (k - 1) x = Some (n, j)" using Suc.prems by simp
    from Suc.IH [OF this] None show ?thesis by (auto simp: order_le_less)
  qed (use Suc.prems in auto)
qed simp

lemma shortest_from_None:
  "shortest_from fuel k x = None \<Longrightarrow> k - int fuel < j \<Longrightarrow> j \<le> k \<Longrightarrow> digits_at x j = None"
proof (induction fuel arbitrary: k)
  case (Suc fuel)
  then show ?case by (cases "j = k") (auto split: option.splits)
qed simp

lemma show_nat_bound: "n < 10 ^ length (show_nat n)"
proof (induction n rule: show_nat.induct)
  case (1 n)
  have step: "length (show_nat n) = (if n < 10 then 1 else Suc (length (show_nat (n div 10))))"
    by (subst show_nat.simps) simp
  show ?case
  proof (cases "n < 10")
    case False
    then have "n div 10 < 10 ^ length (show_nat (n div 10))" using 1 by blast
    then have "n < 10 * 10 ^ length (show_nat (n div 10))" by linarith
    then show ?thesis using False step by simp
  qed (simp add: step)
qed

lemma show_nat_length: "n < 10 ^ L \<Longrightarrow> 0 < L \<Longrightarrow> length (show_nat n) \<le> L"
proof (induction L arbitrary: n)
  case (Suc L)
  have step: "length (show_nat n) = (if n < 10 then 1 else Suc (length (show_nat (n div 10))))"
    by (subst show_nat.simps) simp
  show ?case
  proof (cases "n < 10")
    case False
    then have "0 < L" using Suc.prems(1) by (cases L) simp_all
    moreover have "n div 10 < 10 ^ L" using Suc.prems(1) by (simp add: less_mult_imp_div_less mult.commute)
    ultimately show ?thesis using Suc.IH False step by simp
  qed (simp add: step)
qed simp

text \<open>Every \<open>float64\<close> is a multiple of \<open>10\<^sup>-\<^sup>1\<^sup>0\<^sup>7\<^sup>4\<close>.\<close>

lemma pow2_decimal: "(2 :: rat) powi (- int N) = of_int (5 ^ N) * 10 powi (- int N)"
proof -
  have ten: "(10 :: rat) = 2 * 5" by simp
  have "(10 :: rat) ^ N = 2 ^ N * 5 ^ N" unfolding ten by (rule power_mult_distrib)
  then show ?thesis by (simp add: power_int_minus field_simps)
qed

lemma representable_decimal:
  assumes "representable x" and N: "int N = 1074"
  shows "\<exists>n. x = decimal n (- int N)"
proof -
  obtain m k where x: "x = of_int m * 2 powi k" and k: "- int N \<le> k"
    using assms by (auto simp: representable_def)
  have "(2 :: rat) powi k = of_int (2 ^ nat (k + int N)) * 2 powi (- int N)"
    using pow2_nat [OF k] by simp
  then have "x = of_int (m * 2 ^ nat (k + int N) * 5 ^ N) * 10 powi (- int N)"
    by (simp add: x pow2_decimal mult_ac)
  then show ?thesis unfolding decimal_def by blast
qed

lemma shortest_total:
  assumes x: "representable x" "0 < x" "x < f64_limit"
  obtains n k where "shortest x = Some (n, k)"
proof -
  obtain N where N: "int N = 1074" using nonneg_int_cases [of 1074] by auto
  obtain m where m: "decimal m (- int N) = x" using representable_decimal [OF x(1) N] by auto
  have lim: "- f64_limit < x" using x f64_limit_big by linarith
  have "reads_as x m (- int N)"
    unfolding reads_as_def f64_Fin m using x lim by (simp add: rd.round_rep)
  then have some: "digits_at x (- int N) \<noteq> None" using digits_at_None [OF x(1) lim x(3)] by blast
  let ?k = "length (show_nat (nat \<lfloor>x\<rfloor>))"
  have "int ?k - int (?k + 1075) < - int N" "- int N \<le> int ?k" unfolding N by simp_all
  then have "shortest_from (?k + 1075) (int ?k) x \<noteq> None"
    using shortest_from_None [of "?k + 1075" "int ?k" x "- int N"] some by blast
  then have "shortest x \<noteq> None" unfolding shortest_def Let_def .
  then show ?thesis using that by auto
qed

lemma reads_pos:
  assumes "reads_as x m j" and "0 < x"
  shows "0 < m"
proof (rule ccontr)
  assume "\<not> 0 < m"
  then have "decimal m j \<le> 0" by (simp add: decimal_def mult_nonpos_nonneg less_imp_le)
  then have "rnd (decimal m j) \<le> 0" by (rule rd.round_le [OF representable_zero])
  then show False using assms by (simp add: reads_as_def f64_Fin)
qed

lemma representable_double: "representable x \<Longrightarrow> representable (2 * x)"
proof -
  assume "representable x"
  then obtain m k where "x = of_int m * 2 powi k" "\<bar>m\<bar> < 2 ^ 53" "- 1074 \<le> k"
    by (auto simp: representable_def)
  then have "2 * x = of_int m * 2 powi (k + 1)" "\<bar>m\<bar> < 2 ^ 53" "- 1074 \<le> k + 1"
    by (simp_all add: power_int_add)
  then show "representable (2 * x)" unfolding representable_def by blast
qed

lemma shortest_spec:
  assumes x: "representable x" "0 < x" "x < f64_limit" and s: "shortest x = Some (n, k)"
  shows "reads_as x n k" and "0 < n" and "n \<le> \<lfloor>x / 10 powi k\<rfloor> + 1" and "- 1074 \<le> k"
    and "k \<le> int (length (show_nat (nat \<lfloor>x\<rfloor>)))" and "k < j \<Longrightarrow> \<not> reads_as x m j"
proof -
  let ?l = "length (show_nat (nat \<lfloor>x\<rfloor>))"
  have from_: "digits_at x k = Some n \<and> k \<le> int ?l \<and> int ?l - int (?l + 1075) < k \<and>
      (\<forall>i. k < i \<and> i \<le> int ?l \<longrightarrow> digits_at x i = None)"
    using s shortest_from_Some [of "?l + 1075" "int ?l" x n k] unfolding shortest_def Let_def by blast
  then show "reads_as x n k" "n \<le> \<lfloor>x / 10 powi k\<rfloor> + 1" "k \<le> int ?l" "- 1074 \<le> k"
    using digits_at_Some [of x k n] by simp_all
  then show "0 < n" using reads_pos x(2) by blast
  have lim: "- f64_limit < x" using x f64_limit_big by linarith
  show "\<not> reads_as x m j" if "k < j"
  proof (cases "j \<le> int ?l")
    case True
    then show ?thesis using from_ that digits_at_None [OF x(1) lim x(3)] by blast
  next
    case False
    have "nat \<lfloor>x\<rfloor> < 10 ^ ?l" by (rule show_nat_bound)
    then have "\<lfloor>x\<rfloor> < 10 ^ ?l" using x(2) by (simp add: nat_less_iff)
    then have "x < 10 ^ ?l" using floor_less_iff [of x "10 ^ ?l"] by simp
    moreover have "(10 :: rat) ^ Suc ?l \<le> 10 powi j"
      using False power_int_increasing [of "int (Suc ?l)" j "10 :: rat"] by (simp only: power_int_of_nat)
    ultimately have big: "2 * x < 10 powi j" using x(2) by (simp only: power_Suc)
    show ?thesis
    proof
      assume r: "reads_as x m j"
      then have "0 < m" using reads_pos x(2) by blast
      then have "10 powi j \<le> decimal m j" by (simp add: decimal_def)
      then have "2 * x \<le> decimal m j" using big by simp
      moreover have "representable (2 * x)"
        using x(1) by (rule representable_double)
      ultimately have "2 * x \<le> rnd (decimal m j)" by (intro rd.le_round)
      then show False using r x(2) by (simp add: reads_as_def f64_Fin)
    qed
  qed
qed

text \<open>The exponent of a scientific notation has at most four digits.\<close>

lemma shortest_small:
  assumes x: "representable x" "0 < x" "x < f64_limit" and s: "shortest x = Some (n, k)"
  shows "\<bar>int (length (show_nat (nat n))) - 1 + k\<bar> < 10000"
proof -
  note spec = shortest_spec [OF x s]
  obtain L M :: nat where L: "L = 1024" and M: "M = 1074" by blast
  have "f64_limit \<le> 10 ^ L" unfolding f64_limit_def L [symmetric] by (intro power_mono) simp_all
  then have xL: "x < 10 ^ L" using x(3) by simp
  then have "\<lfloor>x\<rfloor> < 10 ^ L" using floor_less_iff [of x "10 ^ L"] by simp
  then have "nat \<lfloor>x\<rfloor> < 10 ^ L" using x(2) by (simp add: nat_less_iff)
  then have "length (show_nat (nat \<lfloor>x\<rfloor>)) \<le> L" by (rule show_nat_length) (simp add: L)
  then have k: "k \<le> int L" using spec(5) by linarith
  have "(10 :: rat) powi (- int M) \<le> 10 powi k"
    using spec(4) by (intro power_int_increasing) (simp_all add: M)
  then have "x / 10 powi k \<le> x / 10 powi (- int M)"
    using x(2) by (intro divide_left_mono) (simp_all add: mult_pos_pos)
  also have "\<dots> = x * 10 ^ M" by (simp add: power_int_minus divide_inverse)
  also have "\<dots> < 10 ^ L * 10 ^ M" using xL by simp
  finally have "\<lfloor>x / 10 powi k\<rfloor> < 10 ^ (L + M)"
    using floor_less_iff [of "x / 10 powi k" "10 ^ (L + M)"] by (simp add: power_add)
  then have "n \<le> 10 ^ (L + M)" using spec(3) by simp
  also have "\<dots> < 10 ^ Suc (L + M)" by (intro power_strict_increasing) simp_all
  finally have "nat n < 10 ^ Suc (L + M)" using spec(2) by (simp add: nat_less_iff)
  then have "length (show_nat (nat n)) \<le> Suc (L + M)" by (rule show_nat_length) simp
  then show ?thesis using k spec(4) by (simp add: L M)
qed

lemma fixed_chars: "list_all float_char (fixed_text n k)"
proof (cases "0 \<le> k")
  case True
  then show ?thesis using digits_float show_nat_all zeros_digits by (simp add: fixed_text_def)
next
  case False
  then obtain ds fs where "fixed_text n k = ds @ CHR ''.'' # fs" "list_all is_digit ds" "list_all is_digit fs"
    by (elim fixed_split [of k n, OF not_le_imp_less])
  then show ?thesis using digits_float by (simp add: float_char_def)
qed

lemma sci_chars: "list_all float_char (sci_text n k)"
proof -
  obtain d fs where ds: "show_nat (nat n) = d # fs" by (cases "show_nat (nat n)") simp_all
  then have "list_all float_char (d # fs)" using digits_float show_nat_all by metis
  then show ?thesis
    using digits_float [OF show_nat_all] by (auto simp: sci_text_def ds Let_def float_char_def)
qed

lemma positive_chars: "positive_text x = Some t \<Longrightarrow> list_all float_char t"
  using fixed_chars sci_chars by (auto simp: positive_text_def float_char_def digit_zero split: if_splits)

lemma cons_digits: "ds \<noteq> [] \<Longrightarrow> list_all is_digit ds \<Longrightarrow> \<exists>c r. ds @ rest = c # r \<and> is_digit c"
  by (cases ds) auto

lemma fixed_head: "\<exists>c r. fixed_text n k = c # r \<and> is_digit c"
proof (cases "0 \<le> k")
  case True
  then show ?thesis using cons_digits [OF show_nat_nonempty show_nat_all] by (simp add: fixed_text_def)
next
  case False
  then obtain ds fs where "fixed_text n k = ds @ CHR ''.'' # fs" "ds \<noteq> []" "list_all is_digit ds"
    by (elim fixed_split [of k n, OF not_le_imp_less])
  then show ?thesis using cons_digits by metis
qed

lemma positive_text_reads:
  assumes x: "representable x" "0 \<le> x" "x < f64_limit"
  shows "\<exists>t c r y. positive_text x = Some t \<and> t = c # r \<and> is_digit c \<and> read_float t = Some y \<and>
    f64_of_rat y = Fin x"
proof (cases "x = 0")
  case True
  have "f64_of_rat 0 = Fin 0" using f64_limit_big by (simp add: f64_Fin)
  then show ?thesis using True read_integer [of "''0''"]
    by (simp add: positive_text_def digit_zero digit_val_def)
next
  case False
  then have pos: "0 < x" using x(2) by simp
  obtain n k where s: "shortest x = Some (n, k)" using shortest_total [OF x(1) pos x(3)] by blast
  note spec = shortest_spec [OF x(1) pos x(3) s]
  have y: "f64_of_rat (decimal n k) = Fin x" using spec(1) by (simp add: reads_as_def)
  obtain d fs where ds: "show_nat (nat n) = d # fs" by (cases "show_nat (nat n)") simp_all
  then have d: "is_digit d" using show_nat_all [of "nat n"] by simp
  have sci: "read_float (sci_text n k) = Some (decimal n k)"
    using spec(2) shortest_small [OF x(1) pos x(3) s] by (intro read_sci) simp_all
  have "read_float (fixed_text n k) = Some (decimal n k)" using spec(2) by (intro read_fixed) simp
  moreover have "\<exists>r. sci_text n k = d # r" by (simp add: sci_text_def ds Let_def)
  moreover have "\<exists>c r. fixed_text n k = c # r \<and> is_digit c" by (rule fixed_head)
  ultimately show ?thesis using False s sci y d by (auto simp: positive_text_def)
qed

text \<open>
  What \<open>json\<close> prints for a finite \<open>float64\<close> is read back by \<open>ParseFloat\<close> as the same number.
\<close>

lemma json_float_reads:
  assumes x: "representable x" "0 \<le> x" "x < f64_limit"
  shows "\<exists>t. json_float (Fin x) = Some t \<and> parse_float t = Inr (Fin x) \<and> t \<noteq> [] \<and> list_all float_char t"
proof -
  obtain t c r y where t: "positive_text x = Some t" "t = c # r" "is_digit c" "read_float t = Some y"
    "f64_of_rat y = Fin x" using positive_text_reads [OF x] by blast
  have "\<not> is_special w t" if "w \<in> {''inf'', ''infinity'', ''nan''}" for w
    using t(3) that by (auto simp: t(2) is_special_def digit_plain) (simp_all add: is_digit_def)
  then have "parse_float t = Inr (Fin x)" using t by (simp add: parse_float_def digit_plain)
  then show ?thesis using t(1,2) x(2) positive_chars [OF t(1)] by simp
qed

end
