(* ===== verification/Stats_Page.thy ===== *)
theory Stats_Page
  imports Pipeline Go_Decimal
begin

text \<open>
  The statistics page of the metrics port (\<open>/__peakshield/stats\<close> in \<open>src/main.go\<close>): the JSON text
  \<open>encoding/json\<close> makes of the handler's structure, and that a reader of JSON gets the readings back.
\<close>

section \<open>The page\<close>

text \<open>\<open>float64(n) / 1024 / 1024\<close>.\<close>

definition megabytes :: "64 word \<Rightarrow> f64" where
  "megabytes n = f64_div_const (f64_div_const (f64_of_int (uint n)) 1024) 1024"

datatype json = Num bytes | Obj "(bytes \<times> json) list"

fun json_text :: "json \<Rightarrow> bytes" where
  "json_text (Num ds) = ds"
| "json_text (Obj ms) =
     CHR ''{'' # join_on CHR '','' (map (\<lambda>(k, v). json_string k @ CHR '':'' # json_text v) ms) @ ''}''"

definition room_object :: "room_stats \<Rightarrow> json" where
  "room_object st =
     Obj [(''active_requests'', Num (show_int (sint (StActiveRequests st)))),
          (''queue_depth'', Num (show_int (sint (StQueueDepth st)))),
          (''max_concurrent'', Num (show_int (sint (StMaxConcurrent st)))),
          (''queue_capacity'', Num (show_int (sint (StQueueCapacity st))))]"

definition stats_object :: "room_stats \<Rightarrow> int \<Rightarrow> bytes \<Rightarrow> bytes \<Rightarrow> 32 word \<Rightarrow> json" where
  "stats_object st goroutines allocatedMB sysMB numGC =
     Obj [(''waiting_room'', room_object st), (''goroutines'', Num (show_int goroutines)),
          (''allocated_mb'', Num allocatedMB), (''sys_mb'', Num sysMB), (''num_gc'', Num (show_int (uint numGC)))]"

text \<open>\<open>Encode\<close> writes the text and a newline at once, or nothing after an error.\<close>

definition stats_handler ::
  "room_stats \<Rightarrow> int \<Rightarrow> 64 word \<Rightarrow> 64 word \<Rightarrow> 32 word \<Rightarrow> rw_call list" where
  "stats_handler st numGoroutine alloc sys numGC =
     HeaderSet ''Content-Type'' ''application/json'' #
     (case (json_float (megabytes alloc), json_float (megabytes sys)) of
        (Some a, Some b) \<Rightarrow> [Write (json_text (stats_object st numGoroutine a b numGC) @ [CHR 0x0A])]
      | _ \<Rightarrow> [])"

section \<open>A reader of JSON\<close>

text \<open>Objects of numbers and objects, without blanks and escapes; the fuel is the length of the text.\<close>

fun read_value :: "nat \<Rightarrow> bytes \<Rightarrow> (json \<times> bytes) option"
  and read_members :: "nat \<Rightarrow> bytes \<Rightarrow> ((bytes \<times> json) list \<times> bytes) option" where
  "read_value 0 s = None"
| "read_value (Suc fuel) s =
     (if s \<noteq> [] \<and> hd s = CHR ''{''
      then (if take 1 (tl s) = ''}'' then Some (Obj [], drop 2 s)
            else map_option (\<lambda>(ms, r). (Obj ms, r)) (read_members fuel (tl s)))
      else (let ds = takeWhile float_char s
            in if ds = [] then None else Some (Num ds, dropWhile float_char s)))"
| "read_members 0 s = None"
| "read_members (Suc fuel) s =
     (if take 1 s \<noteq> [CHR 0x22] then None
      else (let k = takeWhile (\<lambda>c. c \<noteq> CHR 0x22) (tl s); u = dropWhile (\<lambda>c. c \<noteq> CHR 0x22) (tl s)
            in if take 2 u \<noteq> [CHR 0x22, CHR '':''] then None
               else (case read_value fuel (drop 2 u) of
                       Some (v, c # w) \<Rightarrow>
                         if c = CHR ''}'' then Some ([(k, v)], w)
                         else if c = CHR '',''
                         then map_option (\<lambda>(ms, r). ((k, v) # ms, r)) (read_members fuel w)
                         else None
                     | _ \<Rightarrow> None)))"

definition read_json :: "bytes \<Rightarrow> json option" where
  "read_json s = (case read_value (Suc (length s)) s of Some (j, []) \<Rightarrow> Some j | _ \<Rightarrow> None)"

text \<open>The values a reader can get back: keys that need no escape, numbers of number bytes.\<close>

definition plain_key :: "bytes \<Rightarrow> bool" where
  "plain_key k \<longleftrightarrow> json_chars k = k \<and> CHR 0x22 \<notin> set k"

fun plain_json :: "json \<Rightarrow> bool" where
  "plain_json (Num ds) \<longleftrightarrow> ds \<noteq> [] \<and> list_all float_char ds"
| "plain_json (Obj ms) \<longleftrightarrow> list_all (\<lambda>(k, v). plain_key k \<and> plain_json v) ms"

fun fuel_of :: "json \<Rightarrow> nat" where
  "fuel_of (Num ds) = 1"
| "fuel_of (Obj ms) = 1 + sum_list (map (\<lambda>(k, v). 1 + fuel_of v) ms)"

lemma num_stops: "\<not> float_char CHR '',''" "\<not> float_char CHR ''}''" "\<not> float_char CHR ''{''"
  by (simp_all add: float_char_def is_digit_def)

lemma take_nums:
  assumes "list_all float_char ds" and "rest = [] \<or> \<not> float_char (hd rest)"
  shows "takeWhile float_char (ds @ rest) = ds" and "dropWhile float_char (ds @ rest) = rest"
proof -
  have "takeWhile float_char rest = []" "dropWhile float_char rest = rest"
    using assms(2) by (cases rest; simp)+
  then show "takeWhile float_char (ds @ rest) = ds" "dropWhile float_char (ds @ rest) = rest"
    using assms(1) by (simp_all add: takeWhile_append2 dropWhile_append2 list_all_iff)
qed

lemma take_key:
  assumes "CHR 0x22 \<notin> set k"
  shows "takeWhile (\<lambda>c. c \<noteq> CHR 0x22) (k @ CHR 0x22 # r) = k"
    and "dropWhile (\<lambda>c. c \<noteq> CHR 0x22) (k @ CHR 0x22 # r) = CHR 0x22 # r"
  using assms by (induction k) auto

text \<open>Reading a rendered value, and the members of an object behind its brace.\<close>

definition rest_ok :: "bytes \<Rightarrow> bool" where
  "rest_ok r \<longleftrightarrow> r = [] \<or> hd r = CHR '','' \<or> hd r = CHR ''}''"

definition member_text :: "bytes \<times> json \<Rightarrow> bytes" where
  "member_text m = (case m of (k, v) \<Rightarrow> json_string k @ CHR '':'' # json_text v)"

lemma read_members_text:
  assumes "\<And>k v f r. (k, v) \<in> set ms \<Longrightarrow> fuel_of v \<le> f \<Longrightarrow> rest_ok r \<Longrightarrow> read_value f (json_text v @ r) = Some (v, r)"
    and "list_all (\<lambda>(k, v). plain_key k \<and> plain_json v) ms" and "ms \<noteq> []"
    and "sum_list (map (\<lambda>(k, v). 1 + fuel_of v) ms) \<le> f"
  shows "read_members f (join_on CHR '','' (map member_text ms) @ CHR ''}'' # r) = Some (ms, r)"
  using assms
proof (induction ms arbitrary: f)
  case (Cons m ms)
  obtain k v where m: "m = (k, v)" by (cases m)
  obtain f' where f: "f = Suc f'" "fuel_of v \<le> f'" "sum_list (map (\<lambda>(k, v). 1 + fuel_of v) ms) \<le> f'"
    using Cons.prems(4) by (cases f) (auto simp: m)
  have key: "json_string k = CHR 0x22 # k @ [CHR 0x22]" "CHR 0x22 \<notin> set k"
    using Cons.prems(2) by (simp_all add: m json_string_def plain_key_def)
  have val: "rest_ok s \<Longrightarrow> read_value f' (json_text v @ s) = Some (v, s)" for s
    using f(2) by (intro Cons.prems(1) [of k]) (simp_all add: m)
  have more: "read_members f' (join_on CHR '','' (map member_text ms) @ CHR ''}'' # r) = Some (ms, r)" if "ms \<noteq> []"
  proof (rule Cons.IH)
    show "read_value g (json_text w @ t) = Some (w, t)" if "(l, w) \<in> set ms" "fuel_of w \<le> g" "rest_ok t" for l w g t
      using that by (intro Cons.prems(1) [of l]) simp_all
  qed (use Cons.prems(2) f(3) that in simp_all)
  show ?case
  proof (cases "ms = []")
    case True
    then show ?thesis by (simp add: f m member_text_def key take_key Let_def val rest_ok_def)
  next
    case False
    then show ?thesis
      using more by (simp add: f m join_Cons member_text_def [of "(k, v)"] key take_key Let_def val rest_ok_def)
  qed
qed simp

lemma text_members:
  "json_text (Obj ms) = CHR ''{'' # join_on CHR '','' (map member_text ms) @ ''}''"
  by (simp add: member_text_def [abs_def])

lemma read_value_text:
  "plain_json j \<Longrightarrow> fuel_of j \<le> f \<Longrightarrow> rest_ok r \<Longrightarrow> read_value f (json_text j @ r) = Some (j, r)"
proof (induction j arbitrary: f r rule: fuel_of.induct)
  case (1 ds)
  then obtain f' where f: "f = Suc f'" by (cases f) auto
  have "r = [] \<or> \<not> float_char (hd r)" using 1(3) num_stops by (auto simp: rest_ok_def)
  moreover have "hd ds \<noteq> CHR ''{''" using 1(1) num_stops by (cases ds) auto
  ultimately show ?case using 1(1) take_nums [of ds r] by (simp add: f Let_def)
next
  case (2 ms)
  then obtain f' where f: "f = Suc f'" by (cases f) auto
  show ?case
  proof (cases "ms = []")
    case False
    have members: "read_members f' (join_on CHR '','' (map member_text ms) @ CHR ''}'' # r) = Some (ms, r)"
    proof (rule read_members_text)
      show "read_value g (json_text v @ t) = Some (v, t)" if "(k, v) \<in> set ms" "fuel_of v \<le> g" "rest_ok t" for k v g t
        using 2(1) [OF that(1) refl] 2(2) that by (auto simp: list_all_iff)
    qed (use 2(2,3) False in \<open>simp_all add: f\<close>)
    have "take 1 (join_on CHR '','' (map member_text ms) @ CHR ''}'' # r) = [CHR 0x22]"
      using False by (cases ms; cases "tl ms") (auto simp: member_text_def json_string_def)
    then show ?thesis using members unfolding text_members by (simp add: f)
  qed (simp add: f)
qed

lemma join_length: "sum_list (map length ts) \<le> length (join_on c ts)"
  by (induction c ts rule: join_on.induct) simp_all

lemma fuel_text: "plain_json j \<Longrightarrow> fuel_of j \<le> length (json_text j)"
proof (induction j rule: fuel_of.induct)
  case (1 ds)
  then show ?case by (cases ds) simp_all
next
  case (2 ms)
  have "1 + fuel_of v \<le> length (member_text (k, v))" if "(k, v) \<in> set ms" for k v
    using 2(1) [OF that refl] 2(2) that by (auto simp: list_all_iff member_text_def)
  then have "sum_list (map (\<lambda>(k, v). 1 + fuel_of v) ms) \<le> sum_list (map (\<lambda>m. length (member_text m)) ms)"
    by (intro sum_list_mono) auto
  also have "\<dots> \<le> length (join_on CHR '','' (map member_text ms))"
    using join_length [of "map member_text ms"] by (simp add: o_def)
  finally show ?case unfolding text_members by simp
qed

text \<open>A JSON text is read back whole.\<close>

lemma read_json_text: "plain_json j \<Longrightarrow> read_json (json_text j) = Some j"
  using read_value_text [of j "Suc (length (json_text j))" "[]"] fuel_text [of j]
  by (simp add: read_json_def rest_ok_def)

section \<open>The readings come back\<close>

lemma show_int_nums: "show_int i \<noteq> [] \<and> list_all float_char (show_int i)"
  using digits_float [OF show_nat_all] by (simp add: show_int_def) (simp add: float_char_def)

lemma uint_loop_digits:
  assumes "list_all is_digit ds" and "0 \<le> n" and "digits_value n ds < 2 ^ 64"
  shows "uint_loop n ds = Inr (digits_value n ds)"
  using assms
proof (induction ds arbitrary: n)
  case (Cons c cs)
  have "0 \<le> digit_val c"
    using Cons.prems(1) of_nat_of_char [where 'a = int, of c] by (simp add: digit_val_def is_digit_def)
  then have "n * 10 + digit_val c \<le> digits_value (n * 10 + digit_val c) cs"
    using Cons.prems by (intro digits_value_mono) simp_all
  then show ?case using Cons \<open>0 \<le> digit_val c\<close> by simp
qed simp

lemma parse_show_int: "parse_int (show_int (sint w)) = Inr w"
proof -
  have uint: "parse_uint (show_nat n) = Inr (int n)" if "int n < 2 ^ 64" for n
    using that show_nat_all by (simp add: parse_uint_def uint_loop_digits)
  have sign: "cut_sign (show_nat n) = (False, show_nat n)" for n
    using show_nat_all [of n] by (cases "show_nat n") (auto simp: digit_plain)
  have range: "- (2 ^ 63) \<le> sint w" "sint w < 2 ^ 63" using sint_ge [of w] sint_lt [of w] by simp_all
  show ?thesis
  proof (cases "sint w < 0")
    case True
    then show ?thesis using range uint [of "nat (- sint w)"] by (simp add: show_int_def parse_int_def)
  next
    case False
    then show ?thesis using range uint [of "nat (sint w)"] by (simp add: show_int_def parse_int_def sign)
  qed
qed

lemma megabytes_finite: "\<exists>x. megabytes n = Fin x \<and> representable x \<and> 0 \<le> x \<and> x < f64_limit"
proof -
  have top: "representable (2 ^ 64)" using representable_pow2 [of 64] by (simp add: power_int_def)
  have lim: "(2 :: rat) ^ 64 < f64_limit" unfolding f64_limit_def by (rule power_strict_increasing) simp_all
  have fin: "f64_of_rat q = Fin (rnd q) \<and> 0 \<le> rnd q \<and> rnd q \<le> 2 ^ 64" if "0 \<le> q" "q \<le> 2 ^ 64" for q
  proof -
    have "0 \<le> rnd q" "rnd q \<le> 2 ^ 64" using that rd.round_nonneg rd.round_le [OF top] by simp_all
    then show ?thesis using lim by (simp add: f64_Fin)
  qed
  have "0 \<le> (of_int (uint n) :: rat)" by (simp only: of_int_0_le_iff) simp
  moreover have "(of_int (uint n) :: rat) \<le> 2 ^ 64"
    using uint_bounded [of n] of_int_le_iff [of "uint n" "2 ^ 64", where 'a = rat] by simp
  ultimately have y: "f64_of_rat (of_int (uint n)) = Fin (rnd (of_int (uint n))) \<and>
      0 \<le> rnd (of_int (uint n)) \<and> rnd (of_int (uint n)) \<le> 2 ^ 64" by (rule fin)
  let ?y = "rnd (of_int (uint n))"
  have z: "f64_of_rat (?y / 1024) = Fin (rnd (?y / 1024)) \<and> 0 \<le> rnd (?y / 1024) \<and> rnd (?y / 1024) \<le> 2 ^ 64"
    using y by (intro fin) simp_all
  let ?z = "rnd (?y / 1024)"
  have x: "f64_of_rat (?z / 1024) = Fin (rnd (?z / 1024)) \<and> 0 \<le> rnd (?z / 1024) \<and> rnd (?z / 1024) \<le> 2 ^ 64"
    using z by (intro fin) simp_all
  then have "megabytes n = Fin (rnd (?z / 1024))" using y z by (simp add: megabytes_def f64_of_int_def)
  then show ?thesis using x lim rd.rep_round by (intro exI [of _ "rnd (?z / 1024)"]) auto
qed

lemma megabytes_exact:
  assumes "uint n < 2 ^ 53"
  shows "megabytes n = Fin (of_int (uint n) / 2 ^ 20)"
proof -
  have rep: "representable (of_int (uint n) / 2 ^ k)" if "k \<le> 1074" for k
    unfolding representable_def
    by (rule exI [of _ "uint n"], rule exI [of _ "- int k"])
      (use assms that in \<open>simp add: power_int_minus divide_inverse\<close>)
  have pos: "0 \<le> (of_int (uint n) :: rat)" by (simp only: of_int_0_le_iff) simp
  have "(of_int (uint n) :: rat) < 2 ^ 53" 
    using assms of_int_less_iff [of "uint n" "2 ^ 53", where 'a = rat] by simp
  then have small: "(of_int (uint n) :: rat) < f64_limit" using f64_limit_big by simp
  have fin: "f64_of_rat (of_int (uint n) / 2 ^ k) = Fin (of_int (uint n) / 2 ^ k)" if "k \<le> 1074" for k
  proof -
    have "(of_int (uint n) :: rat) / 2 ^ k \<le> of_int (uint n)"
      using pos mult_left_mono [OF one_le_power [of "2 :: rat" k] pos] by (simp add: divide_le_eq)
    moreover have "0 \<le> (of_int (uint n) :: rat) / 2 ^ k" using pos by simp
    ultimately show ?thesis using rd.round_rep [OF rep [OF that]] small by (simp add: f64_Fin)
  qed
  show ?thesis using fin [of 0] fin [of 10] fin [of 20] by (simp add: megabytes_def f64_of_int_def)
qed

lemma plain_keys:
  "plain_key ''waiting_room''" "plain_key ''goroutines''" "plain_key ''allocated_mb''" "plain_key ''sys_mb''"
  "plain_key ''num_gc''" "plain_key ''active_requests''" "plain_key ''queue_depth''"
  "plain_key ''max_concurrent''" "plain_key ''queue_capacity''"
  by code_simp+

text \<open>
  C30. The statistics page reads back: its body is one line of JSON in which a reader finds the four figures of
  the waiting room, the number of goroutines and of collections, and for the two sizes texts that
  \<open>ParseFloat\<close> reads as exactly the numbers of megabytes computed, which below \<open>2\<^sup>5\<^sup>3\<close> bytes are exact; every
  integer of the waiting room is read back by \<open>ParseInt\<close>.
\<close>

theorem stats_page_reads_back:
  "\<exists>body a b. stats_handler (GetStats cfg s) n alloc sys gc =
      [HeaderSet ''Content-Type'' ''application/json'', Write (body @ [CHR 0x0A])] \<and>
    read_json body = Some (stats_object (GetStats cfg s) n a b gc) \<and>
    parse_float a = Inr (megabytes alloc) \<and> parse_float b = Inr (megabytes sys) \<and>
    (\<forall>w. uint w < 2 ^ 53 \<longrightarrow> megabytes w = Fin (of_int (uint w) / 2 ^ 20)) \<and>
    (case room_object (GetStats cfg s) of
       Obj [(_, Num t1), (_, Num t2), (_, Num t3), (_, Num t4)] \<Rightarrow>
         map parse_int [t1, t2, t3, t4] =
           map Inr [activeRequests s, queueDepth s, MaxConcurrent cfg, QueueSize cfg]
     | _ \<Rightarrow> False)"
proof -
  have shown: "\<exists>t. json_float (megabytes w) = Some t \<and> parse_float t = Inr (megabytes w) \<and> t \<noteq> [] \<and>
      list_all float_char t" for w
    using megabytes_finite [of w] json_float_reads by (metis abs_of_nonneg)
  obtain a b where a: "json_float (megabytes alloc) = Some a" "parse_float a = Inr (megabytes alloc)" "a \<noteq> []"
      "list_all float_char a"
    and b: "json_float (megabytes sys) = Some b" "parse_float b = Inr (megabytes sys)" "b \<noteq> []"
      "list_all float_char b" using shown by metis
  let ?o = "stats_object (GetStats cfg s) n a b gc"
  have "plain_json ?o"
    using a(3,4) b(3,4) show_int_nums by (simp add: stats_object_def room_object_def plain_keys)
  then have "read_json (json_text ?o) = Some ?o" by (rule read_json_text)
  moreover have "stats_handler (GetStats cfg s) n alloc sys gc =
      [HeaderSet ''Content-Type'' ''application/json'', Write (json_text ?o @ [CHR 0x0A])]"
    using a(1) b(1) by (simp add: stats_handler_def del: json_text.simps)
  ultimately show ?thesis
    using a(2) b(2)
    by (intro exI [of _ "json_text ?o"] exI [of _ a] exI [of _ b])
      (simp add: room_object_def GetStats_def parse_show_int megabytes_exact del: json_text.simps)
qed

theorem stats_page_reads_back_witness:
  "\<exists>body a b. stats_handler (GetStats default_config new_room) 12 1572864 1048576 4 =
      [HeaderSet ''Content-Type'' ''application/json'', Write (body @ [CHR 0x0A])] \<and>
    read_json body = Some (stats_object (GetStats default_config new_room) 12 a b 4) \<and>
    parse_float a = Inr (Fin (3 / 2)) \<and> parse_float b = Inr (Fin 1)"
proof -
  have "uint (1572864 :: 64 word) = 1572864" "uint (1048576 :: 64 word) = 1048576" by simp_all
  with stats_page_reads_back [of default_config new_room 12 1572864 1048576 4] show ?thesis by fastforce
qed

end
