(* ===== verification/Room_Props.thy ===== *)
theory Room_Props
  imports Room_Inv
begin

text \<open>
  What the waiting room guarantees over every schedule, and the schedules on which it falls short of
  its comments: requests beyond the limit, waiters no one wakes, tickets of requests long gone.
\<close>

section \<open>Schedules for the witnesses\<close>

lemma exec_snoc: "exec oor cfg (es @ [e]) s =
    (case exec oor cfg es s of None \<Rightarrow> None | Some s' \<Rightarrow> fire oor cfg e s')"
  by (induction es arbitrary: s) (simp_all split: option.split)

lemma exec_runs: "exec oor cfg es new_room = Some s \<Longrightarrow> runs oor cfg es s"
proof (induction es arbitrary: s rule: rev_induct)
  case (snoc e es)
  then show ?case by (auto simp: exec_snoc split: option.splits intro: runs_snoc)
qed (simp add: runs_nil)

lemma exec_append: "exec oor cfg (es @ fs) s =
    (case exec oor cfg es s of None \<Rightarrow> None | Some s' \<Rightarrow> exec oor cfg fs s')"
  by (induction es arbitrary: s) (simp_all split: option.split)

lemma runs_append: "runs oor cfg es s \<Longrightarrow> exec oor cfg fs s = Some s' \<Longrightarrow> runs oor cfg (es @ fs) s'"
proof (induction fs arbitrary: s' rule: rev_induct)
  case (snoc e fs)
  then show ?case
    by (auto simp: exec_snoc simp flip: append_assoc split: option.splits intro: runs_snoc)
qed simp

text \<open>One backend slot and a queue of \<open>n\<close> places.\<close>

definition tiny_config :: "int64 \<Rightarrow> config" where
  "tiny_config n = default_config\<lparr>MaxConcurrent := 1, QueueSize := n\<rparr>"

lemma tiny [simp]: "MaxConcurrent (tiny_config n) = 1" "QueueSize (tiny_config n) = n"
  by (simp_all add: tiny_config_def)

text \<open>A request served, another queued behind it and about to be woken.\<close>

definition demo :: "event list" where
  "demo = [Arrive 0, Arrive 1, Undo 1, TakePosition 1, Enqueue 1, Release 0, Dequeue (Req 0) 1]"

lemma exec_simps [simp]: "releaseSlot g q s = goto g (Releasing q) (add_active (- 1) s)"
  "signalling (Req g) s = (case pc s g of Releasing q \<Rightarrow> True | _ \<Rightarrow> False)"
  "signalling (Aux g) s = (helper s g = Forwarding)"
  "holding (Req g) s = (case pc s g of Handing q t \<Rightarrow> Some t | _ \<Rightarrow> None)"
  "holding (Aux g) s = (case helper s g of HelperHanding t \<Rightarrow> Some t | _ \<Rightarrow> None)"
  "hold (Req g) t s = (case pc s g of Releasing q \<Rightarrow> goto g (Handing q t) s | _ \<Rightarrow> s)"
  "hold (Aux g) t s = helped g (HelperHanding t) s"
  "finish (Aux g) s = helped g HelperDone s"
  "finish (Req g) s = (case pc s g of Releasing q \<Rightarrow> goto g (Done (Served q)) s
     | Handing q t \<Rightarrow> goto g (Done (Served q)) s | _ \<Rightarrow> s)"
  by (simp_all add: releaseSlot_def actor_defs)

lemma new_room_fields [simp]:
  "activeRequests new_room = 0" "queueDepth new_room = 0" "queue new_room = []"
  "ticket new_room = (\<lambda>_. [])" "pc new_room = (\<lambda>_. Arriving)" "helper new_room = (\<lambda>_. NoHelper)"
  "gone new_room = (\<lambda>_. False)" "calls new_room = (\<lambda>_. [])"
  by (simp_all add: new_room_def)

lemma demo_runs:
  obtains s where "runs oor (tiny_config 1) demo s" and "holding (Req 0) s = Some 1"
proof -
  have "\<exists>s. exec oor (tiny_config 1) demo new_room = Some s \<and> holding (Req 0) s = Some 1"
    by (simp add: demo_def chan_send_def)
  then show thesis using that by (blast intro: exec_runs)
qed

section \<open>Guarantees\<close>

text \<open>C5. The counters are exact in every reachable state: \<open>activeRequests\<close> is the number of requests
  between their increment and their decrement, \<open>queueDepth\<close> the number of those that took a position
  and have not given it back plus the tickets still to be drained, and the queue holds at most
  \<open>QueueSize\<close> tickets.\<close>

theorem counters_exact:
  assumes "runs oor cfg es s"
  shows "activeRequests s = of_int (occ counted (pc s)) \<and>
    queueDepth s = of_int (occ positioned (pc s) + occ draining (helper s)) \<and>
    length (queue s) \<le> unat (QueueSize cfg)"
  using runs_parts [OF assms] by (simp add: counters_ok_def)

theorem counters_exact_witness:
  "\<exists>s. runs (\<lambda>_. 0) (tiny_config 1) demo s \<and> activeRequests s = of_int (occ counted (pc s)) \<and>
    queueDepth s = of_int (occ positioned (pc s) + occ draining (helper s)) \<and>
    length (queue s) \<le> unat (QueueSize (tiny_config 1))"
proof -
  obtain s where run: "runs (\<lambda>_. 0) (tiny_config 1) demo s" by (rule demo_runs)
  with counters_exact [OF run] show ?thesis by blast
qed

text \<open>Everything given back: when every request that arrived is done and every helper has finished,
  both counters are zero, whatever mixture of timeouts, disconnects and completions led there.\<close>

theorem quiescent_zero:
  assumes "runs oor cfg es s"
    and "\<And>g. pc s g = Arriving \<or> (\<exists>c. pc s g = Done c)"
    and "\<And>g. helper s g = NoHelper \<or> helper s g = HelperDone"
  shows "activeRequests s = 0 \<and> queueDepth s = 0"
proof -
  have "\<not> counted (pc s g)" "\<not> positioned (pc s g)" for g
    using assms(2) [of g] by auto
  moreover have "\<not> draining (helper s g)" for g using assms(3) [of g] by auto
  ultimately show ?thesis
    using runs_parts [OF assms(1)] by (simp add: counters_ok_def occ_zero)
qed

theorem quiescent_zero_witness:
  "\<exists>s. runs (\<lambda>_. 0) (tiny_config 1) [Arrive 0, Release 0, QueueEmpty (Req 0)] s \<and>
     activeRequests s = 0 \<and> queueDepth s = 0"
proof -
  obtain s where ex: "exec (\<lambda>_. 0) (tiny_config 1) [Arrive 0, Release 0, QueueEmpty (Req 0)] new_room = Some s"
    and pc: "pc s = (\<lambda>_. Arriving)(0 := Done (Served False))" and h: "helper s = (\<lambda>_. NoHelper)"
    by simp
  have "activeRequests s = 0 \<and> queueDepth s = 0"
    by (rule quiescent_zero [OF exec_runs [OF ex]]) (simp_all add: pc h)
  then show ?thesis using exec_runs [OF ex] by blast
qed

lemma signal_fits:
  assumes run: "runs oor cfg es s" and hold: "holding a s = Some t"
  shows "ticket s t = []"
proof -
  have fin: "finite_room s" and tok: "tickets_ok s" using runs_parts [OF run] by simp_all
  have "0 < occ (pc_holds t) (pc s) \<or> 0 < occ (helper_holds t) (helper s)"
  proof (cases a)
    case (Req g)
    with hold have "pc_holds t (pc s g)" by (auto split: pc.splits)
    with occ_pos [of "pc_holds t" "pc s" g] finite_pred(1) [OF fin, of "pc_holds t"] show ?thesis by simp
  next
    case (Aux g)
    with hold have "helper_holds t (helper s g)" by (auto split: helper.splits)
    with occ_pos [of "helper_holds t" "helper s" g] finite_pred(2) [OF fin, of "helper_holds t"]
    show ?thesis by simp
  qed
  moreover note places_le_1 [OF tok, of t]
  ultimately have "int (length (ticket s t)) = 0"
    using places_nonneg [of t s] unfolding places_def by linarith
  then show ?thesis by simp
qed

text \<open>C19. \<open>signalNext\<close> never blocks: a goroutine that has dequeued a ticket finds its buffer empty, so
  its send is possible in every reachable state.\<close>

theorem send_never_blocks:
  assumes run: "runs oor cfg es s" and hold: "holding a s = Some t"
  shows "\<exists>s'. fire oor cfg (SendTicket a) s = Some s'"
  using hold signal_fits [OF run hold] by (simp add: chan_send_def)

theorem send_never_blocks_witness:
  "\<exists>s s'. runs (\<lambda>_. 0) (tiny_config 1) demo s \<and> holding (Req 0) s = Some 1 \<and>
     fire (\<lambda>_. 0) (tiny_config 1) (SendTicket (Req 0)) s = Some s'"
proof -
  obtain s where run: "runs (\<lambda>_. 0) (tiny_config 1) demo s" "holding (Req 0) s = Some 1" by (rule demo_runs)
  with send_never_blocks [OF run] show ?thesis by blast
qed

text \<open>C8. Strict first-come first-served: in every schedule the tickets are taken from the queue in the
  order in which they entered it.\<close>

theorem queue_fifo:
  assumes "runs oor cfg es s"
  shows "joined es = dequeued es @ queue s"
  using ch.fifo [OF queue_history [OF assms]] by simp

theorem queue_fifo_witness:
  "\<exists>s. runs (\<lambda>_. 0) (tiny_config 1) demo s \<and> joined demo = dequeued demo @ queue s"
proof -
  obtain s where run: "runs (\<lambda>_. 0) (tiny_config 1) demo s" by (rule demo_runs)
  with queue_fifo [OF run] show ?thesis by blast
qed

text \<open>How many requests the backend is serving.\<close>

fun serving :: "pc \<Rightarrow> bool" where
  "serving (Serving q) = True" | "serving _ = False"

lemma occ_mono:
  assumes "\<And>x. P x \<Longrightarrow> Q x" and "finite {i. Q (f i)}"
  shows "occ P f \<le> occ Q f"
  unfolding occ_def using assms by (auto intro!: card_mono)

text \<open>C11. A request admitted directly never exceeds the limit: if an arriving request goes straight to
  the backend, the backend is then serving at most \<open>MaxConcurrent\<close> requests (with fewer than
  \<open>2\<^sup>6\<^sup>3\<close> goroutines).\<close>

theorem direct_within_limit:
  assumes run: "runs oor cfg es s" and few: "card {h. pc s h \<noteq> Arriving} < 2 ^ 63 - 1"
    and fire: "fire oor cfg (Arrive g) s = Some s'" and direct: "pc s' g = Serving False"
  shows "occ serving (pc s') \<le> sint (MaxConcurrent cfg)"
proof -
  have fin: "finite_room s" and cnt: "activeRequests s = of_int (occ counted (pc s))"
    using runs_parts [OF run] by (simp_all add: counters_ok_def)
  have "occ counted (pc s) \<le> occ (\<lambda>p. p \<noteq> Arriving) (pc s)"
    using fin by (intro occ_mono) (auto simp: finite_room_def)
  then have small: "occ counted (pc s) + 1 < 2 ^ 63" using few by (simp add: occ_def)
  from fire direct have arr: "pc s g = Arriving" and pc': "pc s' = (pc s)(g := Serving False)"
    and le: "sint (activeRequests s + 1) \<le> sint (MaxConcurrent cfg)"
    by (auto simp: Let_def split: if_splits)
  have "activeRequests s + 1 = of_int (occ counted (pc s) + 1)" by (simp add: cnt)
  then have "sint (activeRequests s + 1) = occ counted (pc s) + 1"
    using small occ_nonneg [of counted "pc s"]
    by (simp only: sint_sbintrunc') (simp add: signed_take_bit_int_eq_self)
  moreover have "occ serving (pc s) \<le> occ counted (pc s)"
    using finite_pred(1) [OF fin, of counted] by (intro occ_mono) (auto elim: serving.elims)
  moreover have "occ serving (pc s') = occ serving (pc s) + 1"
    by (simp add: pc' occ_pc_upd [OF fin] arr)
  ultimately show ?thesis using le by linarith
qed

theorem direct_within_limit_witness:
  "\<exists>s s'. runs (\<lambda>_. 0) (tiny_config 1) [] s \<and> fire (\<lambda>_. 0) (tiny_config 1) (Arrive 0) s = Some s' \<and>
     occ serving (pc s') \<le> sint (MaxConcurrent (tiny_config 1))"
proof -
  obtain s' where f: "fire (\<lambda>_. 0) (tiny_config 1) (Arrive 0) new_room = Some s'"
    and pc: "pc s' 0 = Serving False" by simp
  have "occ serving (pc s') \<le> sint (MaxConcurrent (tiny_config 1))"
    by (rule direct_within_limit [OF runs_nil _ f pc]) simp
  with f show ?thesis by (blast intro: runs_nil)
qed

section \<open>Progress and termination\<close>

text \<open>Whose goroutine an event is a step of, and the events that wait for a timer.\<close>

fun owner :: "event \<Rightarrow> nat" where
  "owner (Dequeue a t) = (case a of Req g \<Rightarrow> g | Aux g \<Rightarrow> g)"
| "owner (QueueEmpty a) = (case a of Req g \<Rightarrow> g | Aux g \<Rightarrow> g)"
| "owner (SendTicket a) = (case a of Req g \<Rightarrow> g | Aux g \<Rightarrow> g)"
| "owner (Arrive g) = g" | "owner (Undo g) = g" | "owner (TakePosition g) = g"
| "owner (Enqueue g) = g" | "owner (QueueFull g) = g" | "owner (GiveUp g) = g"
| "owner (ReceiveTicket g) = g" | "owner (QueueTimeoutE g) = g" | "owner (ContextDone g) = g"
| "owner (LeaveQueue g) = g" | "owner (CheckContext g) = g" | "owner (Claim g) = g"
| "owner (Release g) = g" | "owner (DrainReceive g) = g" | "owner (DrainTimeout g) = g"
| "owner (DrainLeave g) = g" | "owner (Disconnect g) = g"

text \<open>The steps a request and its helper can still take.\<close>

fun pc_rank :: "pc \<Rightarrow> nat" where
  "pc_rank Arriving = 11" | "pc_rank Over = 10" | "pc_rank Undone = 9" | "pc_rank (Positioned p) = 8"
| "pc_rank (Parked p) = 7" | "pc_rank (Signalled p) = 6" | "pc_rank (Resumed p) = 5"
| "pc_rank (Claiming p) = 4" | "pc_rank (Serving q) = 3" | "pc_rank (Releasing q) = 2"
| "pc_rank (Handing q t) = 1" | "pc_rank (Rejected p) = 1" | "pc_rank (Done c) = 0"

fun helper_rank :: "helper \<Rightarrow> nat" where
  "helper_rank Draining = 4" | "helper_rank DrainSignalled = 3" | "helper_rank Forwarding = 2"
| "helper_rank (HelperHanding t) = 1" | "helper_rank DrainExpired = 1" | "helper_rank _ = 0"

definition rank :: "room \<Rightarrow> nat \<Rightarrow> nat" where
  "rank s g = pc_rank (pc s g) + helper_rank (helper s g) + of_bool (\<not> gone s g)"

lemma rank_step:
  "room_step oor cfg s e s' \<Longrightarrow> helper_ok s \<Longrightarrow>
     rank s' g + of_bool (owner e = g) \<le> rank s g"
  by (induction rule: room_step.induct) (auto simp: rank_def helper_ok_def)

text \<open>The events that wait for a timer, and the goroutine whose program counter an event moves.\<close>

fun by_timer :: "event \<Rightarrow> bool" where
  "by_timer (QueueTimeoutE g) = True" | "by_timer (DrainTimeout g) = True" | "by_timer e = False"

fun moves_request :: "event \<Rightarrow> nat \<Rightarrow> bool" where
  "moves_request (Dequeue a t) h = (a = Req h)" | "moves_request (QueueEmpty a) h = (a = Req h)"
| "moves_request (SendTicket a) h = (a = Req h)" | "moves_request (DrainReceive g) h = False"
| "moves_request (DrainTimeout g) h = False" | "moves_request (DrainLeave g) h = False"
| "moves_request (Disconnect g) h = False" | "moves_request e h = (owner e = h)"

text \<open>The next step of a request's goroutine, and that a request which is not done can take it.\<close>

definition next_event :: "config \<Rightarrow> room \<Rightarrow> nat \<Rightarrow> event" where
  "next_event cfg s g = (case pc s g of
       Arriving \<Rightarrow> Arrive g
     | Over \<Rightarrow> Undo g
     | Undone \<Rightarrow> TakePosition g
     | Positioned p \<Rightarrow> if length (queue s) < unat (QueueSize cfg) then Enqueue g else QueueFull g
     | Rejected p \<Rightarrow> GiveUp g
     | Parked p \<Rightarrow> if ticket s g = [] then QueueTimeoutE g else ReceiveTicket g
     | Signalled p \<Rightarrow> LeaveQueue g
     | Resumed p \<Rightarrow> CheckContext g
     | Claiming p \<Rightarrow> Claim g
     | Serving q \<Rightarrow> Release g
     | Releasing q \<Rightarrow> (case queue s of [] \<Rightarrow> QueueEmpty (Req g) | t # ts \<Rightarrow> Dequeue (Req g) t)
     | _ \<Rightarrow> SendTicket (Req g))"

lemma next_event_moves: "moves_request (next_event cfg s g) g"
  by (simp add: next_event_def split: pc.split list.split)

lemma next_event_timer:
  "by_timer (next_event cfg s g) = (\<exists>p. pc s g = Parked p \<and> ticket s g = [])"
  by (simp add: next_event_def split: pc.split list.split)

lemma next_event_fires:
  assumes "\<And>c. pc s g \<noteq> Done c" and "\<And>q t. pc s g = Handing q t \<Longrightarrow> ticket s t = []"
  shows "\<exists>s'. fire oor cfg (next_event cfg s g) s = Some s'"
  by (cases "pc s g"; cases "queue s"; cases "ticket s g")
    (use assms in \<open>simp_all add: next_event_def chan_send_def Let_def\<close>)

text \<open>C18. No request is ever stuck: in every reachable state, a request that is not done can take a step
  of its own at once, unless it is parked and its ticket has not been signalled; then its queue timer
  moves it.\<close>

theorem request_progress:
  assumes run: "runs oor cfg es s" and g: "\<And>c. pc s g \<noteq> Done c"
  shows "\<exists>e s'. moves_request e g \<and> fire oor cfg e s = Some s' \<and>
    by_timer e = (\<exists>p. pc s g = Parked p \<and> ticket s g = [])"
proof -
  have "ticket s t = []" if "pc s g = Handing q t" for q t
    using signal_fits [OF run, of "Req g" t] that by simp
  then have "\<exists>s'. fire oor cfg (next_event cfg s g) s = Some s'" using g by (intro next_event_fires)
  then show ?thesis using next_event_moves next_event_timer by metis
qed

theorem request_progress_witness:
  "\<exists>s e s'. runs (\<lambda>_. 0) (tiny_config 1) demo s \<and> moves_request e 0 \<and>
     fire (\<lambda>_. 0) (tiny_config 1) e s = Some s' \<and>
     by_timer e = (\<exists>p. pc s 0 = Parked p \<and> ticket s 0 = [])"
proof -
  obtain s where run: "runs (\<lambda>_. 0) (tiny_config 1) demo s" and h: "holding (Req 0) s = Some 1"
    by (rule demo_runs)
  from h have "pc s 0 \<noteq> Done c" for c by (auto split: pc.splits)
  with request_progress [OF run, of 0] run show ?thesis by blast
qed

text \<open>C17. Every request comes to an end: in any schedule, the events of one request, those of its helper
  and its client's disconnect included, are at most twelve.\<close>

theorem request_terminates:
  assumes "runs oor cfg es s"
  shows "length (filter (\<lambda>e. owner e = g) es) \<le> 12"
proof -
  have "length (filter (\<lambda>e. owner e = g) es) + rank s g \<le> 12"
    using assms
  proof (induction rule: runs_step_induct)
    case nil
    then show ?case by (simp add: rank_def)
  next
    case (step es s e s')
    have "helper_ok s" using runs_parts [OF step.hyps(1)] by simp
    from rank_step [OF step.hyps(2) this, of g] step.IH show ?case by (auto split: if_splits)
  qed
  then show ?thesis by simp
qed

theorem request_terminates_witness:
  "\<exists>s. runs (\<lambda>_. 0) (tiny_config 1) demo s \<and> length (filter (\<lambda>e. owner e = 1) demo) \<le> 12"
proof -
  obtain s where run: "runs (\<lambda>_. 0) (tiny_config 1) demo s" by (rule demo_runs)
  with request_terminates [OF run] show ?thesis by blast
qed

section \<open>Conservation of signals\<close>

text \<open>
  The signals on their way: a goroutine that owes one, a waiter that has received one and not yet
  claimed its slot, and a ticket that holds one and that a parked request or a drain will read.
\<close>

fun pc_signal :: "pc \<Rightarrow> bool" where
  "pc_signal (Releasing q) = True" | "pc_signal (Handing q t) = True"
| "pc_signal (Signalled p) = True" | "pc_signal (Resumed p) = True" | "pc_signal (Claiming p) = True"
| "pc_signal _ = False"

fun helper_signal :: "helper \<Rightarrow> bool" where
  "helper_signal DrainSignalled = True" | "helper_signal Forwarding = True"
| "helper_signal (HelperHanding t) = True" | "helper_signal _ = False"

definition in_flight :: "room \<Rightarrow> int" where
  "in_flight s =
     occ pc_signal (pc s) + occ helper_signal (helper s) + int (card {t. ticket s t \<noteq> [] \<and> waiting s t})"

text \<open>Those lost: in the buffer of a ticket whose drain gave up at its safety timeout.\<close>

definition stranded :: "event list \<Rightarrow> room \<Rightarrow> int" where
  "stranded es s = int (card {t. ticket s t \<noteq> [] \<and> DrainTimeout t \<in> set es})"

definition releases :: "event list \<Rightarrow> nat" where
  "releases es = length (filter (\<lambda>e. case e of Release g \<Rightarrow> True | _ \<Rightarrow> False) es)"

definition claims :: "event list \<Rightarrow> nat" where
  "claims es = length (filter (\<lambda>e. case e of Claim g \<Rightarrow> True | _ \<Rightarrow> False) es)"

definition nobody_waiting :: "event list \<Rightarrow> nat" where
  "nobody_waiting es = length (filter (\<lambda>e. case e of QueueEmpty a \<Rightarrow> True | _ \<Rightarrow> False) es)"

lemma ticket_places: "int (length (ticket s t)) \<le> places s t"
  using places_nonneg [of t s] unfolding places_def by linarith

lemma ticket_le_1: "tickets_ok s \<Longrightarrow> length (ticket s t) \<le> 1"
  using places_le_1 [of s t] ticket_places [of s t] by linarith

lemma finite_tickets:
  assumes fin: "finite_room s" and tok: "tickets_ok s"
  shows "finite {t. ticket s t \<noteq> []}"
proof (rule finite_subset)
  show "{t. ticket s t \<noteq> []} \<subseteq> {t. pc s t \<noteq> Arriving} \<union> {t. helper s t \<noteq> NoHelper}"
  proof (rule subsetI, rule ccontr)
    fix t assume t: "t \<in> {t. ticket s t \<noteq> []}"
      and "t \<notin> {t. pc s t \<noteq> Arriving} \<union> {t. helper s t \<noteq> NoHelper}"
    then have "\<not> waiting s t" "\<not> dead s t" by (auto simp: waiting_def dead_def)
    then have "places s t = 0" using tok by (auto simp: tickets_ok_def)
    with ticket_places [of s t] t show False by simp
  qed
qed (use fin in \<open>simp add: finite_room_def\<close>)

definition unclaimed :: "room \<Rightarrow> int" where
  "unclaimed s =
     occ pc_signal (pc s) + occ helper_signal (helper s) + occ (\<lambda>b. b \<noteq> []) (ticket s)"

lemma unclaimed_step:
  assumes step: "room_step oor cfg s e s'" and fin: "finite_room s" and hok: "helper_ok s"
    and tok: "tickets_ok s"
  shows "unclaimed s' = unclaimed s + int (releases [e]) - int (claims [e]) - int (nobody_waiting [e])"
proof -
  have nh: "helper s g = NoHelper" if "\<And>c. pc s g \<noteq> Done c" for g
    using hok that by (simp add: helper_ok_def)
  have one: "b = []" if "ticket s t = u # b" for t u b
    using ticket_le_1 [OF tok, of t] that by simp
  note tk = occ_upd [where P = "\<lambda>b. b \<noteq> []" and f = "ticket s", OF finite_tickets [OF fin tok]]
  from step show ?thesis
    by cases (use one in \<open>auto simp: unclaimed_def releases_def claims_def nobody_waiting_def nh tk
        occ_pc_upd [OF fin] occ_helper_upd [OF fin]\<close>)
qed

lemma unclaimed_runs:
  assumes "runs oor cfg es s"
  shows "int (releases es) = int (claims es) + int (nobody_waiting es) + unclaimed s"
  using assms
proof (induction rule: runs_step_induct)
  case nil
  then show ?case by (simp add: releases_def claims_def nobody_waiting_def unclaimed_def occ_zero)
next
  case (step es s e s')
  have split: "releases (es @ [e]) = releases es + releases [e]" "claims (es @ [e]) = claims es + claims [e]"
    "nobody_waiting (es @ [e]) = nobody_waiting es + nobody_waiting [e]"
    by (simp_all add: releases_def claims_def nobody_waiting_def)
  have "finite_room s" "helper_ok s" "tickets_ok s" using runs_parts [OF step.hyps(1)] by simp_all
  from unclaimed_step [OF step.hyps(2) this] step.IH show ?case by (simp add: split)
qed

text \<open>
  A ticket whose drain has not given up is in one place while its request or its drain waits on it, and
  in none before and after.
\<close>

definition strict :: "event list \<Rightarrow> room \<Rightarrow> bool" where
  "strict es s \<longleftrightarrow>
     (\<forall>t. if DrainTimeout t \<in> set es then dead s t
          else helper s t \<noteq> DrainExpired \<and> (if waiting s t then places s t = 1 else places s t = 0))"

lemma dead_step:
  assumes step: "room_step oor cfg s e s'" and hok: "helper_ok s" and "dead s t \<or> e = DrainTimeout t"
  shows "dead s' t"
proof -
  have nh: "helper s g = NoHelper" if "\<And>c. pc s g \<noteq> Done c" for g
    using hok that by (simp add: helper_ok_def)
  from step assms(3) show ?thesis by cases (auto simp: dead_def nh)
qed

lemma alive_step:
  assumes step: "room_step oor cfg s e s'" and "e \<noteq> DrainTimeout t"
    and fin: "finite_room s" and hok: "helper_ok s"
    and t: "helper s t \<noteq> DrainExpired \<and> (if waiting s t then places s t = 1 else places s t = 0)"
  shows "helper s' t \<noteq> DrainExpired \<and> (if waiting s' t then places s' t = 1 else places s' t = 0)"
proof -
  have nh: "helper s g = NoHelper" if "\<And>c. pc s g \<noteq> Done c" for g
    using hok that by (simp add: helper_ok_def)
  note defs = places_def waiting_def
  from step assms(2) show ?thesis
    by cases (use t in \<open>auto simp: defs occ_pc_upd [OF fin] occ_helper_upd [OF fin] nh split: if_splits\<close>)
qed

lemma strict_step:
  assumes step: "room_step oor cfg s e s'" and fin: "finite_room s" and hok: "helper_ok s"
    and ok: "strict es s"
  shows "strict (es @ [e]) s'"
  unfolding strict_def
proof
  fix t
  have "if DrainTimeout t \<in> set es then dead s t
      else helper s t \<noteq> DrainExpired \<and> (if waiting s t then places s t = 1 else places s t = 0)"
    using ok unfolding strict_def by (rule spec)
  then show "if DrainTimeout t \<in> set (es @ [e]) then dead s' t
      else helper s' t \<noteq> DrainExpired \<and> (if waiting s' t then places s' t = 1 else places s' t = 0)"
    using dead_step [OF step hok, of t] alive_step [OF step _ fin hok, of t]
    by (cases "DrainTimeout t \<in> set es"; cases "e = DrainTimeout t") simp_all
qed

lemma runs_strict: "runs oor cfg es s \<Longrightarrow> strict es s"
proof (induction rule: runs_step_induct)
  case (step es s e s')
  have "finite_room s" "helper_ok s" using runs_parts [OF step.hyps(1)] by simp_all
  with step show ?case by (blast intro: strict_step)
qed (simp add: strict_def waiting_def places_def occ_zero)

lemma signal_owner:
  assumes "runs oor cfg es s" and "ticket s t \<noteq> []"
  shows "waiting s t \<or> DrainTimeout t \<in> set es"
proof -
  have "places s t \<noteq> 0" using assms(2) ticket_places [of s t] by auto
  then show ?thesis
    using runs_strict [OF assms(1)] by (auto simp: strict_def split: if_splits)
qed

lemma expired_not_waiting:
  assumes "runs oor cfg es s" and "DrainTimeout t \<in> set es"
  shows "\<not> waiting s t"
proof -
  have "dead s t" using runs_strict [OF assms(1), unfolded strict_def, THEN spec, of t] by (simp only: assms(2) if_True)
  moreover have "helper_ok s" using runs_parts [OF assms(1)] by simp
  then have "helper s t = NoHelper" if "pc s t = Parked p" for p using that by (simp add: helper_ok_def)
  ultimately show ?thesis by (auto simp: waiting_def dead_def)
qed

text \<open>C20. No signal vanishes but by the drain's safety timeout: every completed request sends one, and each
  is accounted for as claimed by a waiter that was admitted, as given up because the queue was empty, as on
  its way, which ends at a parked request or a drain that will read it, or as stranded in the ticket of a
  request whose drain gave up.\<close>

theorem signals_conserved:
  assumes "runs oor cfg es s"
  shows "int (releases es) = int (claims es) + int (nobody_waiting es) + in_flight s + stranded es s"
proof -
  let ?held = "{t. ticket s t \<noteq> []}"
  let ?read = "{t. ticket s t \<noteq> [] \<and> waiting s t}" and ?lost = "{t. ticket s t \<noteq> [] \<and> DrainTimeout t \<in> set es}"
  have "finite ?held" using runs_parts [OF assms] by (intro finite_tickets) simp_all
  moreover have "?held = ?read \<union> ?lost" using signal_owner [OF assms] by blast
  moreover have "?read \<inter> ?lost = {}" using expired_not_waiting [OF assms] by blast
  ultimately have "card ?held = card ?read + card ?lost"
    using card_Un_disjoint [of ?read ?lost] by (simp only: finite_Un)
  then show ?thesis
    using unclaimed_runs [OF assms] by (simp add: unclaimed_def in_flight_def stranded_def occ_def)
qed

text \<open>
  A request is served while another queues, times out and leaves its drain, which gives up; the signal of
  the first is then stranded.
\<close>

theorem signals_conserved_witness:
  "\<exists>es s. runs (\<lambda>_. 0) (tiny_config 1) es s \<and> releases es = 1 \<and>
     in_flight s + stranded es s = 1 \<and> stranded es s = 1"
proof -
  let ?es = "[Arrive 0, Arrive 1, Undo 1, TakePosition 1, Enqueue 1, QueueTimeoutE 1, DrainTimeout 1,
    DrainLeave 1, Release 0, Dequeue (Req 0) 1, SendTicket (Req 0)]"
  have "\<exists>s. exec (\<lambda>_. 0) (tiny_config 1) ?es new_room = Some s \<and> ticket s = (\<lambda>_. [])(1 := [()])"
    by (simp add: chan_send_def)
  then obtain s where run: "runs (\<lambda>_. 0) (tiny_config 1) ?es s" and t: "ticket s = (\<lambda>_. [])(1 := [()])"
    by (blast intro: exec_runs)
  have "{t. ticket s t \<noteq> [] \<and> DrainTimeout t \<in> set ?es} = {1}" by (auto simp: t)
  then have "stranded ?es s = 1" by (simp only: stranded_def) simp
  with signals_conserved [OF run] run show ?thesis
    by (intro exI [of _ ?es] exI [of _ s]) (simp add: releases_def claims_def nobody_waiting_def)
qed

text \<open>As long as no drain's safety timeout fires, no signal is out of reach: a ticket that holds one
  belongs to a parked request or to a drain that will pass it on.\<close>

theorem signals_reachable:
  assumes "runs oor cfg es s" and "list_all (\<lambda>e. \<not> (case e of DrainTimeout g \<Rightarrow> True | _ \<Rightarrow> False)) es"
    and "ticket s t \<noteq> []"
  shows "(\<exists>p. pc s t = Parked p) \<or> helper s t = Draining"
  using signal_owner [OF assms(1,3)] assms(2) by (auto simp: waiting_def list_all_iff)

theorem signals_reachable_witness:
  "\<exists>s. runs (\<lambda>_. 0) (tiny_config 1) (demo @ [SendTicket (Req 0)]) s \<and> ticket s 1 \<noteq> [] \<and>
     ((\<exists>p. pc s 1 = Parked p) \<or> helper s 1 = Draining)"
proof -
  have "\<exists>s. exec (\<lambda>_. 0) (tiny_config 1) (demo @ [SendTicket (Req 0)]) new_room = Some s \<and> ticket s 1 \<noteq> []"
    by (simp add: demo_def chan_send_def)
  then obtain s where run: "runs (\<lambda>_. 0) (tiny_config 1) (demo @ [SendTicket (Req 0)]) s"
    and t: "ticket s 1 \<noteq> []" by (blast intro: exec_runs)
  from signals_reachable [OF run _ t] run t show ?thesis by (auto simp: demo_def)
qed

end
