(* ===== verification/Room_Limits.thy ===== *)
theory Room_Limits
  imports Room_Props
begin

text \<open>
  Schedules on which the waiting room does not do what its comments say, as reachable states of the
  model.
\<close>

section \<open>More requests than the limit\<close>

text \<open>A configuration that loads, with a limit below the largest integer.\<close>

definition limits :: "config \<Rightarrow> bool" where
  "limits cfg \<longleftrightarrow>
     1 \<le> sint (MaxConcurrent cfg) \<and> sint (MaxConcurrent cfg) < 2 ^ 63 - 1 \<and> QueueSize cfg \<noteq> 0"

lemma limits_next: "limits cfg \<Longrightarrow> sint (MaxConcurrent cfg + 1) = sint (MaxConcurrent cfg) + 1"
  by (simp add: limits_def sint_word_ariths signed_take_bit_int_eq_self)

lemma limits_free:
  assumes "limits cfg" and "int k < sint (MaxConcurrent cfg)"
  shows "sint (1 + of_nat k :: int64) \<le> sint (MaxConcurrent cfg)"
proof -
  have "(1 + of_nat k :: int64) = of_int (1 + int k)" by simp
  moreover have "1 + int k < 2 ^ 63" using assms by (simp add: limits_def)
  then have "sint (of_int (1 + int k) :: int64) = 1 + int k"
    by (simp only: sint_sbintrunc') (simp add: signed_take_bit_int_eq_self)
  ultimately show ?thesis using assms(2) by simp
qed

text \<open>First all slots but one are taken, by requests that stay at the backend.\<close>

definition taken :: "nat \<Rightarrow> room \<Rightarrow> bool" where
  "taken k s \<longleftrightarrow>
     activeRequests s = of_nat k \<and> queue s = [] \<and> (\<forall>g. gone s g = False) \<and> (\<forall>g. ticket s g = []) \<and>
     (\<forall>g\<ge>k. pc s g = Arriving)"

lemma taken_step:
  assumes cfg: "limits cfg" and k: "int k < sint (MaxConcurrent cfg)" and s: "taken k s"
  shows "\<exists>s'. exec oor cfg [Arrive k] s = Some s' \<and> taken (Suc k) s'"
  using s limits_free [OF cfg k] by (auto simp: taken_def add.commute)

lemma taken_reachable:
  assumes cfg: "limits cfg" and k: "int k \<le> sint (MaxConcurrent cfg)"
  shows "\<exists>es s. runs oor cfg es s \<and> taken k s"
  using k
proof (induction k)
  case 0
  show ?case by (intro exI conjI, rule runs_nil) (simp add: taken_def)
next
  case (Suc k)
  then obtain es s where run: "runs oor cfg es s" and s: "taken k s" by fastforce
  obtain s' where "exec oor cfg [Arrive k] s = Some s'" and "taken (Suc k) s'"
    using taken_step [OF cfg _ s] Suc.prems by fastforce
  then show ?case using runs_append [OF run] by blast
qed

text \<open>
  Then rounds: a request is served in the last slot, another queues behind it, the first leaves and
  signals it, and the second has not been scheduled yet.  The slot is free again, and the next round
  begins.
\<close>

definition round_of :: "nat \<Rightarrow> nat \<Rightarrow> event list" where
  "round_of d w =
     [Arrive d, Arrive w, Undo w, TakePosition w, Enqueue w, Release d, Dequeue (Req d) w,
      SendTicket (Req d)]"

text \<open>The waiters of the rounds behind the first \<open>b\<close> requests, signalled and still parked.\<close>

definition piled :: "config \<Rightarrow> nat \<Rightarrow> nat \<Rightarrow> room \<Rightarrow> bool" where
  "piled cfg b n s \<longleftrightarrow>
     activeRequests s = MaxConcurrent cfg - 1 \<and> queue s = [] \<and> (\<forall>g. gone s g = False) \<and>
     (\<forall>g\<ge>n. pc s (b + 2 * g) = Arriving \<and> pc s (b + 2 * g + 1) = Arriving \<and> ticket s (b + 2 * g + 1) = []) \<and>
     (\<forall>g<n. ticket s (b + 2 * g + 1) = [()] \<and> (\<exists>p. pc s (b + 2 * g + 1) = Parked p))"

lemma piled_round:
  assumes cfg: "limits cfg" and s: "piled cfg b n s"
  shows "\<exists>s'. exec oor cfg (round_of (b + 2 * n) (b + 2 * n + 1)) s = Some s' \<and> piled cfg b (Suc n) s'"
proof -
  have free: "pc s (b + 2 * n) = Arriving" "pc s (Suc (b + 2 * n)) = Arriving"
    "ticket s (Suc (b + 2 * n)) = []" "activeRequests s = MaxConcurrent cfg - 1" "queue s = []"
    using s unfolding piled_def by auto
  have room: "0 < unat (QueueSize cfg)" using cfg by (simp add: limits_def unat_gt_0)
  have over: "\<not> sint (MaxConcurrent cfg + 1) \<le> sint (MaxConcurrent cfg)" using limits_next [OF cfg] by simp
  let ?s = "exec oor cfg (round_of (b + 2 * n) (b + 2 * n + 1)) s"
  have "\<exists>s'. ?s = Some s' \<and> activeRequests s' = MaxConcurrent cfg - 1 \<and> queue s' = [] \<and> gone s' = gone s \<and>
      pc s' = (pc s)(b + 2 * n := Done (Served False), Suc (b + 2 * n) := Parked (queueDepth s + 1)) \<and>
      ticket s' = (ticket s)(Suc (b + 2 * n) := [()])"
    using over room by (simp add: round_of_def free chan_send_def fun_upd_twist)
  then obtain s' where s': "?s = Some s'" and
    "activeRequests s' = MaxConcurrent cfg - 1" "queue s' = []" "gone s' = gone s"
    "pc s' = (pc s)(b + 2 * n := Done (Served False), Suc (b + 2 * n) := Parked (queueDepth s + 1))"
    "ticket s' = (ticket s)(Suc (b + 2 * n) := [()])" by blast
  then have "piled cfg b (Suc n) s'"
    using s unfolding piled_def by (auto simp: less_Suc_eq)
  with s' show ?thesis by blast
qed

lemma piled_reachable:
  assumes cfg: "limits cfg"
  shows "\<exists>es s. runs oor cfg es s \<and> piled cfg (nat (sint (MaxConcurrent cfg) - 1)) n s"
proof (induction n)
  case 0
  let ?b = "nat (sint (MaxConcurrent cfg) - 1)"
  have b: "int ?b = sint (MaxConcurrent cfg) - 1" using cfg by (simp add: limits_def)
  then obtain es s where run: "runs oor cfg es s" and s: "taken ?b s"
    using taken_reachable [OF cfg, of ?b oor] by fastforce
  have "(of_nat ?b :: int64) = of_int (int ?b)" by (rule of_int_of_nat_eq [symmetric])
  also have "\<dots> = MaxConcurrent cfg - 1" unfolding b by simp
  finally have "activeRequests s = MaxConcurrent cfg - 1" using s by (simp add: taken_def)
  with s have "piled cfg ?b 0 s" by (simp add: taken_def piled_def)
  with run show ?case by blast
next
  case (Suc n)
  then show ?case using piled_round [OF cfg] runs_append by blast
qed

text \<open>Then the waiters wake, one after the other.\<close>

definition wake :: "nat \<Rightarrow> event list" where
  "wake w = [ReceiveTicket w, LeaveQueue w, CheckContext w, Claim w]"

definition woken :: "nat \<Rightarrow> nat \<Rightarrow> nat \<Rightarrow> room \<Rightarrow> bool" where
  "woken b n k s \<longleftrightarrow>
     (\<forall>g. gone s g = False) \<and> (\<forall>g<k. pc s (b + 2 * g + 1) = Serving True) \<and>
     (\<forall>g. k \<le> g \<and> g < n \<longrightarrow> ticket s (b + 2 * g + 1) = [()] \<and> (\<exists>p. pc s (b + 2 * g + 1) = Parked p))"

lemma woken_step:
  assumes "woken b n k s" and "k < n"
  shows "\<exists>s'. exec oor cfg (wake (b + 2 * k + 1)) s = Some s' \<and> woken b n (Suc k) s'"
proof -
  from assms obtain p where k: "pc s (Suc (b + 2 * k)) = Parked p" "ticket s (Suc (b + 2 * k)) = [()]"
    "gone s (Suc (b + 2 * k)) = False"
    by (auto simp: woken_def)
  let ?s = "exec oor cfg (wake (b + 2 * k + 1)) s"
  have "\<exists>s'. ?s = Some s' \<and> gone s' = gone s \<and> pc s' = (pc s)(Suc (b + 2 * k) := Serving True) \<and>
      ticket s' = (ticket s)(Suc (b + 2 * k) := [])"
    by (simp add: wake_def k)
  then obtain s' where s': "?s = Some s'" and "gone s' = gone s"
    "pc s' = (pc s)(Suc (b + 2 * k) := Serving True)" "ticket s' = (ticket s)(Suc (b + 2 * k) := [])" by blast
  then have "woken b n (Suc k) s'"
    using assms unfolding woken_def by (auto simp: less_Suc_eq)
  with s' show ?thesis by blast
qed

lemma woken_reachable:
  assumes "limits cfg"
  shows "k \<le> n \<Longrightarrow> \<exists>es s. runs oor cfg es s \<and> woken (nat (sint (MaxConcurrent cfg) - 1)) n k s"
proof (induction k)
  case 0
  let ?b = "nat (sint (MaxConcurrent cfg) - 1)"
  obtain es s where "runs oor cfg es s" and "piled cfg ?b n s" using piled_reachable [OF assms] by blast
  moreover from this have "woken ?b n 0 s" by (simp add: piled_def woken_def)
  ultimately show ?case by blast
next
  case (Suc k)
  let ?b = "nat (sint (MaxConcurrent cfg) - 1)"
  from Suc obtain es s where "runs oor cfg es s" "woken ?b n k s" by auto
  with woken_step [of ?b n k s] Suc.prems show ?case by (metis Suc_le_eq runs_append)
qed

text \<open>C40. The overshoot has no bound: with any limit (below the largest integer) and a queue of any size,
  for every \<open>n\<close> there is a schedule after which at least \<open>n\<close> requests are at the backend at once (the
  comment allows one more per processor core).\<close>

theorem overshoot_unbounded:
  assumes "1 \<le> sint (MaxConcurrent cfg)" and "sint (MaxConcurrent cfg) < 2 ^ 63 - 1" and "QueueSize cfg \<noteq> 0"
  shows "\<exists>es s. runs oor cfg es s \<and> int n \<le> occ serving (pc s)"
proof -
  let ?b = "nat (sint (MaxConcurrent cfg) - 1)"
  obtain es s where run: "runs oor cfg es s" and w: "woken ?b n n s"
    using woken_reachable [of cfg n n oor] assms unfolding limits_def by blast
  have "inj_on (\<lambda>g. ?b + 2 * g + 1) {..<n}" by (rule inj_onI) simp
  then have "n = card ((\<lambda>g. ?b + 2 * g + 1) ` {..<n})" by (simp add: card_image)
  also have "\<dots> \<le> card {g. serving (pc s g)}"
    using w runs_parts [OF run] by (intro card_mono finite_pred(1)) (auto simp: woken_def)
  finally show ?thesis using run unfolding occ_def by (intro exI conjI) (assumption, simp)
qed

theorem overshoot_unbounded_witness:
  "\<exists>es s. runs (\<lambda>_. 0) default_config es s \<and> 1000 \<le> occ serving (pc s)"
  using overshoot_unbounded [of default_config "\<lambda>_. 0" 1000] by (simp add: default_config_def)

section \<open>A waiter no one wakes\<close>

lemma only_events:
  "(\<And>e s'. room_step oor cfg s e s' \<Longrightarrow> e \<in> E) \<Longrightarrow> {e. \<exists>s'. fire oor cfg e s = Some s'} \<subseteq> E"
  by (auto simp: fire_iff_step)

text \<open>C39. The lost wake-up: a request that found the limit reached may enter the queue after the last
  request has left and found the queue empty.  Then every slot is free and the request still waits:
  nothing but its queue timeout, a disconnect or the arrival of another request can happen.\<close>

theorem lost_wakeup:
  "\<exists>es s p. runs oor (tiny_config 1) es s \<and> activeRequests s = 0 \<and> pc s 1 = Parked p \<and>
     queue s = [1] \<and>
     {e. \<exists>s'. fire oor (tiny_config 1) e s = Some s'} \<subseteq>
       insert (QueueTimeoutE 1) (range Disconnect \<union> range Arrive)"
proof -
  define es where "es = [Arrive 0, Arrive 1, Undo 1, TakePosition 1, Release 0, QueueEmpty (Req 0), Enqueue 1]"
  have "\<exists>s. exec oor (tiny_config 1) es new_room = Some s \<and> activeRequests s = 0 \<and> queue s = [1] \<and>
      pc s = (\<lambda>_. Arriving)(0 := Done (Served False), 1 := Parked 1) \<and> helper s = (\<lambda>_. NoHelper) \<and>
      ticket s = (\<lambda>_. []) \<and> gone s = (\<lambda>_. False)"
    by (simp add: es_def chan_send_def fun_upd_twist)
  then obtain s where ex: "exec oor (tiny_config 1) es new_room = Some s"
    and s: "activeRequests s = 0" "queue s = [1]"
      "pc s = (\<lambda>_. Arriving)(0 := Done (Served False), 1 := Parked 1)" "helper s = (\<lambda>_. NoHelper)"
      "ticket s = (\<lambda>_. [])" "gone s = (\<lambda>_. False)" by blast
  have "{e. \<exists>s'. fire oor (tiny_config 1) e s = Some s'} \<subseteq>
      insert (QueueTimeoutE 1) (range Disconnect \<union> range Arrive)"
  proof (rule only_events)
    fix e s' assume "room_step oor (tiny_config 1) s e s'"
    then show "e \<in> insert (QueueTimeoutE 1) (range Disconnect \<union> range Arrive)"
      by cases (simp_all add: s split: if_splits)
  qed
  with exec_runs [OF ex] s show ?thesis
    by (intro exI [of _ es] exI [of _ s] exI [of _ 1]) simp
qed

section \<open>Tickets of requests long gone\<close>

text \<open>The drain's safety timeout leaves its ticket in the queue: afterwards a completed request's
  signal goes to that ticket and is never read, while a live request behind it stays parked with every
  slot free and no goroutine left to wake it.\<close>

theorem dead_ticket_swallows_signal:
  "\<exists>es s p. runs oor (tiny_config 2) es s \<and> activeRequests s = 0 \<and> pc s 2 = Parked p \<and>
     queue s = [2] \<and> ticket s 1 = [()] \<and> pc s 1 = Done TimeoutPage \<and> helper s 1 = HelperDone \<and>
     {e. \<exists>s'. fire oor (tiny_config 2) e s = Some s'} \<subseteq>
       insert (QueueTimeoutE 2) (range Disconnect \<union> range Arrive)"
proof -
  define es where "es = [Arrive 0, Arrive 1, Undo 1, TakePosition 1, Enqueue 1, QueueTimeoutE 1,
    DrainTimeout 1, DrainLeave 1, Arrive 2, Undo 2, TakePosition 2, Enqueue 2, Release 0,
    Dequeue (Req 0) 1, SendTicket (Req 0)]"
  have "\<exists>s. exec oor (tiny_config 2) es new_room = Some s \<and> activeRequests s = 0 \<and> queue s = [2] \<and>
      pc s = (\<lambda>_. Arriving)(0 := Done (Served False), 1 := Done TimeoutPage, 2 := Parked 1) \<and>
      helper s = (\<lambda>_. NoHelper)(1 := HelperDone) \<and> ticket s = (\<lambda>_. [])(1 := [()]) \<and>
      gone s = (\<lambda>_. False)"
    by (simp add: es_def chan_send_def fun_upd_twist)
  then obtain s where ex: "exec oor (tiny_config 2) es new_room = Some s"
    and s: "activeRequests s = 0" "queue s = [2]"
      "pc s = (\<lambda>_. Arriving)(0 := Done (Served False), 1 := Done TimeoutPage, 2 := Parked 1)"
      "helper s = (\<lambda>_. NoHelper)(1 := HelperDone)" "ticket s = (\<lambda>_. [])(1 := [()])"
      "gone s = (\<lambda>_. False)" by blast
  have "{e. \<exists>s'. fire oor (tiny_config 2) e s = Some s'} \<subseteq>
      insert (QueueTimeoutE 2) (range Disconnect \<union> range Arrive)"
  proof (rule only_events)
    fix e s' assume "room_step oor (tiny_config 2) s e s'"
    then show "e \<in> insert (QueueTimeoutE 2) (range Disconnect \<union> range Arrive)"
      by cases (simp_all add: s split: if_splits)
  qed
  with exec_runs [OF ex] s show ?thesis
    by (intro exI [of _ es] exI [of _ s] exI [of _ 1]) simp
qed

text \<open>Such tickets also use up the queue: with no request waiting and a queue depth of zero, the
  queue can be full, and the next request beyond the limit is turned away.\<close>

theorem dead_ticket_fills_queue:
  "\<exists>es s. runs oor (tiny_config 1) es s \<and> occ positioned (pc s) = 0 \<and> queueDepth s = 0 \<and>
     length (queue s) = unat (QueueSize (tiny_config 1)) \<and>
     exec oor (tiny_config 1) [Arrive 2, Undo 2, TakePosition 2, QueueFull 2] s \<noteq> None"
proof -
  define es where "es = [Arrive 0, Arrive 1, Undo 1, TakePosition 1, Enqueue 1, QueueTimeoutE 1,
    DrainTimeout 1, DrainLeave 1]"
  have "\<exists>s. exec oor (tiny_config 1) es new_room = Some s \<and> activeRequests s = 1 \<and> queueDepth s = 0 \<and>
      queue s = [1] \<and> pc s = (\<lambda>_. Arriving)(0 := Serving False, 1 := Done TimeoutPage)"
    by (simp add: es_def chan_send_def fun_upd_twist)
  then obtain s where ex: "exec oor (tiny_config 1) es new_room = Some s" and s: "activeRequests s = 1"
      "queueDepth s = 0" "queue s = [1]" "pc s = (\<lambda>_. Arriving)(0 := Serving False, 1 := Done TimeoutPage)"
    by blast
  have "occ positioned (pc s) = 0" by (rule occ_zero) (simp add: s)
  moreover have "exec oor (tiny_config 1) [Arrive 2, Undo 2, TakePosition 2, QueueFull 2] s \<noteq> None"
    by (simp add: s chan_send_def)
  ultimately show ?thesis using exec_runs [OF ex] s by (intro exI [of _ es] exI [of _ s]) simp
qed

end
