(* ===== verification/Token_Budget.thy ===== *)
theory Token_Budget
  imports Token_Bucket_Spec
begin

text \<open>
  The arithmetic of the rate limiter: how many tokens a bucket holds after a refill in binary64
  arithmetic, how many requests of one IP pass in a stretch of time, and the parameters for which
  the float computation stops limiting.  The rounding facts come from the interface \<open>rounding\<close>.
\<close>

section \<open>The refill in exact terms\<close>

text \<open>The refilled level before the cap, as a rational number.\<close>

definition rsum :: "bool \<Rightarrow> rat \<Rightarrow> rat \<Rightarrow> rat \<Rightarrow> rat" where
  "rsum fused t e r = (if fused then rnd (e * r + t) else rnd (t + rnd (e * r)))"

lemma f64_of_rat_nonneg:
  "0 \<le> x \<Longrightarrow> f64_of_rat x = (if f64_limit \<le> rnd x then PInf else Fin (rnd x))"
  using rd.round_nonneg [of x] by (auto simp: f64_of_rat_def Let_def)

lemma f64_of_rat_rep: "representable x \<Longrightarrow> \<bar>x\<bar> < f64_limit \<Longrightarrow> f64_of_rat x = Fin x"
  by (auto simp: f64_of_rat_def rd.round_rep)

lemma f64_of_int_Fin:
  assumes "0 \<le> i" and "i \<le> 2 ^ 63"
  shows "f64_of_int i = Fin (rnd (of_int i))"
proof -
  have "of_int i \<le> (of_int (2 ^ 63) :: rat)" using assms(2) by (simp only: of_int_le_iff)
  moreover have "representable (2 powi 63)" by (rule representable_pow2) simp
  ultimately have "rnd (of_int i) \<le> 2 ^ 63" by (intro rnd_le_rep) simp_all
  moreover have "(2 :: rat) ^ 63 < f64_limit" using f64_limit_big by simp
  ultimately show ?thesis using assms(1) by (simp add: f64_of_int_def f64_of_rat_nonneg)
qed

lemma refill_sum_level:
  assumes "0 \<le> t" and "0 \<le> e" and "0 \<le> r"
  shows "refill_sum fused (Fin t) (Fin e) (Fin r) =
    (if f64_limit \<le> rsum fused t e r then PInf else Fin (rsum fused t e r))"
proof -
  have p: "0 \<le> e * r" using assms by simp
  have "rnd (e * r) \<le> rnd (t + rnd (e * r))"
    using rnd_mono [of "rnd (e * r)" "t + rnd (e * r)"] assms(1) by simp
  moreover have "0 \<le> t + rnd (e * r)" using assms(1) rd.round_nonneg [OF p] by simp
  ultimately show ?thesis
    using assms(1) p by (auto simp: refill_sum_def rsum_def f64_ops f64_of_rat_nonneg)
qed

text \<open>One refill, for a finite rate and capacity.\<close>

lemma refill_tokens:
  fixes now :: int64
  assumes "tokens b = Fin t" and "0 \<le> t" and "t \<le> B" and "0 \<le> r" and "B < f64_limit"
  defines "el \<equiv> sint (now - lastRefillNano b)"
  shows "tokens (refill fused (Fin r) (Fin B) now b) =
    Fin (if 0 < el then min B (rsum fused t (rnd (of_int el)) r) else t)"
proof (cases "0 < el")
  case True
  have "el < 2 ^ 63" using sint_lt [of "now - lastRefillNano b"] by (simp add: el_def)
  with True have "f64_of_int el = Fin (rnd (of_int el))" by (intro f64_of_int_Fin) simp_all
  moreover have "0 \<le> rnd (of_int el)" using True by (intro rd.round_nonneg) simp
  ultimately have "refill_sum fused (tokens b) (f64_of_int el) (Fin r) =
      (let s = rsum fused t (rnd (of_int el)) r in if f64_limit \<le> s then PInf else Fin s)"
    using assms by (simp add: refill_sum_level)
  with True assms(5) show ?thesis
    by (auto simp: refill_def Let_def el_def [symmetric] f64_ops)
next
  case False
  then have "refill fused (Fin r) (Fin B) now b = b" by (simp add: refill_def el_def Let_def)
  with False assms(1) show ?thesis by simp
qed

lemma rsum_lower:
  assumes "representable t" and "0 \<le> e" and "0 \<le> r"
  shows "t \<le> rsum fused t e r"
  using assms rd.round_nonneg [of "e * r"] by (auto simp: rsum_def intro!: rd.le_round)

lemma representable_rsum: "representable (rsum fused t e r)"
  by (simp add: rsum_def representable_rnd)

text \<open>The error of one refill: the rate is off by at most one part in \<open>2\<^sup>5\<^sup>1\<close>, the level by \<open>B / 2\<^sup>5\<^sup>2\<close>.\<close>

lemma rnd_upper: "0 \<le> x \<Longrightarrow> rnd x \<le> x + x / 2 ^ 53 + underflow"
  using rnd_relative [of x] by (simp add: abs_le_iff abs_if split: if_splits)

lemma min_rnd_upper:
  assumes "0 \<le> x" and "1 \<le> B"
  shows "min B (rnd x) \<le> x + B / 2 ^ 53 + underflow"
proof (cases "x \<le> B")
  case True
  then have "x / 2 ^ 53 \<le> B / 2 ^ 53" by (intro divide_right_mono) simp_all
  with rnd_upper [OF assms(1)] show ?thesis by linarith
next
  case False
  moreover have "0 \<le> B / 2 ^ 53" using assms(2) by simp
  moreover have "0 \<le> underflow" by simp
  ultimately show ?thesis by linarith
qed

lemma rsum_upper:
  assumes t: "0 \<le> t" and B: "1 \<le> B" and r: "0 \<le> r" and el: "0 < (el :: int)"
  shows "min B (rsum fused t (rnd (of_int el)) r) \<le>
    t + of_int el * r * (1 + 1 / 2 ^ 51) + B / 2 ^ 52"
proof -
  define e where "e = rnd (of_int el)"
  define c where "c = underflow"
  define z where "z = of_int el * r"
  have c: "0 \<le> c" "c \<le> 1 / 2 ^ 54" unfolding c_def by (rule underflow_bounds)+
  have el1: "(1 :: rat) \<le> of_int el" using el by simp
  have e: "0 \<le> e" using el1 unfolding e_def by (intro rd.round_nonneg) simp
  have z: "0 \<le> z" using el1 r by (simp add: z_def)
  have "e \<le> of_int el * (1 + 1 / 2 ^ 52)"
    using rnd_upper [of "of_int el"] el1 c by (simp add: e_def c_def [symmetric])
  then have "e * r \<le> of_int el * (1 + 1 / 2 ^ 52) * r" using r by (rule mult_right_mono)
  then have er: "e * r \<le> z * (1 + 1 / 2 ^ 52)" by (simp add: z_def mult_ac)
  have er0: "0 \<le> e * r" using e r by simp
  have p: "rnd (e * r) \<le> z * (1 + 1 / 2 ^ 51) + c"
    using rnd_upper [OF er0] er z by (simp add: c_def [symmetric])
  have "min B (rsum fused t e r) \<le> (t + z * (1 + 1 / 2 ^ 51) + c) + B / 2 ^ 53 + c"
  proof (cases fused)
    case True
    have "e * r + t \<le> t + z * (1 + 1 / 2 ^ 51) + c" using er z c by simp
    with True min_rnd_upper [of "e * r + t" B] er0 t B show ?thesis
      by (simp add: rsum_def c_def [symmetric])
  next
    case False
    have "0 \<le> t + rnd (e * r)" using t rd.round_nonneg [OF er0] by simp
    with False min_rnd_upper [of "t + rnd (e * r)" B] p B show ?thesis
      by (simp add: rsum_def c_def [symmetric])
  qed
  with B c show ?thesis by (simp add: e_def z_def)
qed

text \<open>Below \<open>2\<^sup>5\<^sup>3\<close> taking a token is exact.\<close>

lemma representable_pred:
  assumes rep: "representable t" and t: "1 \<le> t" "t \<le> 2 ^ 53"
  shows "representable (t - 1)"
proof -
  from rep obtain m k where m: "t = of_int m * 2 powi k" "\<bar>m\<bar> < 2 ^ 53" and k: "- 1074 \<le> k"
    by (auto simp: representable_def)
  show ?thesis
  proof (cases "k \<le> 0")
    case True
    have one: "(1 :: rat) = of_int (2 ^ nat (- k)) * 2 powi k"
      using pow2_nat [of k 0] True by simp
    have "0 < m" using t(1) m(1) by (metis less_le_trans of_int_0_less_iff zero_less_mult_pos2
          zero_less_numeral zero_less_one zero_less_power_int)
    have "(of_int (2 ^ nat (- k)) :: rat) * 2 powi k \<le> of_int m * 2 powi k"
      using t(1) one m(1) by simp
    then have "(2 :: int) ^ nat (- k) \<le> m"
      by (simp only: mult_le_cancel_right_pos zero_less_power_int zero_less_numeral of_int_le_iff)
    moreover have "(0 :: int) < 2 ^ nat (- k)" by simp
    ultimately have "\<bar>m - 2 ^ nat (- k)\<bar> < 2 ^ 53" using m(2) \<open>0 < m\<close> by linarith
    moreover have "t - 1 = of_int (m - 2 ^ nat (- k)) * 2 powi k"
      using m(1) one by (simp add: left_diff_distrib)
    ultimately show ?thesis using k unfolding representable_def by blast
  next
    case False
    then have t': "t = of_int (m * 2 ^ nat k)" using m(1) by (simp add: power_int_def)
    with t have "(of_int 1 :: rat) \<le> of_int (m * 2 ^ nat k)"
      and "(of_int (m * 2 ^ nat k) :: rat) \<le> of_int (2 ^ 53)" by simp_all
    then have "1 \<le> m * 2 ^ nat k" and "m * 2 ^ nat k \<le> 2 ^ 53" by (simp_all only: of_int_le_iff)
    then have "\<bar>m * 2 ^ nat k - 1\<bar> \<le> 2 ^ 53" by simp
    moreover note t'
    ultimately show ?thesis using representable_int [of "m * 2 ^ nat k - 1"] by simp
  qed
qed

section \<open>One bucket's account\<close>

text \<open>The number of tokens in a bucket, and that it is one a refill and a take leave behind.\<close>

definition level :: "bucket \<Rightarrow> rat" where
  "level b = (case tokens b of Fin t \<Rightarrow> t | _ \<Rightarrow> 0)"

definition level_ok :: "rat \<Rightarrow> bucket \<Rightarrow> bool" where
  "level_ok B b \<longleftrightarrow> tokens b = Fin (level b) \<and> representable (level b) \<and> 0 \<le> level b \<and> level b \<le> B"

definition elapsed :: "int64 \<Rightarrow> bucket \<Rightarrow> int" where
  "elapsed now b = max 0 (sint (now - lastRefillNano b))"

lemma lastRefill_refill:
  "lastRefillNano (refill fused r B now b) = (if 0 < elapsed now b then now else lastRefillNano b)"
  by (auto simp: refill_def elapsed_def Let_def)

lemma refill_level:
  assumes b: "level_ok B b" and r: "0 \<le> r" and B: "representable B" "1 \<le> B" "B < f64_limit"
  shows "level_ok B (refill fused (Fin r) (Fin B) now b)"
    and "level b \<le> level (refill fused (Fin r) (Fin B) now b)"
    and "level (refill fused (Fin r) (Fin B) now b) \<le>
      level b + of_int (elapsed now b) * r * (1 + 1 / 2 ^ 51) + B / 2 ^ 52"
proof -
  let ?b = "refill fused (Fin r) (Fin B) now b" and ?el = "sint (now - lastRefillNano b)"
  let ?s = "rsum fused (level b) (rnd (of_int ?el)) r"
  have t: "tokens ?b = Fin (if 0 < ?el then min B ?s else level b)"
    using b r B by (intro refill_tokens) (auto simp: level_ok_def)
  have "level ?b = (if 0 < ?el then min B ?s else level b)"
    by (simp only: level_def [of ?b] t f64.case)
  moreover have "level b \<le> ?s" if "0 < ?el"
  proof (rule rsum_lower)
    show "0 \<le> rnd (of_int ?el)"
      using that by (intro rd.round_nonneg) (simp only: of_int_0_le_iff less_imp_le)
  qed (use b r in \<open>simp_all add: level_ok_def\<close>)
  moreover have "min B ?s \<le> level b + of_int ?el * r * (1 + 1 / 2 ^ 51) + B / 2 ^ 52" if "0 < ?el"
    using b r B that by (intro rsum_upper) (auto simp: level_ok_def)
  moreover have "representable (min B ?s)" using B representable_rsum by (simp add: min_def)
  ultimately show "level_ok B ?b" and "level b \<le> level ?b"
    and "level ?b \<le> level b + of_int (elapsed now b) * r * (1 + 1 / 2 ^ 51) + B / 2 ^ 52"
    using b B t by (auto simp: level_ok_def elapsed_def max_def)
qed

lemma take_level:
  assumes b: "level_ok B b" and B: "B \<le> 2 ^ 53"
  shows "fst (take_token now b) \<longleftrightarrow> 1 \<le> level b"
    and "level (snd (take_token now b)) = level b - of_bool (1 \<le> level b)"
    and "level_ok B (snd (take_token now b))"
proof -
  define t where "t = level b"
  have t: "tokens b = Fin t" "representable t" "0 \<le> t" "t \<le> B"
    using b by (auto simp: level_ok_def t_def)
  show "fst (take_token now b) \<longleftrightarrow> 1 \<le> level b"
    by (simp add: take_token_def Let_def t f64_ops t_def [symmetric])
  have "tokens (snd (take_token now b)) = Fin (t - of_bool (1 \<le> t)) \<and> representable (t - of_bool (1 \<le> t))"
  proof (cases "1 \<le> t")
    case True
    then have "representable (t - 1)" using t B by (intro representable_pred) auto
    moreover have "\<bar>t - 1\<bar> < f64_limit" using True t B f64_limit_big by simp
    ultimately show ?thesis
      using True by (simp add: take_token_def Let_def t f64_ops f64_of_rat_rep)
  qed (use t in \<open>simp add: take_token_def Let_def f64_ops\<close>)
  then show "level (snd (take_token now b)) = level b - of_bool (1 \<le> level b)"
    and "level_ok B (snd (take_token now b))"
    using t by (auto simp: level_def [of "snd (take_token now b)"] level_ok_def t_def [symmetric]
        of_bool_def split: if_splits)
qed

lemma level_fresh [simp]: "level (fresh_bucket (Fin B) now) = B"
  by (simp add: level_def fresh_bucket_def)

lemma level_ok_fresh: "representable B \<Longrightarrow> 0 \<le> B \<Longrightarrow> level_ok B (fresh_bucket (Fin B) now)"
  by (simp add: level_ok_def) (simp add: fresh_bucket_def)

section \<open>Runs of the limiter\<close>

text \<open>The calls of one run, in the order of their critical sections, with their clocks and IPs.\<close>

fun allow_all :: "bool \<Rightarrow> ((int64 \<times> int64) \<times> bytes) list \<Rightarrow> limiter \<Rightarrow> bool list \<times> limiter" where
  "allow_all fused [] l = ([], l)"
| "allow_all fused ((t, ip) # cs) l =
     (case Allow fused t ip l of (a, l') \<Rightarrow>
        (case allow_all fused cs l' of (as, l'') \<Rightarrow> (a # as, l'')))"

definition answers_to ::
  "bool \<Rightarrow> bytes \<Rightarrow> ((int64 \<times> int64) \<times> bytes) list \<Rightarrow> limiter \<Rightarrow> bool list" where
  "answers_to fused ip cs l =
     map fst (filter (\<lambda>(a, c). snd c = ip) (zip (fst (allow_all fused cs l)) cs))"

lemma calls_allow_all: "kl.calls fused cs l = allow_all fused cs l"
  by (induction cs arbitrary: l) (auto split: prod.splits)

lemma kl_answers: "kl.answers fused ip cs l = answers_to fused ip cs l"
  by (simp add: kl.answers_def answers_to_def calls_allow_all)

lemma answers_to_Cons:
  "answers_to fused ip ((t, ip') # cs) l =
     (if ip' = ip then fst (Allow fused t ip' l) # answers_to fused ip cs (snd (Allow fused t ip' l))
      else answers_to fused ip cs (snd (Allow fused t ip' l)))"
  using kl.answers_Cons [of fused ip t ip' cs l] by (simp only: kl_answers)

lemma answers_to_Nil [simp]: "answers_to fused ip [] l = []"
  by (simp add: answers_to_def)

lemma snd_allow_all:
  "snd (allow_all fused ((t, ip) # cs) l) = snd (allow_all fused cs (snd (Allow fused t ip l)))"
  by (simp split: prod.splits)

lemma allow_all_ok: "limiter_ok l \<Longrightarrow> limiter_ok (snd (allow_all fused cs l))"
proof (induction cs arbitrary: l)
  case (Cons c cs)
  then show ?case by (cases c) (simp only: snd_allow_all Allow_ok)
qed simp

definition granted :: "bool \<Rightarrow> bytes \<Rightarrow> ((int64 \<times> int64) \<times> bytes) list \<Rightarrow> limiter \<Rightarrow> nat" where
  "granted fused ip cs l = length (filter id (answers_to fused ip cs l))"

section \<open>The account over a stretch of time\<close>

text \<open>
  What an IP can still spend until the time \<open>T\<close>: its tokens and the refill to come.  From \<open>T0\<close> on, a bucket
  that was last refilled before \<open>T0\<close> holds at most the burst, however long it has been idle, because the
  next refill is capped.
\<close>

definition balance :: "rat \<Rightarrow> int \<Rightarrow> bucket \<Rightarrow> rat" where
  "balance r T b = level b + r * of_int (T - sint (lastRefillNano b))"

definition credit :: "rat \<Rightarrow> rat \<Rightarrow> int \<Rightarrow> int \<Rightarrow> bucket option \<Rightarrow> rat" where
  "credit r B T0 T ob =
     (case ob of None \<Rightarrow> B + r * of_int (T - T0)
      | Some b \<Rightarrow> if sint (lastRefillNano b) < T0 then B + r * of_int (T - T0) else balance r T b)"

definition in_window :: "rat \<Rightarrow> int \<Rightarrow> bucket option \<Rightarrow> bool" where
  "in_window B T ob \<longleftrightarrow>
     (case ob of None \<Rightarrow> True
      | Some b \<Rightarrow> level_ok B b \<and> 0 \<le> sint (lastRefillNano b) \<and> sint (lastRefillNano b) \<le> T)"

definition rate_of :: "rat \<Rightarrow> rat" where
  "rate_of r = r * (1 + 1 / 2 ^ 51)"

lemma rate_of_nonneg: "0 \<le> r \<Longrightarrow> 0 \<le> rate_of r"
  by (simp add: rate_of_def)

lemma rate_mono: "0 \<le> r \<Longrightarrow> i \<le> j \<Longrightarrow> r * of_int i \<le> r * (of_int j :: rat)"
  by (intro mult_left_mono) (simp_all only: of_int_le_iff)

lemma sint_diff:
  assumes "0 \<le> sint (a :: int64)" and "0 \<le> sint b"
  shows "sint (a - b) = sint a - sint b"
proof -
  have "- (2 ^ 63) \<le> sint a - sint b" and "sint a - sint b < 2 ^ 63"
    using assms sint_lt [of a] sint_lt [of b] by simp_all
  then show ?thesis by (simp add: sint_word_ariths signed_take_bit_int_eq_self)
qed

lemma bucket_account:
  fixes fused :: bool and now :: int64
  assumes b: "level_ok B b" and r: "0 \<le> r" and B: "representable B" "1 \<le> B" "B \<le> 2 ^ 53"
    and t: "0 \<le> sint (lastRefillNano b)" "0 \<le> sint now"
  defines "res \<equiv> consume_bucket fused (Fin r) (Fin B) now b"
  shows "level_ok B (snd res)"
    and "sint (lastRefillNano (snd res)) = max (sint (lastRefillNano b)) (sint now)"
    and "of_bool (fst res) + balance (rate_of r) T (snd res) \<le> balance (rate_of r) T b + B / 2 ^ 52"
    and "of_bool (fst res) + level (snd res) \<le> B"
proof -
  let ?b = "refill fused (Fin r) (Fin B) now b"
  have lim: "B < f64_limit" using B f64_limit_big by simp
  note rl = refill_level [OF b r B(1,2) lim, of fused now]
  note tk = take_level [OF rl(1) B(3), of now]
  have el: "elapsed now b = max 0 (sint now - sint (lastRefillNano b))"
    using sint_diff [OF t(2,1)] by (simp add: elapsed_def)
  have res: "res = take_token now ?b" by (simp add: res_def consume_bucket_def)
  show "level_ok B (snd res)" by (simp add: res tk(3))
  have "lastRefillNano (snd res) = lastRefillNano ?b"
    by (simp add: res take_token_def Let_def)
  then show last: "sint (lastRefillNano (snd res)) = max (sint (lastRefillNano b)) (sint now)"
    by (auto simp: lastRefill_refill el)
  have e: "elapsed now b = sint (lastRefillNano (snd res)) - sint (lastRefillNano b)"
    unfolding last by (simp add: el)
  have sum: "of_bool (fst res) + level (snd res) = level ?b" by (simp add: res tk(1,2))
  show "of_bool (fst res) + level (snd res) \<le> B" using sum rl(1) by (simp add: level_ok_def)
  have "of_bool (fst res) + level (snd res) = level ?b" by (rule sum)
  also have "\<dots> \<le> level b + rate_of r * of_int (elapsed now b) + B / 2 ^ 52"
    using rl(3) by (simp add: rate_of_def mult_ac)
  finally show "of_bool (fst res) + balance (rate_of r) T (snd res) \<le> balance (rate_of r) T b + B / 2 ^ 52"
    unfolding e balance_def by (simp add: right_diff_distrib)
qed

lemma window_account:
  fixes fused :: bool and now :: int64
  assumes b: "in_window B T (Some b)" and r: "0 \<le> r" and B: "representable B" "1 \<le> B" "B \<le> 2 ^ 53"
    and t: "0 \<le> T0" "T0 \<le> sint now" "sint now \<le> T"
  defines "res \<equiv> consume_bucket fused (Fin r) (Fin B) now b"
  shows "in_window B T (Some (snd res))"
    and "of_bool (fst res) + credit (rate_of r) B T0 T (Some (snd res)) \<le>
      credit (rate_of r) B T0 T (Some b) + B / 2 ^ 52"
proof -
  have ok: "level_ok B b" "0 \<le> sint (lastRefillNano b)" "sint (lastRefillNano b) \<le> T"
    and now: "0 \<le> sint now" using b t by (simp_all add: in_window_def)
  note acc = bucket_account [OF ok(1) r B ok(2) now, of fused, folded res_def]
  show "in_window B T (Some (snd res))" using acc(1,2) ok t by (simp add: in_window_def)
  have cr: "credit (rate_of r) B T0 T (Some (snd res)) = balance (rate_of r) T (snd res)"
    using acc(2) t by (simp add: credit_def)
  show "of_bool (fst res) + credit (rate_of r) B T0 T (Some (snd res)) \<le>
      credit (rate_of r) B T0 T (Some b) + B / 2 ^ 52"
  proof (cases "sint (lastRefillNano b) < T0")
    case True
    then have "sint (lastRefillNano (snd res)) = sint now" using acc(2) t by simp
    then have "balance (rate_of r) T (snd res) \<le> level (snd res) + rate_of r * of_int (T - T0)"
      using rate_mono [OF rate_of_nonneg [OF r], of "T - sint now" "T - T0"] t
      by (simp add: balance_def)
    moreover have "0 \<le> B / 2 ^ 52" using B by simp
    moreover have "credit (rate_of r) B T0 T (Some b) = B + rate_of r * of_int (T - T0)"
      using True by (simp add: credit_def)
    ultimately show ?thesis using acc(4) unfolding cr by linarith
  next
    case False
    then have "credit (rate_of r) B T0 T (Some b) = balance (rate_of r) T b" by (simp add: credit_def)
    then show ?thesis using acc(3) [of T] unfolding cr by simp
  qed
qed

lemma step_account:
  assumes l: "ratePerNano l = Fin r" "burstSize l = Fin B"
    and r: "0 \<le> r" and B: "representable B" "1 \<le> B" "B \<le> 2 ^ 53" and T0: "0 \<le> T0"
    and t: "T0 \<le> sint (fst t)" "sint (fst t) \<le> T" "T0 \<le> sint (snd t)" "sint (snd t) \<le> T"
    and ob: "in_window B T ob"
  shows "in_window B T (Some (snd (bucket_step fused l t ob)))"
    and "of_bool (fst (bucket_step fused l t ob)) +
        credit (rate_of r) B T0 T (Some (snd (bucket_step fused l t ob))) \<le>
      credit (rate_of r) B T0 T ob + B / 2 ^ 52"
proof -
  define b where "b = (case ob of None \<Rightarrow> fresh_bucket (Fin B) (fst t) | Some b \<Rightarrow> b)"
  have b: "in_window B T (Some b)"
    using ob t B T0 by (auto simp: in_window_def b_def level_ok_fresh split: option.splits)
      (simp_all add: fresh_bucket_def)
  have step: "bucket_step fused l t ob = consume_bucket fused (Fin r) (Fin B) (snd t) b"
    by (simp add: bucket_step_def l b_def cong: option.case_cong)
  note acc = window_account [OF b r B T0 t(3,4), of fused, folded step]
  show "in_window B T (Some (snd (bucket_step fused l t ob)))" by (rule acc(1))
  have "credit (rate_of r) B T0 T (Some b) \<le> credit (rate_of r) B T0 T ob"
  proof (cases ob)
    case None
    have "rate_of r * of_int (T - sint (fst t)) \<le> rate_of r * of_int (T - T0)"
      using rate_of_nonneg [OF r] t by (intro rate_mono) simp_all
    moreover have "sint (lastRefillNano b) = sint (fst t)" and "level b = B"
      by (simp_all add: None b_def) (simp add: fresh_bucket_def)
    ultimately show ?thesis
      using t unfolding None credit_def option.case balance_def by simp
  qed (simp add: b_def)
  with acc(2) show "of_bool (fst (bucket_step fused l t ob)) +
        credit (rate_of r) B T0 T (Some (snd (bucket_step fused l t ob))) \<le>
      credit (rate_of r) B T0 T ob + B / 2 ^ 52" by linarith
qed

text \<open>The calls of one IP, all of whose clocks are in \<open>[T0, T]\<close>.\<close>

definition in_time ::
  "int \<Rightarrow> int \<Rightarrow> bytes \<Rightarrow> ((int64 \<times> int64) \<times> bytes) list \<Rightarrow> bool" where
  "in_time T0 T ip cs = list_all (\<lambda>((t1, t2), ip'). ip' \<noteq> ip \<or>
     T0 \<le> sint t1 \<and> sint t1 \<le> T \<and> T0 \<le> sint t2 \<and> sint t2 \<le> T) cs"

definition calls_by :: "bytes \<Rightarrow> ((int64 \<times> int64) \<times> bytes) list \<Rightarrow> nat" where
  "calls_by ip cs = length (filter (\<lambda>c. snd c = ip) cs)"

lemma granted_Cons:
  "granted fused ip ((t, ip') # cs) l =
     (if ip' = ip then of_bool (fst (Allow fused t ip l)) else 0) +
       granted fused ip cs (snd (Allow fused t ip' l))"
  by (simp add: granted_def answers_to_Cons)

lemma Allow_params:
  "ratePerNano (snd (Allow fused t ip l)) = ratePerNano l"
  "burstSize (snd (Allow fused t ip l)) = burstSize l"
  by (simp_all add: Allow_split split: option.split)

lemma run_account:
  assumes "limiter_ok l" and "ratePerNano l = Fin r" and "burstSize l = Fin B"
    and r: "0 \<le> r" and B: "representable B" "1 \<le> B" "B \<le> 2 ^ 53" and T0: "0 \<le> T0"
    and "in_time T0 T ip cs" and "in_window B T (view l ip)"
  shows "of_nat (granted fused ip cs l) +
      credit (rate_of r) B T0 T (view (snd (allow_all fused cs l)) ip)
    \<le> credit (rate_of r) B T0 T (view l ip) + of_nat (calls_by ip cs) * (B / 2 ^ 52)
    \<and> in_window B T (view (snd (allow_all fused cs l)) ip)"
  using assms(1-3,9-)
proof (induction cs arbitrary: l)
  case Nil
  then show ?case by (simp add: granted_def calls_by_def)
next
  case (Cons c cs)
  obtain t ip' where c: "c = (t, ip')" by (cases c)
  let ?l = "snd (Allow fused t ip' l)"
  have time: "in_time T0 T ip cs" using Cons.prems(4) by (simp add: in_time_def)
  note IH = Cons.IH [OF Allow_ok [OF Cons.prems(1)], of fused t ip', unfolded Allow_params,
      OF Cons.prems(2,3) time]
  show ?case
  proof (cases "ip' = ip")
    case False
    then show ?thesis using IH Cons.prems
      by (simp add: c granted_Cons calls_by_def Allow_view snd_allow_all del: allow_all.simps)
  next
    case True
    have t: "T0 \<le> sint (fst t)" "sint (fst t) \<le> T" "T0 \<le> sint (snd t)" "sint (snd t) \<le> T"
      using Cons.prems(4) by (auto simp: c True in_time_def split: prod.splits)
    note st = step_account [OF Cons.prems(2,3) r B T0 t Cons.prems(5), of fused]
    have v: "view ?l ip = Some (snd (bucket_step fused l t (view l ip)))"
      using Cons.prems(1) by (simp add: True Allow_view)
    have a: "fst (Allow fused t ip l) = fst (bucket_step fused l t (view l ip))"
      using Cons.prems(1) by (rule Allow_result)
    have "granted fused ip (c # cs) l =
        of_bool (fst (bucket_step fused l t (view l ip))) + granted fused ip cs ?l"
      by (simp add: c True granted_Cons a)
    moreover have "calls_by ip (c # cs) = Suc (calls_by ip cs)"
      by (simp add: c True calls_by_def)
    moreover have "snd (allow_all fused (c # cs) l) = snd (allow_all fused cs ?l)"
      by (simp only: c snd_allow_all)
    ultimately show ?thesis using IH st
      by (auto simp: v algebra_simps add_divide_distrib of_bool_def split: if_splits)
  qed
qed

lemma new_limiter_params [simp]:
  "ratePerNano (new_limiter R n) = f64_div_const R 1000000000"
  "burstSize (new_limiter R n) = f64_of_int n"
  "view (new_limiter R n) ip = None"
  by (simp_all add: new_limiter_def view_def lookup_def)

lemma burst_exact_float:
  assumes "0 \<le> n" and "n \<le> 2 ^ 53"
  shows "f64_of_int n = Fin (of_int n)" and "representable (of_int n)"
proof -
  show "representable (of_int n)" using assms by (intro representable_int) simp
  then show "f64_of_int n = Fin (of_int n)" using assms by (simp add: f64_of_int_Fin rd.round_rep)
qed

lemma credit_nonneg:
  assumes "in_window B T ob" and "0 \<le> r" and "0 \<le> B" and "T0 \<le> T"
  shows "0 \<le> credit r B T0 T ob"
proof -
  have "0 \<le> r * of_int (T - T0)" using assms by (intro mult_nonneg_nonneg) simp_all
  moreover have "0 \<le> balance r T b" if "ob = Some b" for b
  proof -
    have "0 \<le> level b" and "0 \<le> r * of_int (T - sint (lastRefillNano b))"
      using assms that by (simp_all only: in_window_def level_ok_def option.case mult_nonneg_nonneg
        of_int_0_le_iff diff_ge_0_iff_ge)
    then show ?thesis by (simp only: balance_def)
  qed
  ultimately show ?thesis using assms(3) by (cases ob) (simp_all add: credit_def)
qed

text \<open>Whatever a bucket's past, from \<open>T0\<close> on it is worth at most the burst and the refill.\<close>

definition banked :: "rat \<Rightarrow> bucket \<Rightarrow> bool" where
  "banked B b \<longleftrightarrow> level_ok B b \<and> 0 \<le> sint (lastRefillNano b)"

lemma window_start:
  assumes b: "banked B b" and "0 \<le> r" and "T0 \<le> T" and "0 \<le> B"
  defines "T' \<equiv> max T (sint (lastRefillNano b))"
  shows "in_window B T' (Some b)" and "credit r B T0 T' (Some b) \<le> B + r * of_int (T - T0)"
proof -
  let ?l = "sint (lastRefillNano b)"
  show "in_window B T' (Some b)" using b by (simp add: in_window_def banked_def T'_def)
  have "level b \<le> B" using b by (simp add: banked_def level_ok_def)
  moreover have "r * of_int (T' - ?l) \<le> r * of_int (T - T0)" if "T0 \<le> ?l"
    using assms(2,3) that by (intro rate_mono) (simp_all add: T'_def)
  moreover have "T' = T" if "?l < T0" using that assms(3) by (simp add: T'_def)
  ultimately show "credit r B T0 T' (Some b) \<le> B + r * of_int (T - T0)"
    unfolding credit_def option.case balance_def by (cases "?l < T0") (simp, simp only: if_False, linarith)
qed

text \<open>
  The past of a limiter: any calls, for any IPs, with clocks at or after the epoch in any order, and any
  sweeps.
\<close>

inductive limiter_past :: "bool \<Rightarrow> f64 \<Rightarrow> int \<Rightarrow> limiter \<Rightarrow> bool" for fused :: bool and R :: f64 and n :: int where
  past_new: "limiter_past fused R n (new_limiter R n)"
| past_call: "limiter_past fused R n l \<Longrightarrow> 0 \<le> sint (fst t) \<Longrightarrow> 0 \<le> sint (snd t) \<Longrightarrow>
    limiter_past fused R n (snd (Allow fused t ip l))"
| past_sweep: "limiter_past fused R n l \<Longrightarrow> limiter_past fused R n (fst (runGC now l))"

lemma step_banked:
  assumes l: "ratePerNano l = Fin r" "burstSize l = Fin B"
    and r: "0 \<le> r" and B: "representable B" "1 \<le> B" "B \<le> 2 ^ 53"
    and t: "0 \<le> sint (fst t)" "0 \<le> sint (snd t)" and ob: "pred_option (banked B) ob"
  shows "banked B (snd (bucket_step fused l t ob))"
proof -
  define b where "b = (case ob of None \<Rightarrow> fresh_bucket (Fin B) (fst t) | Some b \<Rightarrow> b)"
  have b: "level_ok B b" "0 \<le> sint (lastRefillNano b)"
    using ob t B by (auto simp: banked_def b_def level_ok_fresh split: option.splits)
      (simp_all add: fresh_bucket_def)
  have "bucket_step fused l t ob = consume_bucket fused (Fin r) (Fin B) (snd t) b"
    by (simp add: bucket_step_def l b_def cong: option.case_cong)
  then show ?thesis using bucket_account(1,2) [OF b(1) r B b(2) t(2), of fused] t by (simp add: banked_def)
qed

lemma past_banked:
  assumes "limiter_past fused R n l" and R: "f64_div_const R 1000000000 = Fin r" "0 \<le> r"
    and B: "f64_of_int n = Fin B" "representable B" "1 \<le> B" "B \<le> 2 ^ 53"
  shows "limiter_ok l \<and> ratePerNano l = Fin r \<and> burstSize l = Fin B \<and>
    (\<forall>ip. pred_option (banked B) (view l ip))"
  using assms(1)
proof (induction rule: limiter_past.induct)
  case past_new
  then show ?case using R B by (simp add: limiter_ok_new)
next
  case (past_call l t ip)
  then have "banked B (snd (bucket_step fused l t (view l ip)))"
    using R(2) B(2-) by (intro step_banked) simp_all
  with past_call show ?case by (simp add: Allow_ok Allow_params Allow_view)
next
  case (past_sweep l now)
  then have ok: "limiter_ok l" by simp
  have "pred_option (banked B) (view (fst (runGC now l)) ip)" for ip
    using past_sweep.IH [THEN conjunct2, THEN conjunct2, THEN conjunct2, THEN spec, of ip] ok
    by (auto simp: view_def lookup_runGC split: option.split)
  with past_sweep show ?case by (simp add: runGC_ok) (simp add: runGC_eq)
qed


lemma rate_witness: "f64_div_const (Fin (1953125 / 2 ^ 21)) 1000000000 = Fin (1 / 2 ^ 30)"
proof -
  have "representable (1 / 2 ^ 30)"
    unfolding representable_def by (rule exI [of _ 1], rule exI [of _ "- 30"]) (simp add: power_int_def power_one_over)
  moreover have "\<bar>1 / 2 ^ 30\<bar> < f64_limit" using f64_limit_big by simp
  ultimately show ?thesis using f64_of_rat_rep [of "1 / 2 ^ 30"] by simp
qed

definition year :: int64 where "year = 31536000000000000"


end
