(* ===== verification/Room_Estimate.thy ===== *)
theory Room_Estimate
  imports Waiting_Room Token_Budget
begin

text \<open>
  The estimate of the waiting time shown to a queued client, against its documented formula.
\<close>

section \<open>Exact conversions\<close>

lemma f64_of_int_exact: "\<bar>i\<bar> \<le> 2 ^ 53 \<Longrightarrow> f64_of_int i = Fin (of_int i)"
  unfolding f64_of_int_def
proof (rule f64_of_rat_rep)
  assume i: "\<bar>i\<bar> \<le> 2 ^ 53"
  then show "representable (of_int i)" by (rule representable_int)
  have "\<bar>of_int i :: rat\<bar> \<le> of_int (2 ^ 53)" using i by (simp only: of_int_abs [symmetric] of_int_le_iff)
  then show "\<bar>of_int i :: rat\<bar> < f64_limit" using f64_limit_big by simp
qed

lemma sdiv_nonneg: "0 \<le> a \<Longrightarrow> 0 < b \<Longrightarrow> a sdiv b = a div (b :: int)"
  by (cases "a = 0") (simp_all add: signed_divide_int_def)

lemma trunc_int: "\<bar>i\<bar> \<le> 2 ^ 53 \<Longrightarrow> f64_to_int64 oor (Fin (of_int i)) = i"
  by (auto simp: rat_trunc_def)

lemma wave_le:
  fixes p m :: int
  assumes "0 < p" and "0 < m"
  shows "(p + m - 1) div m \<le> p"
proof -
  have "p + m - 1 \<le> p * m" using mult_nonneg_nonneg [of "p - 1" "m - 1"] assms by (simp add: algebra_simps)
  then have "(p + m - 1) div m \<le> p * m div m" using assms by (intro zdiv_mono1)
  then show ?thesis using assms by simp
qed

lemma f64_of_rat_small:
  assumes "0 \<le> x" and "x \<le> 2 ^ 60"
  shows "f64_of_rat x = Fin (rnd x)"
proof -
  have "representable (2 powi 60)" by (rule representable_pow2) simp
  then have "rnd x \<le> 2 ^ 60" using rd.round_le [of "2 ^ 60" x] assms(2) by simp
  moreover have "(2 :: rat) ^ 60 < 2 ^ 64" by simp
  ultimately have "rnd x < f64_limit" using f64_limit_big by linarith
  then show ?thesis using assms(1) by (simp add: f64_of_rat_nonneg)
qed

section \<open>The rounding errors of the three operations\<close>

text \<open>An approximation to within \<open>k\<close> units of \<open>2\<^sup>-\<^sup>5\<^sup>3\<close> and an absolute error, and what one more rounding adds.\<close>

definition near :: "rat \<Rightarrow> rat \<Rightarrow> rat \<Rightarrow> rat \<Rightarrow> bool" where
  "near k c a A \<longleftrightarrow> 0 \<le> a \<and> \<bar>a - A\<bar> \<le> A * (k / 2 ^ 53) + c"

lemma underflow_tiny: "underflow \<le> 1 / 2 ^ 200"
proof -
  have "(2 :: rat) powi (- 1075) \<le> 2 powi (- 200)" by (rule iffD2 [OF pow2_mono]) simp
  also have "(2 :: rat) powi (- 200) = 1 / 2 ^ 200" by (simp add: power_int_def power_one_over)
  finally show ?thesis by (fold underflow_def)
qed

lemma near_rnd:
  assumes "near k c a A" and "0 \<le> A" and "0 \<le> k" "k \<le> 8" and "0 \<le> c"
  shows "near (k + 9 / 8) (2 * c + underflow) (rnd a) A"
proof -
  have a: "0 \<le> a" "\<bar>a - A\<bar> \<le> A * (k / 2 ^ 53) + c" using assms(1) by (simp_all add: near_def)
  have "A * (k / 2 ^ 53) \<le> A * (1 / 8)" using assms(2-4) by (intro mult_left_mono) simp_all
  then have "a \<le> A * (9 / 8) + c" using a(2) by (simp add: abs_le_iff)
  then have "a / 2 ^ 53 \<le> (A * (9 / 8) + c) / 2 ^ 53" by (intro divide_right_mono) simp_all
  also have "\<dots> = A * (9 / 8 / 2 ^ 53) + c / 2 ^ 53" by (simp add: add_divide_distrib)
  finally have "\<bar>rnd a - a\<bar> \<le> A * (9 / 8 / 2 ^ 53) + c / 2 ^ 53 + underflow"
    using rnd_relative [of a] a(1) by simp
  moreover have "c / 2 ^ 53 \<le> c" using assms(5) by simp
  moreover have "A * ((k + 9 / 8) / 2 ^ 53) = A * (k / 2 ^ 53) + A * (9 / 8 / 2 ^ 53)"
    by (simp add: add_divide_distrib distrib_left)
  ultimately have "\<bar>rnd a - A\<bar> \<le> A * ((k + 9 / 8) / 2 ^ 53) + (2 * c + underflow)"
    using a(2) by linarith
  then show ?thesis using rd.round_nonneg [OF a(1)] by (simp only: near_def)
qed

lemma near_scale:
  assumes "near k c a A" and "0 \<le> d"
  shows "near k (c * d) (a * d) (A * d)"
proof -
  have "\<bar>a * d - A * d\<bar> = \<bar>a - A\<bar> * d" using assms(2) by (simp add: abs_mult flip: left_diff_distrib)
  also have "\<dots> \<le> (A * (k / 2 ^ 53) + c) * d"
    using assms by (intro mult_right_mono) (simp_all add: near_def)
  also have "\<dots> = A * d * (k / 2 ^ 53) + c * d" by (simp add: distrib_right)
  finally show ?thesis using assms by (simp add: near_def)
qed

text \<open>A duration in seconds, a third of it, and that times the number of waves.\<close>

definition secs :: "int \<Rightarrow> rat" where
  "secs D = rnd (of_int (D div 1000000000) + rnd (of_int (D mod 1000000000) / 1000000000))"

lemma secs_near:
  assumes "0 \<le> D"
  shows "near (17 / 8) (3 * underflow) (secs D) (of_int D / 1000000000)"
proof -
  let ?q = "of_int (D div 1000000000) :: rat" and ?m = "of_int (D mod 1000000000) / 1000000000 :: rat"
  let ?S = "of_int D / 1000000000 :: rat"
  have "(of_int D :: rat) = of_int (D div 1000000000 * 1000000000 + D mod 1000000000)" by simp
  then have S: "?S = ?q + ?m" by (simp only: of_int_add of_int_mult) simp
  have q: "0 \<le> ?q" "0 \<le> ?m" using assms by (simp_all add: pos_imp_zdiv_nonneg_iff)
  have "\<bar>rnd ?m - ?m\<bar> \<le> ?m / 2 ^ 53 + underflow" using rnd_relative [of ?m] q(2) by simp
  also have "\<dots> \<le> ?S * (1 / 2 ^ 53) + underflow" using q S by (simp add: divide_right_mono)
  finally have "near 1 underflow (?q + rnd ?m) ?S"
    using q rd.round_nonneg [OF q(2)] by (simp add: near_def S)
  moreover have "0 \<le> ?S" using q S by simp
  ultimately have "near (1 + 9 / 8) (2 * underflow + underflow) (rnd (?q + rnd ?m)) ?S"
    by (intro near_rnd) simp_all
  then show ?thesis by (simp add: secs_def del: of_int_add)
qed

lemma secs_le: "0 \<le> D \<Longrightarrow> D < 2 ^ 63 \<Longrightarrow> secs D \<le> 2 ^ 40"
proof -
  assume D: "0 \<le> D" "D < 2 ^ 63"
  have "near (17 / 8) (3 * underflow) (secs D) (of_int D / 1000000000)" using D(1) by (rule secs_near)
  moreover have "of_int D \<le> (of_int (2 ^ 63) :: rat)" using D(2) by (simp only: of_int_le_iff)
  moreover have "(of_int (2 ^ 63) :: rat) = 9223372036854775808" by simp
  moreover note underflow_tiny
  ultimately show "secs D \<le> 2 ^ 40" by (simp add: near_def abs_le_iff)
qed

lemma duration_seconds_secs:
  assumes "0 \<le> sint d"
  shows "duration_seconds d = Fin (secs (sint d))"
proof -
  let ?q = "sint d div 1000000000" and ?m = "sint d mod 1000000000"
  have "sint d < 2 ^ 63" using sint_lt [of d] by simp
  then have q: "0 \<le> ?q" "?q \<le> 2 ^ 53" and m: "0 \<le> ?m" "?m < 1000000000"
    using assms by (simp_all add: pos_imp_zdiv_nonneg_iff)
  have div: "sint d sdiv 1000000000 = ?q" using assms by (intro sdiv_nonneg) simp_all
  have mod: "sint d smod 1000000000 = ?m"
    using assms by (cases "sint d = 0") (simp_all add: signed_modulo_int_def)
  have "(of_int ?m :: rat) \<le> of_int 1000000000" using m(2) by (simp only: of_int_le_iff less_imp_le)
  then have frac: "0 \<le> of_int ?m / (1000000000 :: rat)" "of_int ?m / (1000000000 :: rat) \<le> 1"
    using m(1) by simp_all
  have le: "rnd (of_int ?m / 1000000000) \<le> 1"
    using frac(2) representable_int [of 1] by (intro rd.round_le) simp_all
  have "(of_int ?q :: rat) \<le> of_int (2 ^ 53)" using q(2) by (simp only: of_int_le_iff)
  then have "f64_of_rat (of_int ?q + rnd (of_int ?m / 1000000000)) =
      Fin (rnd (of_int ?q + rnd (of_int ?m / 1000000000)))"
    using le q(1) rd.round_nonneg [OF frac(1)] by (intro f64_of_rat_small) simp_all
  moreover have "f64_of_int ?q = Fin (of_int ?q)" "f64_of_int ?m = Fin (of_int ?m)"
    using q m by (simp_all add: f64_of_int_exact)
  moreover have "f64_of_rat (of_int ?m / 1000000000) = Fin (rnd (of_int ?m / 1000000000))"
    using frac by (intro f64_of_rat_small) simp_all
  ultimately show ?thesis by (simp add: duration_seconds_def div mod f64_ops secs_def)
qed

section \<open>The estimate\<close>

text \<open>The estimate before the cut to whole seconds.\<close>

definition rough :: "int \<Rightarrow> int \<Rightarrow> rat" where
  "rough w D = rnd (of_int w * rnd (secs D / 3))"

lemma estimate_floor:
  fixes cfg :: config and pos :: int64
  assumes p: "0 < sint pos" and m: "0 < sint (MaxConcurrent cfg)" and d: "0 \<le> sint (BackendTimeout cfg)"
    and fits: "sint pos + sint (MaxConcurrent cfg) \<le> 2 ^ 63"
  defines "w \<equiv> (sint pos + sint (MaxConcurrent cfg) - 1) div sint (MaxConcurrent cfg)"
  assumes w: "w \<le> 2 ^ 53" and small: "of_int w * rnd (secs (sint (BackendTimeout cfg)) / 3) \<le> 2 ^ 60"
  shows "estimateWait oor cfg pos = max 5 \<lfloor>rough w (sint (BackendTimeout cfg))\<rfloor>"
proof -
  let ?M = "MaxConcurrent cfg" and ?D = "sint (BackendTimeout cfg)"
  let ?x = "rough w ?D"
  have w0: "0 \<le> w" using p m by (simp add: w_def pos_imp_zdiv_nonneg_iff)
  have "pos + ?M - 1 = of_int (sint pos + sint ?M - 1)" by simp
  also have "sint \<dots> = sint pos + sint ?M - 1"
    using p m fits by (simp only: sint_sbintrunc') (simp add: signed_take_bit_int_eq_self)
  finally have "sint (pos + ?M - 1) = sint pos + sint ?M - 1" .
  then have waves: "sint (pos + ?M - 1) sdiv sint ?M = w"
    using p m by (simp add: w_def sdiv_nonneg)
  have s: "0 \<le> secs ?D" "secs ?D \<le> 2 ^ 40"
    using secs_near [OF d] secs_le [OF d] sint_lt [of "BackendTimeout cfg"] by (simp_all add: near_def)
  then have avg: "f64_of_rat (secs ?D / 3) = Fin (rnd (secs ?D / 3))" by (intro f64_of_rat_small) simp_all
  have a0: "0 \<le> rnd (secs ?D / 3)" using s by (intro rd.round_nonneg) simp
  then have x0: "0 \<le> of_int w * rnd (secs ?D / 3)" using w0 by (intro mult_nonneg_nonneg) simp_all
  have prod: "f64_of_rat (of_int w * rnd (secs ?D / 3)) = Fin ?x"
    using f64_of_rat_small [OF x0 small] by (simp add: rough_def)
  have "representable (2 powi 60)" by (rule representable_pow2) simp
  then have x: "0 \<le> ?x" "?x \<le> 2 ^ 60"
    using rd.round_nonneg [OF x0] rd.round_le [of "2 ^ 60", OF _ small] by (simp_all add: rough_def)
  have "\<lfloor>?x\<rfloor> \<le> 2 ^ 60" using x(2) floor_mono [of ?x "2 ^ 60"] by simp
  then have trunc: "f64_to_int64 oor (Fin ?x) = \<lfloor>?x\<rfloor>"
    using x(1) by (simp add: rat_trunc_def)
  have "f64_of_int w = Fin (of_int w)" using w w0 by (intro f64_of_int_exact) simp
  then show ?thesis
    using p m
    by (simp add: estimateWait_def duration_seconds_secs [OF d] avg waves prod trunc Let_def f64_ops max_def
        del: f64_to_int64.simps)
qed

text \<open>Below \<open>2\<^sup>5\<^sup>0\<close> nanoseconds the four roundings err by less than one nanosecond in all, divided by three.\<close>

lemma rough_near:
  assumes w: "0 \<le> w" "w \<le> 2 ^ 50" and D: "0 \<le> D" and N: "w * D < 2 ^ 50"
  shows "\<bar>rough w D - of_int (w * D) / 3000000000\<bar> < 1 / 3000000000"
    and "of_int w * rnd (secs D / 3) \<le> 2 ^ 60"
proof -
  let ?S = "of_int D / 1000000000 :: rat" and ?w = "of_int w :: rat" and ?u = underflow
  let ?E = "of_int (w * D) / 3000000000 :: rat"
  have S: "0 \<le> ?S" and w': "0 \<le> ?w" using D w by simp_all
  have "?w \<le> of_int (2 ^ 50)" using w(2) by (simp only: of_int_le_iff)
  then have w50: "?w \<le> 1125899906842624" by simp
  have "(of_int (w * D) :: rat) \<le> of_int (2 ^ 50)" using N by (simp only: of_int_le_iff less_imp_le)
  then have E50: "?E \<le> 1125899906842624 / 3000000000" by (simp add: mult.commute)
  have E: "?S * (1 / 3) * ?w = ?E" by simp
  have E0: "0 \<le> ?E" using w D by simp
  have "near (17 / 8) (?u * 3 * (1 / 3)) (secs D * (1 / 3)) (?S * (1 / 3))"
    using near_scale [OF secs_near [OF D], of "1 / 3"] by (simp add: mult.commute)
  then have "near (17 / 8 + 9 / 8) (2 * ?u + ?u) (rnd (secs D / 3)) (?S * (1 / 3))"
    using near_rnd [of "17 / 8" ?u "secs D / 3" "?S * (1 / 3)"] S by simp
  from near_scale [OF this w']
  have pre: "near (13 / 4) (3 * ?u * ?w) (rnd (secs D / 3) * ?w) ?E"
    unfolding E by (simp add: mult_ac)
  have "?u * ?w \<le> 1 / 2 ^ 200 * 1125899906842624"
    using underflow_tiny w50 w' by (intro mult_mono) simp_all
  then have uw: "?u * ?w \<le> 1 / 2000000000000" by (rule order_trans) simp
  have u: "?u \<le> 1 / 2000000000000" using underflow_tiny by (rule order_trans) simp
  have "?E * (13 / 4 / 2 ^ 53) \<le> 1125899906842624 / 3000000000 * (13 / 4 / 2 ^ 53)"
    using E50 by (rule mult_right_mono) simp
  then have e: "?E * (13 / 4 / 2 ^ 53) \<le> 1 / 3000000000" by (rule order_trans) simp
  have uuw: "3 * ?u * ?w = 3 * (?u * ?w)" by simp
  have "\<bar>rnd (secs D / 3) * ?w - ?E\<bar> \<le> 1"
    using pre e uw unfolding near_def uuw by linarith
  then have "rnd (secs D / 3) * ?w \<le> 1125899906842624" using E50 by linarith
  then show "of_int w * rnd (secs D / 3) \<le> 2 ^ 60" by (simp add: mult.commute)
  have "0 \<le> 3 * ?u * ?w" using w' by simp
  from near_rnd [OF pre E0 _ _ this]
  have "near (13 / 4 + 9 / 8) (2 * (3 * ?u * ?w) + ?u) (rough w D) ?E"
    by (simp add: rough_def mult.commute)
  then have "\<bar>rough w D - ?E\<bar> \<le> ?E * ((13 / 4 + 9 / 8) / 2 ^ 53) + (2 * (3 * (?u * ?w)) + ?u)"
    unfolding near_def uuw by (rule conjunct2)
  moreover have "?E * ((13 / 4 + 9 / 8) / 2 ^ 53) \<le>
      1125899906842624 / 3000000000 * ((13 / 4 + 9 / 8) / 2 ^ 53)"
    using E50 by (rule mult_right_mono) simp
  then have "?E * ((13 / 4 + 9 / 8) / 2 ^ 53) \<le> 35 / 64 / 3000000000" by (rule order_trans) simp
  ultimately show "\<bar>rough w D - ?E\<bar> < 1 / 3000000000" using uw u by linarith
qed

lemma floor_near:
  assumes near: "\<bar>x - of_int N / 3000000000\<bar> < (1 :: rat) / 3000000000"
  shows "\<lfloor>x\<rfloor> = N div 3000000000 \<or> 3000000000 dvd N \<and> \<lfloor>x\<rfloor> = N div 3000000000 - 1"
proof -
  let ?a = "N div 3000000000" and ?b = "N mod 3000000000"
  have "(of_int N :: rat) = of_int (?a * 3000000000 + ?b)" by simp
  then have N: "of_int N / 3000000000 = of_int ?a + (of_int ?b / 3000000000 :: rat)"
    by (simp only: of_int_add of_int_mult) simp
  have lo: "of_int N / 3000000000 - 1 / 3000000000 < x" and hi: "x < of_int N / 3000000000 + 1 / 3000000000"
    using near unfolding abs_less_iff by linarith+
  have "?b + 1 \<le> 3000000000" using pos_mod_bound [of 3000000000 N] by linarith
  then have "(of_int (?b + 1) :: rat) \<le> of_int 3000000000" by (simp only: of_int_le_iff)
  then have b: "of_int ?b / 3000000000 + 1 / 3000000000 \<le> (1 :: rat)" by simp
  show ?thesis
  proof (cases "?b = 0")
    case True
    then have "of_int N / 3000000000 = (of_int ?a :: rat)" unfolding N by simp
    with lo hi have x: "of_int (?a - 1) \<le> x" "x < of_int ?a + 1" unfolding of_int_diff by linarith+
    have "?a - 1 \<le> \<lfloor>x\<rfloor>" using x(1) by (simp only: le_floor_iff)
    moreover have "\<lfloor>x\<rfloor> < ?a + 1" using x(2) by (simp only: floor_less_iff of_int_add of_int_1)
    moreover have "3000000000 dvd N" using True by (simp add: dvd_eq_mod_eq_0)
    ultimately show ?thesis by linarith
  next
    case False
    have "0 \<le> ?b" by simp
    with False have "1 \<le> ?b" by linarith
    then have "(of_int 1 :: rat) \<le> of_int ?b" by (simp only: of_int_le_iff)
    then have "1 / 3000000000 \<le> (of_int ?b / 3000000000 :: rat)" by simp
    then have "of_int ?a \<le> x" "x < of_int ?a + 1" using lo hi N b by linarith+
    then have "\<lfloor>x\<rfloor> = ?a" by (intro floor_unique)
    then show ?thesis ..
  qed
qed

lemma rough_exact:
  assumes "0 \<le> k" and "3 * k \<le> 2 ^ 53" and "0 \<le> w" and "w \<le> 2 ^ 53" and "w * k \<le> 2 ^ 53"
  shows "of_int w * rnd (secs (3 * k * 1000000000) / 3) = of_int (w * k)"
    and "rough w (3 * k * 1000000000) = of_int (w * k)"
proof -
  have int: "rnd (of_int i) = of_int i" if "0 \<le> i" "i \<le> 2 ^ 53" for i
    using that by (intro rd.round_rep representable_int) simp
  have "secs (3 * k * 1000000000) = of_int (3 * k)"
    using int [of "3 * k"] assms by (simp add: secs_def del: of_int_mult)
  then have avg: "rnd (secs (3 * k * 1000000000) / 3) = of_int k"
    using int [of k] assms by (simp only:) simp
  show "of_int w * rnd (secs (3 * k * 1000000000) / 3) = of_int (w * k)" unfolding avg by simp
  show "rough w (3 * k * 1000000000) = of_int (w * k)"
    using int [of "w * k"] assms unfolding rough_def avg by simp
qed

text \<open>C31. The estimate is the documented one.  Let \<open>w = \<lceil>pos / MaxConcurrent\<rceil>\<close> be the number of waves and
  \<open>N\<close> the product of \<open>w\<close> and the backend timeout in nanoseconds, below \<open>2\<^sup>5\<^sup>0\<close> (thirteen days).  Then the
  estimate is a third of \<open>N\<close>, rounded down to whole seconds, and at least five, whatever the timeout;
  only where a third of \<open>N\<close> is a whole number of seconds may the floating point fall short of it by one,
  and not even there if the timeout is a multiple of three seconds, up to \<open>2\<^sup>5\<^sup>3\<close> seconds.\<close>

theorem estimate_exact:
  assumes "0 < sint pos" and "0 < sint (MaxConcurrent cfg)" and "0 < sint (BackendTimeout cfg)"
    and "sint pos + sint (MaxConcurrent cfg) \<le> 2 ^ 63"
  shows "let w = (sint pos + sint (MaxConcurrent cfg) - 1) div sint (MaxConcurrent cfg);
      N = w * sint (BackendTimeout cfg); e = estimateWait oor cfg pos
    in (N < 2 ^ 50 \<longrightarrow> e = max 5 (N div 3000000000) \<or>
          3000000000 dvd N \<and> e = max 5 (N div 3000000000 - 1)) \<and>
       (3000000000 dvd sint (BackendTimeout cfg) \<and> N \<le> 2 ^ 53 * 3000000000 \<longrightarrow>
          e = max 5 (N div 3000000000))"
proof -
  define D where "D = sint (BackendTimeout cfg)"
  define w where "w = (sint pos + sint (MaxConcurrent cfg) - 1) div sint (MaxConcurrent cfg)"
  have D: "0 \<le> D" "1 \<le> D" "D < 2 ^ 63" using assms(3) sint_lt [of "BackendTimeout cfg"] by (simp_all add: D_def)
  have w: "0 \<le> w" using assms by (simp add: w_def pos_imp_zdiv_nonneg_iff)
  have est: "estimateWait oor cfg pos = max 5 \<lfloor>rough w D\<rfloor>"
    if "w \<le> 2 ^ 53" "of_int w * rnd (secs D / 3) \<le> 2 ^ 60"
    using estimate_floor [OF assms(1,2) _ assms(4), of oor] that assms(3) by (simp add: w_def D_def)
  have near: "estimateWait oor cfg pos = max 5 (w * D div 3000000000) \<or>
      3000000000 dvd w * D \<and> estimateWait oor cfg pos = max 5 (w * D div 3000000000 - 1)" if N: "w * D < 2 ^ 50"
  proof -
    have "w * 1 \<le> w * D" using w D(2) by (intro mult_left_mono)
    then have w50: "w \<le> 2 ^ 50" using N by simp
    note r = rough_near [OF w w50 D(1) N]
    have "estimateWait oor cfg pos = max 5 \<lfloor>rough w D\<rfloor>" using w50 r(2) by (intro est) simp_all
    with floor_near [OF r(1)] show ?thesis by auto
  qed
  have exact: "estimateWait oor cfg pos = max 5 (w * D div 3000000000)"
    if dvd: "3000000000 dvd D" and N: "w * D \<le> 2 ^ 53 * 3000000000"
  proof -
    obtain k where "D = 3000000000 * k" using dvd by (elim dvdE)
    then have k: "D = 3 * k * 1000000000" by simp
    then have k1: "1 \<le> k" "3 * k \<le> 2 ^ 53" using D by simp_all
    have "w * D = w * k * 3000000000" by (simp add: k)
    then have wk: "w * k \<le> 2 ^ 53" using N by linarith
    have "w * 1 \<le> w * k" using w k1(1) by (intro mult_left_mono)
    then have w53: "w \<le> 2 ^ 53" using wk by simp
    have "0 \<le> k" using k1 by simp
    note r = rough_exact [OF this k1(2) w w53 wk, folded k]
    have "(of_int (w * k) :: rat) \<le> of_int (2 ^ 53)" using wk by (simp only: of_int_le_iff)
    then have "of_int w * rnd (secs D / 3) \<le> 2 ^ 60" unfolding r(1) by simp
    from est [OF w53 this] have "estimateWait oor cfg pos = max 5 (w * k)"
      unfolding r(2) by (simp only: floor_of_int)
    moreover have "w * D div 3000000000 = w * k" by (simp add: k)
    ultimately show ?thesis by simp
  qed
  show ?thesis using near exact unfolding Let_def w_def [symmetric] D_def [symmetric] by blast
qed

text \<open>Two waves at ten seconds: two thirds of ten seconds, cut to six.\<close>

theorem estimate_exact_witness:
  "estimateWait (\<lambda>_. 0) (default_config\<lparr>MaxConcurrent := 50, BackendTimeout := 10000000000\<rparr>) 75 = 6"
  using estimate_exact [of 75 "default_config\<lparr>MaxConcurrent := 50, BackendTimeout := 10000000000\<rparr>" "\<lambda>_. 0"]
  by (simp add: Let_def)

text \<open>
  The exception is real: twenty-seven waves at a third of thirteen seconds are 117 seconds, and the page
  says 116, because the third is rounded down.
\<close>

theorem estimate_falls_short:
  "estimateWait oor (default_config\<lparr>MaxConcurrent := 1, BackendTimeout := 13000000000\<rparr>) 27 = 116 \<and>
   (27 * 13000000000) div 3000000000 = (117 :: int)"
proof -
  let ?c = "default_config\<lparr>MaxConcurrent := 1, BackendTimeout := 13000000000\<rparr>"
  have secs: "secs 13000000000 = 13" by code_simp
  have avg: "rnd (13 / 3) = 4878899596318037 / 2 ^ 50" by code_simp
  have prod: "rnd (27 * (4878899596318037 / 2 ^ 50)) = 8233143068786687 / 2 ^ 46" by code_simp
  have "rough 27 13000000000 = 8233143068786687 / 2 ^ 46"
    unfolding rough_def secs avg using prod by (simp only: of_int_numeral)
  moreover have "\<lfloor>8233143068786687 / 2 ^ 46 :: rat\<rfloor> = 116" by (simp add: floor_eq_iff)
  ultimately have "\<lfloor>rough 27 13000000000\<rfloor> = 116" by (simp only:)
  moreover have "(27 :: rat) * rnd (13 / 3) \<le> 2 ^ 60" unfolding avg by simp
  ultimately show ?thesis
    using estimate_floor [of 27 ?c oor] by (simp add: secs)
qed

end
