(* ===== verification/Serve_Mux.thy ===== *)
theory Serve_Mux
  imports Pipeline
begin

text \<open>
  The request multiplexers of \<open>src/main.go\<close>: one pattern \<open>/\<close> on the public port, two exact patterns on
  the metrics port.  \<open>http.ServeMux\<close>, \<open>http.Redirect\<close> and \<open>path.Clean\<close> are those of Go 1.21, the
  version of \<open>go.mod\<close>, for patterns that begin with a slash, as all the program's do.
\<close>

section \<open>\<open>path.Clean\<close>\<close>

text \<open>
  On a rooted path.  The path is a list of elements; \<open>acc\<close> is what the output buffer holds, last element
  first, and \<open>..\<close> drops it, or nothing at the root.
\<close>

definition dot :: bytes where "dot = ''.''"

definition dotdot :: bytes where "dotdot = ''..''"

fun clean_elems :: "bytes list \<Rightarrow> bytes list \<Rightarrow> bytes list" where
  "clean_elems acc [] = rev acc"
| "clean_elems acc (e # es) =
     (if e = [] \<or> e = dot then clean_elems acc es
      else if e = dotdot then clean_elems (tl acc) es
      else clean_elems (e # acc) es)"

text \<open>The elements a path names from the root.\<close>

definition resolve :: "bytes \<Rightarrow> bytes list" where
  "resolve p = clean_elems [] (split_on CHR ''/'' p)"

definition path_clean :: "bytes \<Rightarrow> bytes" where
  "path_clean p = CHR ''/'' # join_on CHR ''/'' (resolve p)"

text \<open>\<open>cleanPath\<close> of \<open>net/http\<close>: a trailing slash is put back.\<close>

definition cleanPath :: "bytes \<Rightarrow> bytes" where
  "cleanPath p0 =
     (if p0 = [] then ''/''
      else
        (let p = (if hd p0 \<noteq> CHR ''/'' then CHR ''/'' # p0 else p0); np = path_clean p
         in if last p = CHR ''/'' \<and> np \<noteq> ''/'' then np @ ''/'' else np))"

section \<open>\<open>http.Redirect\<close>\<close>

definition html_escape_byte :: "byte \<Rightarrow> bytes" where
  "html_escape_byte c =
     (if c = CHR ''&'' then ''&amp;'' else if c = CHR ''<'' then ''&lt;''
      else if c = CHR ''>'' then ''&gt;'' else if c = CHR 0x22 then ''&#34;''
      else if c = CHR 0x27 then ''&#39;'' else [c])"

definition hex_escape_byte :: "byte \<Rightarrow> bytes" where
  "hex_escape_byte c =
     (if (of_char c :: nat) < 128 then [c]
      else [CHR ''%'', lower_hex (of_char c div 16), lower_hex (of_char c mod 16)])"

text \<open>
  The URL here has a rooted path and perhaps a query, so it is never made absolute; its path is cleaned
  again if it parses as one without a host.
\<close>

definition redirect_url :: "bytes \<Rightarrow> bytes" where
  "redirect_url target =
     (case url_parse target of
        Some u \<Rightarrow>
          if u_scheme u = [] \<and> u_host u = []
          then (let path = before CHR ''?'' target; query = dropWhile (\<lambda>c. c \<noteq> CHR ''?'') target;
                    np = path_clean path;
                    np' = (if path \<noteq> [] \<and> last path = CHR ''/'' \<and> last np \<noteq> CHR ''/'' then np @ ''/'' else np)
                in np' @ query)
          else target
      | None \<Rightarrow> target)"

definition redirect_calls :: "request \<Rightarrow> header \<Rightarrow> bytes \<Rightarrow> int \<Rightarrow> rw_call list" where
  "redirect_calls r written target code =
     (let url = redirect_url target; hadCT = (header_values written ''Content-Type'' \<noteq> [])
      in [HeaderSet ''Location'' (concat (map hex_escape_byte url))] @
         (if \<not> hadCT \<and> (rq_method r = ''GET'' \<or> rq_method r = ''HEAD'')
          then [HeaderSet ''Content-Type'' ''text/html; charset=utf-8''] else []) @
         [WriteHeader code] @
         (if \<not> hadCT \<and> rq_method r = ''GET''
          then [Write ([CHR ''<''] @ ''a href='' @ [CHR 0x22] @ concat (map html_escape_byte url) @ [CHR 0x22] @
                 ''>'' @ status_text code @ ''</a>.'' @ [CHR 0x0A, CHR 0x0A])] else []))"

section \<open>The multiplexer\<close>

text \<open>
  The registered patterns; those that end in a slash match every path below, the longest first.  A
  request line with the path \<open>*\<close> is answered with 400.
\<close>

type_synonym 'h mux = "(bytes \<times> 'h) list"

datatype 'h dispatch = Serve 'h | MovedTo bytes | NotFound | BadRequest

definition mux_match :: "'h mux \<Rightarrow> bytes \<Rightarrow> 'h option" where
  "mux_match m path =
     (case map_of m path of
        Some h \<Rightarrow> Some h
      | None \<Rightarrow>
          map_option snd
            (find (\<lambda>(p, h). take (length p) path = p)
              (sort_key (\<lambda>(p, h). - int (length p)) (filter (\<lambda>(p, h). last p = CHR ''/'') m))))"

definition slash_redirect :: "'h mux \<Rightarrow> bytes \<Rightarrow> bool" where
  "slash_redirect m path \<longleftrightarrow>
     map_of m path = None \<and> path \<noteq> [] \<and> map_of m (path @ ''/'') \<noteq> None \<and> last path \<noteq> CHR ''/''"

definition mux_find :: "'h mux \<Rightarrow> bytes \<Rightarrow> 'h dispatch" where
  "mux_find m path = (case mux_match m path of Some h \<Rightarrow> Serve h | None \<Rightarrow> NotFound)"

definition url_text :: "bytes \<Rightarrow> bytes \<Rightarrow> bytes" where
  "url_text path query = escape_path path @ (if query = [] then [] else CHR ''?'' # query)"

definition mux_handler :: "'h mux \<Rightarrow> request \<Rightarrow> 'h dispatch" where
  "mux_handler m r =
     (if rq_path r = ''*'' then BadRequest
      else if rq_method r = ''CONNECT''
      then (if slash_redirect m (rq_path r)
            then MovedTo (url_text (rq_path r @ ''/'') (rq_raw_query r))
            else mux_find m (rq_path r))
      else
        (let path = cleanPath (rq_path r)
         in if slash_redirect m path then MovedTo (url_text (path @ ''/'') (rq_raw_query r))
            else if path \<noteq> rq_path r then MovedTo (url_text path (rq_raw_query r))
            else mux_find m (rq_path r)))"

text \<open>\<open>http11\<close> is \<open>r.ProtoAtLeast(1, 1)\<close>.\<close>

definition mux_serve ::
  "(bytes \<Rightarrow> bytes) \<Rightarrow> bool \<Rightarrow> (rwriter, 'st) handler mux \<Rightarrow> (rwriter, 'st) handler" where
  "mux_serve detect http11 m r w st =
     (case mux_handler m r of
        Serve h \<Rightarrow> h r w st
      | MovedTo target \<Rightarrow> (fold (rw.perform detect) (redirect_calls r (rw_header w) target 301) w, st)
      | NotFound \<Rightarrow> (fold (rw.perform detect) (http_error ''404 page not found'' 404) w, st)
      | BadRequest \<Rightarrow>
          (fold (rw.perform detect)
             ((if http11 then [HeaderSet ''Connection'' ''close''] else []) @ [WriteHeader 400]) w, st))"

definition public_mux :: "(rwriter, gateway) handler \<Rightarrow> (rwriter, gateway) handler mux" where
  "public_mux proxyHandler = [(''/'', proxyHandler)]"

definition metrics_mux :: "'h \<Rightarrow> 'h \<Rightarrow> 'h mux" where
  "metrics_mux stats metrics = [(''/__peakshield/stats'', stats), (''/metrics'', metrics)]"

section \<open>Elements\<close>

text \<open>Elements a path can hold after cleaning.\<close>

definition name_elem :: "bytes \<Rightarrow> bool" where
  "name_elem e \<longleftrightarrow> e \<noteq> [] \<and> e \<noteq> dot \<and> e \<noteq> dotdot \<and> CHR ''/'' \<notin> set e"

lemma clean_elems_append: "clean_elems acc (es @ fs) = clean_elems (rev (clean_elems acc es)) fs"
  by (induction acc es rule: clean_elems.induct) simp_all

lemma clean_elems_names: "list_all name_elem es \<Longrightarrow> clean_elems acc es = rev acc @ es"
  by (induction es arbitrary: acc) (simp_all add: name_elem_def)

lemma clean_elems_ok:
  "list_all name_elem acc \<Longrightarrow> list_all (\<lambda>e. CHR ''/'' \<notin> set e) es \<Longrightarrow> list_all name_elem (clean_elems acc es)"
proof (induction acc es rule: clean_elems.induct)
  case (2 acc e es)
  then show ?case by (cases acc) (auto simp: name_elem_def)
qed simp

lemma resolve_names: "list_all name_elem (resolve p)"
  unfolding resolve_def by (rule clean_elems_ok) (simp_all add: split_on_no_sep)

lemma name_no_slash: "list_all name_elem es \<Longrightarrow> list_all (\<lambda>e. CHR ''/'' \<notin> set e) es"
  by (auto simp: list_all_iff name_elem_def)

lemma resolve_slash: "resolve (CHR ''/'' # p) = resolve p"
  by (simp add: resolve_def)

lemma resolve_append: "resolve (p @ CHR ''/'' # q) = clean_elems (rev (resolve p)) (split_on CHR ''/'' q)"
  by (simp add: resolve_def split_on_at clean_elems_append)

lemma resolve_trailing: "resolve (p @ ''/'') = resolve p"
  using resolve_append [of p "[]"] by simp

lemma resolve_join: "list_all name_elem es \<Longrightarrow> resolve (join_on CHR ''/'' es) = es"
proof (cases "es = []")
  case False
  then show "list_all name_elem es \<Longrightarrow> ?thesis"
    by (simp add: resolve_def split_on_join name_no_slash clean_elems_names)
qed (simp add: resolve_def)

lemma resolve_clean: "resolve (path_clean p) = resolve p"
  by (simp add: path_clean_def resolve_slash resolve_join resolve_names)

lemma resolve_cleanPath: "resolve (cleanPath p) = resolve p"
proof -
  have "resolve (if hd p \<noteq> CHR ''/'' then CHR ''/'' # p else p) = resolve p" by (simp add: resolve_slash)
  then show ?thesis
    by (auto simp: cleanPath_def Let_def resolve_clean resolve_trailing resolve_slash)
qed

end
