(* ===== verification/Proxy_Props.thy ===== *)
theory Proxy_Props
  imports Reverse_Proxy
begin

text \<open>
  What the reverse proxy guarantees: which headers it forwards and what it adds, the path and query the
  backend sees, the response the client gets for every outcome, and the addresses it extracts.
\<close>

section \<open>Headers that end at the proxy\<close>

text \<open>
  The values of a key that survive: none if the key is on the fixed list or nominated by the first
  \<open>Connection\<close> line, all of them in their order otherwise.
\<close>

definition end_to_end :: "header \<Rightarrow> bytes \<Rightarrow> bytes list" where
  "end_to_end h k =
     (if canonical_key k \<in> canonical_key ` set (hopByHopHeaders @ nominated h)
      then [] else header_values h k)"

lemma sanitize_values: "header_values (sanitizeHopByHopHeaders h) k = end_to_end h k"
  by (auto simp: sanitizeHopByHopHeaders_def hd.vals_del_all end_to_end_def)

text \<open>C12. The removal of hop-by-hop headers is exact.\<close>

theorem sanitize_exact:
  "header_values (sanitizeHopByHopHeaders h) k =
     (if canonical_key k \<in> canonical_key ` set hopByHopHeaders then []
      else if list_ex (\<lambda>token. trim_space token \<noteq> [] \<and> canonical_key (trim_space token) = canonical_key k)
                (split_on CHR '','' (header_get h ''Connection''))
      then [] else header_values h k)"
proof -
  have "trim_space [] = []" by (simp add: trim_space_def)
  then have "canonical_key k \<in> canonical_key ` set (nominated h) \<longleftrightarrow>
      list_ex (\<lambda>token. trim_space token \<noteq> [] \<and> canonical_key (trim_space token) = canonical_key k)
        (split_on CHR '','' (header_get h ''Connection''))"
    by (cases "header_get h ''Connection'' = []") (auto simp: nominated_def Let_def list_ex_iff image_iff)
  then show ?thesis by (simp add: sanitize_values end_to_end_def image_Un)
qed

section \<open>The outbound request\<close>

text \<open>What the server guarantees of a header it has read: canonical keys, each once.\<close>

definition canonical_header :: "header \<Rightarrow> bool" where
  "canonical_header h \<longleftrightarrow> header_ok h \<and> list_all (\<lambda>kv. canonical_key (fst kv) = fst kv) h"

lemma filter_key:
  "distinct (map fst h) \<Longrightarrow>
     concat (map snd (filter (\<lambda>kv. fst kv = k) h)) = (case map_of h k of None \<Rightarrow> [] | Some vs \<Rightarrow> vs)"
proof (induction h)
  case (Cons kv h)
  show ?case
  proof (cases "fst kv = k")
    case True
    then have "filter (\<lambda>kv. fst kv = k) h = []" using Cons.prems by (simp add: filter_empty_conv) (metis fst_conv image_eqI)
    with True show ?thesis by (cases kv) simp
  next
    case False
    with Cons show ?thesis by (cases kv) simp
  qed
qed simp

lemma canonical_filter:
  assumes "canonical_header h"
  shows "concat (map snd (filter (\<lambda>kv. canonical_key (fst kv) = canonical_key k) h)) = header_values h k"
proof -
  have "filter (\<lambda>kv. canonical_key (fst kv) = canonical_key k) h = filter (\<lambda>kv. fst kv = canonical_key k) h"
    using assms by (auto simp: canonical_header_def list_all_iff intro!: filter_cong)
  then show ?thesis
    using assms by (simp add: filter_key canonical_header_def header_ok_def header_values_def)
qed

lemma copy_values:
  "canonical_header h \<Longrightarrow> header_values (copyRequestHeaders [] h) k = header_values h k"
  by (simp add: copyRequestHeaders_def hd.vals_copy canonical_filter) (simp add: header_values_def)

lemma end_to_end_copy:
  assumes "canonical_header h"
  shows "end_to_end (copyRequestHeaders [] h) k = end_to_end h k"
  using copy_values [OF assms] by (simp add: end_to_end_def nominated_def header_get_def)

definition first_value :: "bytes list \<Rightarrow> bytes" where
  "first_value vs = (case vs of [] \<Rightarrow> [] | v # _ \<Rightarrow> v)"

lemma header_get_first: "header_get h k = first_value (header_values h k)"
  by (simp add: header_get_def first_value_def)

text \<open>The canonical form of the keys the proxy writes.\<close>

lemma proxy_keys [simp]:
  "canonical_key ''Via'' = ''Via''" "canonical_key ''X-Forwarded-For'' = ''X-Forwarded-For''"
  "canonical_key ''X-Real-IP'' = ''X-Real-Ip''" "canonical_key ''X-Forwarded-Host'' = ''X-Forwarded-Host''"
  "canonical_key ''X-Forwarded-Proto'' = ''X-Forwarded-Proto''"
  "canonical_key ''X-PeakShield-Proxied'' = ''X-Peakshield-Proxied''"
  by code_simp+

text \<open>A value the request came with, or the proxy's own if the first line is missing or empty.\<close>

definition or_default :: "bytes \<Rightarrow> bytes list \<Rightarrow> bytes list" where
  "or_default v vs = (if first_value vs = [] then [v] else vs)"

lemma set_if_missing_values:
  "header_values (set_if_missing k v h) k' =
     (if canonical_key k = canonical_key k' then or_default v (header_values h k) else header_values h k')"
  by (auto simp: set_if_missing_def hd.vals_upd or_default_def header_get_first)
     (auto simp: header_values_def)

lemma forward_for_values:
  "header_values (forward_for ip h) k =
     (if canonical_key k = ''X-Forwarded-For''
      then [(let prior = first_value (header_values h k) in if prior = [] then ip else prior @ '', '' @ ip)]
      else header_values h k)"
proof -
  have "canonical_key k = ''X-Forwarded-For'' \<Longrightarrow>
      header_values h ''X-Forwarded-For'' = header_values h k"
    by (simp add: header_values_def)
  then show ?thesis
    by (auto simp: forward_for_def hd.vals_upd header_get_first Let_def)
qed

lemma forwarded_header:
  assumes "canonical_header (rq_header r)"
  shows "header_values (outbound_header r) k =
      (let own = end_to_end (rq_header r) k; ip = ExtractIP (rq_remote r); c = canonical_key k
       in if c = ''Via'' then [''1.1 peakshield'']
          else if c = ''X-Forwarded-For''
          then [(if first_value own = [] then ip else first_value own @ '', '' @ ip)]
          else if c = ''X-Real-Ip'' then or_default ip own
          else if c = ''X-Forwarded-Host'' then or_default (rq_host r) own
          else if c = ''X-Forwarded-Proto''
          then or_default (if rq_tls r then ''https'' else ''http'') own
          else own)"
proof -
  have own: "header_values (sanitizeHopByHopHeaders (copyRequestHeaders [] (rq_header r))) k' =
      end_to_end (rq_header r) k'" for k'
    using assms by (simp add: sanitize_values end_to_end_copy)
  have same: "canonical_key k = canonical_key k' \<Longrightarrow>
      end_to_end (rq_header r) k' = end_to_end (rq_header r) k" for k'
    by (simp add: end_to_end_def header_values_def)
  show ?thesis
    using same [of "''X-Real-IP''"] same [of "''X-Forwarded-Host''"] same [of "''X-Forwarded-Proto''"]
    unfolding outbound_header_def Let_def
    by (simp add: hd.vals_upd set_if_missing_values forward_for_values own)
qed

text \<open>
  C6. The outbound request carries the client's method, query and body, the target's scheme and host, and
  exactly these headers: \<open>Via\<close> is the proxy's; \<open>X-Forwarded-For\<close> is one line that ends with the
  peer's address; \<open>X-Real-IP\<close>, \<open>X-Forwarded-Host\<close> and \<open>X-Forwarded-Proto\<close> are the client's if their
  first line is not empty and the proxy's otherwise; every other key has the client's values, less the
  hop-by-hop ones.
\<close>

theorem forwarded_request:
  assumes "buildBackendRequest p r = Inr q" and "canonical_header (rq_header r)"
  shows "or_host q = u_host (px_target p) \<and> or_scheme q = u_scheme (px_target p) \<and>
    or_method q = (if rq_method r = [] then ''GET'' else rq_method r) \<and> or_body q = rq_body r \<and>
    header_values (or_header q) k =
      (let own = end_to_end (rq_header r) k; ip = ExtractIP (rq_remote r); c = canonical_key k
       in if c = ''Via'' then [''1.1 peakshield'']
          else if c = ''X-Forwarded-For''
          then [(if first_value own = [] then ip else first_value own @ '', '' @ ip)]
          else if c = ''X-Real-Ip'' then or_default ip own
          else if c = ''X-Forwarded-Host'' then or_default (rq_host r) own
          else if c = ''X-Forwarded-Proto''
          then or_default (if rq_tls r then ''https'' else ''http'') own
          else own)"
proof -
  have "or_header q = outbound_header r \<and> or_host q = u_host (px_target p) \<and>
      or_scheme q = u_scheme (px_target p) \<and> or_body q = rq_body r \<and>
      or_method q = (if rq_method r = [] then ''GET'' else rq_method r)"
    using assms(1) by (auto simp: buildBackendRequest_def new_request_def Let_def split: if_splits)
  then show ?thesis using forwarded_header [OF assms(2), of k] by simp
qed

text \<open>Evaluation on concrete headers.\<close>

lemma hop_keys: "canonical_key ` set hopByHopHeaders =
    {''Connection'', ''Keep-Alive'', ''Proxy-Authenticate'', ''Proxy-Authorization'', ''Te'',
     ''Trailers'', ''Transfer-Encoding'', ''Upgrade''}"
proof -
  have "map canonical_key hopByHopHeaders =
      [''Connection'', ''Keep-Alive'', ''Proxy-Authenticate'', ''Proxy-Authorization'', ''Te'',
       ''Trailers'', ''Transfer-Encoding'', ''Upgrade'']" by code_simp
  then have "set (map canonical_key hopByHopHeaders) =
      set [''Connection'', ''Keep-Alive'', ''Proxy-Authenticate'', ''Proxy-Authorization'', ''Te'',
       ''Trailers'', ''Transfer-Encoding'', ''Upgrade'']" by (rule arg_cong)
  then show ?thesis by (simp only: set_map list.set)
qed

lemma end_to_end_eval:
  assumes "nominated h = ns" and "map canonical_key ns = cs" and "canonical_key k = c"
    and "header_values h k = vs"
  shows "end_to_end h k =
    (if c \<in> {''Connection'', ''Keep-Alive'', ''Proxy-Authenticate'', ''Proxy-Authorization'', ''Te'',
            ''Trailers'', ''Transfer-Encoding'', ''Upgrade''} \<or> c \<in> set cs then [] else vs)"
proof -
  have "canonical_key ` set (nominated h) = set cs" using assms by auto
  then show ?thesis by (simp only: end_to_end_def set_append image_Un hop_keys assms Un_iff)
qed

text \<open>Text that begins and ends with a visible ASCII byte has nothing to trim.\<close>

definition visible :: "byte \<Rightarrow> bool" where
  "visible c \<longleftrightarrow> 33 \<le> (of_char c :: nat) \<and> (of_char c :: nat) \<le> 126"

lemma space_runes_invisible:
  "list_all (\<lambda>w. w \<noteq> [] \<and> \<not> visible (hd w) \<and> \<not> visible (last w)) space_runes"
  by (simp add: space_runes_def visible_def upt_rec of_char_of)

lemma trim_prefixes_visible:
  assumes "list_all (\<lambda>w. w \<noteq> [] \<and> \<not> visible (hd w)) ws" and "visible (hd s)" and "s \<noteq> []"
  shows "trim_prefixes n ws s = s"
proof (cases n)
  case (Suc m)
  have "take (length w) s \<noteq> w" if "w \<in> set ws" for w
  proof
    assume "take (length w) s = w"
    moreover have "w \<noteq> []" "\<not> visible (hd w)" using that assms(1) by (auto simp: list_all_iff)
    ultimately show False using assms(2,3) by (metis hd_take length_greater_0_conv)
  qed
  then have "find (\<lambda>w. take (length w) s = w) ws = None" by (simp add: find_None_iff)
  then show ?thesis using Suc by simp
qed simp

lemma trim_space_visible:
  assumes "s \<noteq> []" and "visible (hd s)" and "visible (last s)"
  shows "trim_space s = s"
proof -
  have "trim_prefixes n space_runes s = s" for n
    using space_runes_invisible assms by (intro trim_prefixes_visible) (auto simp: list_all_iff)
  moreover have "trim_prefixes n (map rev space_runes) (rev s) = rev s" for n
    using space_runes_invisible assms
    by (intro trim_prefixes_visible) (auto simp: list_all_iff hd_rev)
  ultimately show ?thesis by (simp add: trim_space_def)
qed

lemma trims: "trim_space ''close'' = ''close''" "trim_space ''x-hop'' = ''x-hop''"
  by (rule trim_space_visible; simp add: visible_def)+

section \<open>A proxy in front of the default target\<close>

definition default_proxy :: proxy where
  "default_proxy =
     \<lparr>px_target = \<lparr>u_scheme = ''http'', u_host = ''localhost:9090'', u_path = []\<rparr>,
      px_transport = new_transport default_config, px_client_timeout = seconds 15,
      px_cfg = default_config\<rparr>"

lemma new_default_proxy: "new_proxy default_config = Inr default_proxy"
proof -
  have "url_parse ''http://localhost:9090'' =
      Some \<lparr>u_scheme = ''http'', u_host = ''localhost:9090'', u_path = []\<rparr>"
    by code_simp
  then show ?thesis by (simp add: new_proxy_def default_proxy_def default_config_def)
qed

definition get_request :: "bytes \<Rightarrow> bytes \<Rightarrow> header \<Rightarrow> request" where
  "get_request path query h =
     \<lparr>rq_method = ''GET'', rq_path = path, rq_raw_query = query, rq_header = h, rq_host = ''exam.gov'',
      rq_remote = ''203.0.113.42:54321'', rq_tls = True, rq_body = []\<rparr>"

lemma build_get:
  "uri_ok query \<Longrightarrow>
     buildBackendRequest default_proxy (get_request path query h) =
       Inr \<lparr>or_method = ''GET'', or_scheme = ''http'', or_uri = wire_target path query,
            or_host = ''localhost:9090'', or_header = outbound_header (get_request path query h),
            or_body = []\<rparr>"
  by (simp add: buildBackendRequest_def new_request_def default_proxy_def get_request_def Let_def
      joinPath_def token_byte_def)

lemma demo_ip: "ExtractIP ''203.0.113.42:54321'' = ''203.0.113.42''" by code_simp

lemma uri_ok_empty: "uri_ok []"
  by (simp add: uri_ok_def before_def after_def)

theorem forwarded_request_witness:
  "\<exists>q. buildBackendRequest default_proxy
      (get_request ''/'' [] [(''Connection'', [''close,x-hop'']), (''X-Hop'', [''1'']),
         (''X-Forwarded-For'', [''10.0.0.9''])]) = Inr q \<and>
    header_values (or_header q) ''X-Hop'' = [] \<and>
    header_values (or_header q) ''x-forwarded-for'' = [''10.0.0.9, 203.0.113.42'']"
proof -
  let ?h = "[(''Connection'', [''close,x-hop'']), (''X-Hop'', [''1'']),
      (''X-Forwarded-For'', [''10.0.0.9''])]"
  obtain q where q: "buildBackendRequest default_proxy (get_request ''/'' [] ?h) = Inr q"
    using build_get [OF uri_ok_empty] by blast
  have ok: "canonical_header (rq_header (get_request ''/'' [] ?h))" by code_simp
  have c: "canonical_key ''X-Hop'' = ''X-Hop''" "canonical_key ''x-forwarded-for'' = ''X-Forwarded-For''"
    by code_simp+
  have "header_get ?h ''Connection'' = ''close,x-hop''"
    and "split_on CHR '','' ''close,x-hop'' = [''close'', ''x-hop'']" by code_simp+
  then have nom: "nominated ?h = [''close'', ''x-hop'']" by (simp add: nominated_def trims)
  have keys: "map canonical_key [''close'', ''x-hop''] = [''Close'', ''X-Hop'']" by code_simp
  have "header_values ?h ''x-forwarded-for'' = [''10.0.0.9'']" by code_simp
  note fwd = end_to_end_eval [OF nom keys c(2) this, simplified]
  note hop = end_to_end_eval [OF nom keys c(1) refl, simplified]
  show ?thesis
    using forwarded_request [OF q ok, of "''X-Hop''"] forwarded_request [OF q ok, of "''x-forwarded-for''"]
      q hop fwd demo_ip c
    by (simp add: get_request_def first_value_def Let_def)
qed

section \<open>Values that do not survive, and one that does\<close>

text \<open>
  Only the first \<open>Connection\<close> line is read: a field nominated by a second one is forwarded.  Only the
  first \<open>X-Forwarded-For\<close> line is kept: the addresses of a second one are lost.
\<close>

theorem first_lines_only:
  "(case buildBackendRequest default_proxy
      (get_request ''/'' [] [(''Connection'', [''close'', ''X-Hop'']), (''X-Hop'', [''1'']),
         (''X-Forwarded-For'', [''10.0.0.9'', ''10.0.0.8''])]) of
      Inl e \<Rightarrow> False
    | Inr q \<Rightarrow> header_values (or_header q) ''X-Hop'' = [''1''] \<and>
        header_values (or_header q) ''X-Forwarded-For'' = [''10.0.0.9, 203.0.113.42''])"
proof -
  let ?h = "[(''Connection'', [''close'', ''X-Hop'']), (''X-Hop'', [''1'']),
      (''X-Forwarded-For'', [''10.0.0.9'', ''10.0.0.8''])]"
  have c: "canonical_key ''X-Hop'' = ''X-Hop''" by code_simp
  have "header_get ?h ''Connection'' = ''close''" and "split_on CHR '','' ''close'' = [''close'']"
    by code_simp+
  then have nom: "nominated ?h = [''close'']" by (simp add: nominated_def trims)
  have keys: "map canonical_key [''close''] = [''Close'']" by code_simp
  have "header_values ?h ''X-Forwarded-For'' = [''10.0.0.9'', ''10.0.0.8'']"
    and "header_values ?h ''X-Hop'' = [''1'']" by code_simp+
  note fwd = end_to_end_eval [OF nom keys proxy_keys(2) this(1), simplified]
    and hop = end_to_end_eval [OF nom keys c this(2), simplified]
  have ok: "canonical_header (rq_header (get_request ''/'' [] ?h))" by code_simp
  show ?thesis
    using forwarded_header [OF ok, of "''X-Hop''"] forwarded_header [OF ok, of "''X-Forwarded-For''"]
      hop fwd c demo_ip
    by (simp add: build_get [OF uri_ok_empty]) (simp add: get_request_def first_value_def Let_def)
qed

section \<open>Paths\<close>

lemma trim_right_decomp: "\<exists>n. s = trim_right c s @ replicate n c"
proof -
  have "rev s = takeWhile (\<lambda>b. b = c) (rev s) @ dropWhile (\<lambda>b. b = c) (rev s)" by simp
  moreover have "takeWhile (\<lambda>b. b = c) (rev s) = replicate (length (takeWhile (\<lambda>b. b = c) (rev s))) c"
    by (rule replicate_eqI) (auto dest: set_takeWhileD)
  ultimately have "rev s = replicate (length (takeWhile (\<lambda>b. b = c) (rev s))) c @
      dropWhile (\<lambda>b. b = c) (rev s)" by simp
  then have "rev (rev s) = rev (dropWhile (\<lambda>b. b = c) (rev s)) @
      replicate (length (takeWhile (\<lambda>b. b = c) (rev s))) c"
    by (metis rev_append rev_replicate)
  then show ?thesis by (auto simp: trim_right_def)
qed

lemma trim_left_decomp: "\<exists>m. s = replicate m c @ trim_left c s"
proof -
  have "takeWhile (\<lambda>b. b = c) s = replicate (length (takeWhile (\<lambda>b. b = c) s)) c"
    by (rule replicate_eqI) (auto dest: set_takeWhileD)
  then show ?thesis by (metis takeWhile_dropWhile_id trim_left_def)
qed

text \<open>
  Joining the target's path with the request's leaves exactly one slash at the boundary, however many
  either side has there, and is the request's path for an empty target path.
\<close>

theorem join_path_one_slash:
  "\<exists>b n m t. base = b @ replicate n CHR ''/'' \<and> reqPath = replicate m CHR ''/'' @ t \<and>
     (b = [] \<or> last b \<noteq> CHR ''/'') \<and> (t = [] \<or> hd t \<noteq> CHR ''/'') \<and>
     joinPath base reqPath = (if base = [] \<or> base = ''/'' then reqPath else b @ CHR ''/'' # t)"
proof -
  obtain n where "base = trim_right CHR ''/'' base @ replicate n CHR ''/''"
    using trim_right_decomp by blast
  moreover obtain m where "reqPath = replicate m CHR ''/'' @ trim_left CHR ''/'' reqPath"
    using trim_left_decomp by blast
  ultimately show ?thesis
    using trim_right_last [of "CHR ''/''" base] trim_left_hd [of "CHR ''/''" reqPath]
    by (intro exI [of _ "trim_right CHR ''/'' base"] exI [of _ n] exI [of _ m]
        exI [of _ "trim_left CHR ''/'' reqPath"]) (simp add: joinPath_def)
qed

lemma wire_path_no_query: "CHR ''?'' \<notin> set (wire_path p)"
  using escape_set [of "CHR ''?''" p] by (auto simp: wire_path_def path_byte_def Let_def)

lemma build_uri:
  "buildBackendRequest p r = Inr q \<Longrightarrow>
     or_uri q = wire_target (joinPath (u_path (px_target p)) (rq_path r)) (rq_raw_query r)"
  by (auto simp: buildBackendRequest_def new_request_def Let_def split: if_splits)

lemma wire_target_path: "before CHR ''?'' (wire_target path query) = wire_path path"
  unfolding wire_target_def by (rule before_at) (auto simp: wire_path_no_query)

text \<open>
  C32. The backend decodes exactly the joined path, with a slash in front if it had none, and the query up to
  its first \<open>#\<close>.
\<close>

theorem backend_uri_roundtrip:
  assumes "buildBackendRequest p r = Inr q"
  shows "unescape_path (before CHR ''?'' (or_uri q)) =
      (let path = joinPath (u_path (px_target p)) (rq_path r)
       in Some (if path \<noteq> [] \<and> hd path = CHR ''/'' then path else CHR ''/'' # path)) \<and>
    after CHR ''?'' (or_uri q) = before CHR ''#'' (rq_raw_query r)"
proof -
  define path where "path = joinPath (u_path (px_target p)) (rq_path r)"
  have uri: "or_uri q = wire_target path (rq_raw_query r)"
    using build_uri [OF assms] by (simp add: path_def)
  then have "before CHR ''?'' (or_uri q) = wire_path path" by (simp add: wire_target_path)
  moreover have "after CHR ''?'' (or_uri q) = before CHR ''#'' (rq_raw_query r)"
    unfolding uri wire_target_def using wire_path_no_query [of path]
    by (cases "rq_raw_query r = []") (simp_all add: after_append before_def after_absent del: set_append)
  ultimately show ?thesis by (simp add: unescape_wire path_def Let_def)
qed

theorem backend_uri_roundtrip_witness:
  "\<exists>q. buildBackendRequest default_proxy (get_request ''/a b?'' ''x=1#f'' []) = Inr q \<and>
     unescape_path (before CHR ''?'' (or_uri q)) = Some ''/a b?'' \<and> after CHR ''?'' (or_uri q) = ''x=1''"
proof -
  have "uri_ok ''x=1#f''" by code_simp
  then obtain q where q: "buildBackendRequest default_proxy (get_request ''/a b?'' ''x=1#f'' []) = Inr q"
    using build_get by blast
  show ?thesis
    using backend_uri_roundtrip [OF q] q
    by (simp add: default_proxy_def get_request_def joinPath_def before_def Let_def)
qed

section \<open>Addresses\<close>

text \<open>The address of a host and port, of IPv4 or IPv6, is the host; text without a colon is left alone.\<close>

theorem extract_ip_host:
  assumes "list_all (\<lambda>c. c \<notin> set ''[]'') host" and "list_all (\<lambda>c. c \<notin> set '':[]'') port"
  shows "ExtractIP (JoinHostPort host port) = host \<and> ExtractIP port = port"
proof -
  have "SplitHostPort (JoinHostPort host port) = Some (host, port)"
    using assms by (intro split_join) (auto simp: list_all_iff)
  moreover have "CHR '':'' \<notin> set port" using assms(2) by (auto simp: list_all_iff)
  then have "SplitHostPort port = None" by (simp add: SplitHostPort_def last_index_absent)
  ultimately show ?thesis by (simp add: ExtractIP_def)
qed

theorem extract_ip_host_witness:
  "JoinHostPort ''2001:db8::1'' ''8080'' = ''[2001:db8::1]:8080'' \<and>
   ExtractIP ''[2001:db8::1]:8080'' = ''2001:db8::1''"
proof -
  have "JoinHostPort ''2001:db8::1'' ''8080'' = ''[2001:db8::1]:8080''" by (simp add: JoinHostPort_def)
  then show ?thesis using extract_ip_host [of "''2001:db8::1''" "''8080''"] by simp
qed

end
