(* ===== verification/Mux_Props.thy ===== *)
theory Mux_Props
  imports Serve_Mux Proxy_Props
begin

text \<open>
  What the multiplexers guarantee: a path that reaches the proxy is clean, so no request leaves the
  target's base path; a redirected client ends up at a path that is served; and the one method that
  escapes the cleaning.
\<close>

section \<open>Clean paths\<close>

text \<open>A cleaned path is a slash and its elements, with a slash at the end or not.\<close>

definition render :: "bytes list \<Rightarrow> bool \<Rightarrow> bytes" where
  "render es trailing =
     CHR ''/'' # join_on CHR ''/'' es @ (if trailing \<and> es \<noteq> [] then ''/'' else [])"

lemma render_simps:
  "render es t \<noteq> []" "hd (render es t) = CHR ''/''" "render [] t = ''/''"
  "es \<noteq> [] \<Longrightarrow> render es False @ ''/'' = render es True"
  by (simp_all add: render_def)

lemma path_clean_render: "path_clean p = render (resolve p) False"
  by (simp add: path_clean_def render_def)

lemma join_names_nonempty: "list_all name_elem es \<Longrightarrow> es \<noteq> [] \<Longrightarrow> join_on c es \<noteq> []"
  by (cases es) (auto simp: name_elem_def join_Cons elim: list.set_cases, metis append_is_Nil_conv join_Cons join_on.simps(2))

lemma cleanPath_render: "\<exists>t. cleanPath p = render (resolve p) t"
proof (cases "p = []")
  case True
  then show ?thesis by (simp add: cleanPath_def render_def resolve_def)
next
  case False
  have r: "resolve (if hd p \<noteq> CHR ''/'' then CHR ''/'' # p else p) = resolve p" by (simp add: resolve_slash)
  have "path_clean p' \<noteq> ''/'' \<longleftrightarrow> resolve p' \<noteq> []" for p'
    using join_names_nonempty [OF resolve_names [of p']] by (auto simp: path_clean_def)
  then show ?thesis
    using False r by (auto simp: cleanPath_def Let_def path_clean_render render_def split: if_splits)
qed

lemma split_render:
  assumes "list_all name_elem es"
  shows "split_on CHR ''/'' (render es t) = (if es = [] then [[], []] else [] # es @ (if t then [[]] else []))"
proof -
  have "split_on CHR ''/'' (join_on CHR ''/'' es) = es" if "es \<noteq> []"
    using that assms by (simp add: split_on_join name_no_slash)
  moreover have "split_on CHR ''/'' (join_on CHR ''/'' es @ ''/'') = es @ [[]]" if "es \<noteq> []"
    using calculation [OF that] split_on_at [of "CHR ''/''" "join_on CHR ''/'' es" "[]"] by simp
  ultimately show ?thesis by (auto simp: render_def)
qed

lemma resolve_render: "list_all name_elem es \<Longrightarrow> resolve (render es t) = es"
  unfolding resolve_def by (subst split_render) (auto simp: clean_elems_append clean_elems_names)

lemma no_dotdot_render:
  "list_all name_elem es \<Longrightarrow> dotdot \<notin> set (split_on CHR ''/'' (render es t))"
  by (subst split_render) (auto simp: list_all_iff name_elem_def dotdot_def)

lemma last_render:
  assumes es: "list_all name_elem es" "es \<noteq> []"
  shows "last (render es t) = CHR ''/'' \<longleftrightarrow> t"
proof (cases t)
  case False
  have ne: "join_on CHR ''/'' es \<noteq> []" using es by (simp add: join_names_nonempty)
  have "last (join_on CHR ''/'' es) \<noteq> CHR ''/''"
  proof
    assume "last (join_on CHR ''/'' es) = CHR ''/''"
    then have "join_on CHR ''/'' es = butlast (join_on CHR ''/'' es) @ ''/''"
      using ne by (metis append_butlast_last_id)
    then have "split_on CHR ''/'' (join_on CHR ''/'' es) =
        split_on CHR ''/'' (butlast (join_on CHR ''/'' es)) @ [[]]"
      by (metis split_on.simps(1) split_on_at)
    then have "[] \<in> set es"
      using es by (simp add: split_on_join name_no_slash) (metis in_set_conv_decomp)
    then show False using es by (auto simp: list_all_iff name_elem_def)
  qed
  with False ne show ?thesis by (simp add: render_def)
qed (use es in \<open>simp add: render_def\<close>)

lemma cleanPath_of_render:
  assumes "list_all name_elem es"
  shows "cleanPath (render es t) = render es t"
proof (cases "es = []")
  case True
  have "resolve ''/'' = []" by (simp add: resolve_def)
  then show ?thesis using True by (simp add: render_def cleanPath_def path_clean_def Let_def)
next
  case False
  have "path_clean (render es t) = render es False"
    by (simp add: path_clean_render resolve_render [OF assms])
  moreover have "render es False \<noteq> ''/''"
    using False join_names_nonempty [OF assms] by (simp add: render_def)
  ultimately show ?thesis
    using False last_render [OF assms False, of t]
    by (cases t) (simp_all add: cleanPath_def render_simps Let_def)
qed

lemma cleanPath_idem: "cleanPath (cleanPath p) = cleanPath p"
  using cleanPath_render [of p] by (auto simp: cleanPath_of_render resolve_names)

section \<open>No request leaves the base path\<close>

lemma clean_elems_extend:
  "dotdot \<notin> set es \<Longrightarrow> \<exists>fs. clean_elems acc es = rev acc @ fs"
proof (induction es arbitrary: acc)
  case (Cons e es)
  then show ?case using Cons.IH [of acc] Cons.IH [of "e # acc"] by auto
qed simp

lemma clean_elems_blank: "clean_elems acc (replicate n [] @ es) = clean_elems acc es"
  by (induction n) simp_all

lemma resolve_trim_right: "resolve (trim_right CHR ''/'' p) = resolve p"
proof -
  obtain n where "p = trim_right CHR ''/'' p @ replicate n CHR ''/''" using trim_right_decomp by blast
  moreover have "resolve (q @ replicate n CHR ''/'') = resolve q" for q
  proof (induction n arbitrary: q)
    case (Suc n)
    have "resolve (q @ replicate (Suc n) CHR ''/'') = resolve ((q @ ''/'') @ replicate n CHR ''/'')" by simp
    also have "\<dots> = resolve (q @ ''/'')" by (rule Suc.IH)
    finally show ?case by (simp only: resolve_trailing)
  qed simp
  ultimately show ?thesis by metis
qed

lemma dotdot_trim_left:
  "dotdot \<notin> set (split_on CHR ''/'' p) \<Longrightarrow> dotdot \<notin> set (split_on CHR ''/'' (trim_left CHR ''/'' p))"
proof -
  obtain m where "p = replicate m CHR ''/'' @ trim_left CHR ''/'' p" using trim_left_decomp by blast
  then have "split_on CHR ''/'' p = replicate m [] @ split_on CHR ''/'' (trim_left CHR ''/'' p)"
    by (metis split_on_replicate)
  then show "dotdot \<notin> set (split_on CHR ''/'' p) \<Longrightarrow> ?thesis" by auto
qed

lemma join_path_below:
  assumes "dotdot \<notin> set (split_on CHR ''/'' path)"
  shows "\<exists>fs. resolve (joinPath base path) = resolve base @ fs"
proof (cases "base = [] \<or> base = ''/''")
  case True
  then have "resolve base = []" by (auto simp: resolve_def)
  then show ?thesis by simp
next
  case False
  have "resolve (joinPath base path) =
      clean_elems (rev (resolve base)) (split_on CHR ''/'' (trim_left CHR ''/'' path))"
    using False resolve_append [of "trim_right CHR ''/'' base" "trim_left CHR ''/'' path"]
    by (simp add: joinPath_def resolve_trim_right)
  then show ?thesis
    using clean_elems_extend [OF dotdot_trim_left [OF assms], of "rev (resolve base)"] by simp
qed

lemma served_clean:
  "mux_handler (public_mux h) r = Serve h' \<Longrightarrow> rq_method r \<noteq> ''CONNECT'' \<Longrightarrow>
     h' = h \<and> cleanPath (rq_path r) = rq_path r"
  by (auto simp: mux_handler_def mux_find_def mux_match_def public_mux_def Let_def
      split: if_splits option.splits)

text \<open>
  C26. A request that reaches the proxy stays below the target's base path: whatever a backend makes of dots
  and double slashes in the path it decodes, the elements it resolves to begin with those of the base.
\<close>

theorem path_contained:
  assumes "mux_handler (public_mux h) r = Serve h'" and "rq_method r \<noteq> ''CONNECT''"
    and "buildBackendRequest p r = Inr q"
  shows "\<exists>path. unescape_path (before CHR ''?'' (or_uri q)) = Some path \<and>
    Sublist.prefix (resolve (u_path (px_target p))) (resolve path)"
proof -
  let ?path = "joinPath (u_path (px_target p)) (rq_path r)"
  have "cleanPath (rq_path r) = rq_path r" using served_clean [OF assms(1,2)] by simp
  then have "dotdot \<notin> set (split_on CHR ''/'' (rq_path r))"
    using cleanPath_render [of "rq_path r"] no_dotdot_render [OF resolve_names] by metis
  then obtain fs where "resolve ?path = resolve (u_path (px_target p)) @ fs"
    using join_path_below by blast
  then have "Sublist.prefix (resolve (u_path (px_target p)))
      (resolve (if ?path \<noteq> [] \<and> hd ?path = CHR ''/'' then ?path else CHR ''/'' # ?path))"
    by (simp add: resolve_slash)
  moreover have "unescape_path (before CHR ''?'' (or_uri q)) =
      Some (if ?path \<noteq> [] \<and> hd ?path = CHR ''/'' then ?path else CHR ''/'' # ?path)"
    using build_uri [OF assms(3)] by (simp add: wire_target_path unescape_wire)
  ultimately show ?thesis by blast
qed

definition app_proxy :: proxy where
  "app_proxy = default_proxy\<lparr>px_target := \<lparr>u_scheme = ''http'', u_host = ''localhost:9090'', u_path = ''/app''\<rparr>\<rparr>"

lemma build_some:
  "uri_ok (rq_raw_query r) \<Longrightarrow> list_all token_byte (rq_method r) \<Longrightarrow> \<exists>q. buildBackendRequest p r = Inr q"
  by (simp add: buildBackendRequest_def new_request_def token_byte_def Let_def)

theorem path_contained_witness:
  "\<exists>q path. buildBackendRequest app_proxy (get_request ''/a/.../b/'' [] []) = Inr q \<and>
     unescape_path (before CHR ''?'' (or_uri q)) = Some path \<and> Sublist.prefix [''app''] (resolve path)"
proof -
  let ?r = "get_request ''/a/.../b/'' [] []"
  obtain q where q: "buildBackendRequest app_proxy ?r = Inr q"
    using build_some [of ?r app_proxy] uri_ok_empty by (auto simp: get_request_def token_byte_def)
  have "cleanPath ''/a/.../b/'' = ''/a/.../b/''" by code_simp
  then have served: "mux_handler (public_mux h) ?r = Serve h" for h
    by (simp add: mux_handler_def get_request_def slash_redirect_def mux_find_def mux_match_def
        public_mux_def Let_def)
  have base: "resolve (u_path (px_target app_proxy)) = [''app'']" unfolding app_proxy_def by code_simp
  have "rq_method ?r \<noteq> ''CONNECT''" by (simp add: get_request_def)
  from path_contained [OF served this q] show ?thesis using q base by auto
qed

text \<open>
  The exception: a \<open>CONNECT\<close> request that names a path is not cleaned, so its \<open>..\<close> reaches the backend
  behind the base path and resolves to an element outside it.
\<close>

theorem connect_escapes_base:
  "(let r = (get_request ''/../admin'' [] [])\<lparr>rq_method := ''CONNECT''\<rparr>
    in mux_handler (public_mux h) r = Serve h \<and>
       (case buildBackendRequest app_proxy r of
          Inl e \<Rightarrow> False
        | Inr q \<Rightarrow> unescape_path (before CHR ''?'' (or_uri q)) = Some ''/app/../admin'') \<and>
       resolve ''/app/../admin'' = [''admin''])"
proof -
  let ?r = "(get_request ''/../admin'' [] [])\<lparr>rq_method := ''CONNECT''\<rparr>"
  obtain q where q: "buildBackendRequest app_proxy ?r = Inr q"
    using build_some [of ?r app_proxy] uri_ok_empty by (auto simp: get_request_def token_byte_def)
  have join: "joinPath ''/app'' ''/../admin'' = ''/app/../admin''" by code_simp
  have "unescape_path (before CHR ''?'' (or_uri q)) = Some ''/app/../admin''"
    using build_uri [OF q]
    by (simp add: wire_target_path unescape_wire join get_request_def app_proxy_def)
  moreover have "mux_handler (public_mux h) ?r = Serve h"
    by (simp add: mux_handler_def get_request_def slash_redirect_def mux_find_def mux_match_def public_mux_def)
  moreover have "resolve ''/app/../admin'' = [''admin'']" by code_simp
  ultimately show ?thesis by (simp add: q Let_def)
qed

section \<open>Redirects\<close>

lemma escape_name: "name_elem e \<Longrightarrow> name_elem (escape_path e)"
proof -
  assume e: "name_elem e"
  have "escape_path e = f \<Longrightarrow> unescape_path f = Some e" for f using unescape_escape [of e] by auto
  then have "escape_path e \<noteq> dot" "escape_path e \<noteq> dotdot"
    using e by (auto simp: name_elem_def dot_def dotdot_def)
  moreover have "CHR ''/'' \<notin> set (escape_path e)"
    using e escape_set [of "CHR ''/''" e] by (simp add: name_elem_def)
  ultimately show ?thesis using e by (simp add: name_elem_def)
qed

lemma escape_append: "escape_path (p @ q) = escape_path p @ escape_path q"
  by (simp add: escape_path_def)

lemma escape_slash: "escape_path (CHR ''/'' # p) = CHR ''/'' # escape_path p"
  by (simp add: escape_path_def escape_byte_def path_byte_def)

lemma escape_join: "escape_path (join_on CHR ''/'' es) = join_on CHR ''/'' (map escape_path es)"
proof (induction es)
  case (Cons e es)
  then show ?case
    by (cases es) (simp_all add: escape_append escape_slash)
qed (simp add: escape_path_def)

lemma escape_render: "escape_path (render es t) = render (map escape_path es) t"
  by (simp add: render_def escape_slash escape_append escape_join)

lemma redirect_url_clean:
  assumes "list_all name_elem es"
  shows "redirect_url (url_text (render es t) query) = url_text (render es t) query"
proof -
  let ?p = "escape_path (render es t)" and ?fs = "map escape_path es"
  have fs: "list_all name_elem ?fs" using assms escape_name by (auto simp: list_all_iff)
  have p: "?p = render ?fs t" by (rule escape_render)
  have no: "CHR ''?'' \<notin> set ?p" using escape_set [of "CHR ''?''"] by (simp add: path_byte_def)
  then have cut: "before CHR ''?'' (url_text (render es t) query) = ?p"
    "url_text (render es t) query = ?p @ dropWhile (\<lambda>c. c \<noteq> CHR ''?'') (url_text (render es t) query)"
    by (auto simp: url_text_def before_at dropWhile_append)
  have np: "path_clean ?p = render ?fs False" by (simp add: p path_clean_render resolve_render [OF fs])
  have np': "(if ?p \<noteq> [] \<and> last ?p = CHR ''/'' \<and> last (render ?fs False) \<noteq> CHR ''/''
      then render ?fs False @ ''/'' else render ?fs False) = ?p"
    unfolding p using last_render [OF fs, of t] last_render [OF fs, of False]
    by (cases "es = []"; cases t) (simp_all add: render_simps)
  let ?T = "url_text (render es t) query"
  have "(let path = before CHR ''?'' ?T; query = dropWhile (\<lambda>c. c \<noteq> CHR ''?'') ?T; np = path_clean path;
        np' = (if path \<noteq> [] \<and> last path = CHR ''/'' \<and> last np \<noteq> CHR ''/'' then np @ ''/'' else np)
      in np' @ query) = ?T"
    unfolding Let_def cut(1) np np' by (rule cut(2) [symmetric])
  then show ?thesis by (simp only: redirect_url_def if_cancel split: option.split) simp
qed

text \<open>
  A redirect is good: its location decodes to the cleaned path, with the query as it was, and a client
  that follows it is served, not redirected again.
\<close>

theorem redirect_once:
  assumes "mux_handler (public_mux h) r = MovedTo target"
  shows "redirect_url target = target \<and>
    unescape_path (before CHR ''?'' target) = Some (cleanPath (rq_path r)) \<and>
    after CHR ''?'' target = rq_raw_query r \<and>
    mux_handler (public_mux h) (r\<lparr>rq_path := cleanPath (rq_path r)\<rparr>) = Serve h"
proof -
  have slash: "\<not> slash_redirect (public_mux h) path" for path
    by (auto simp: slash_redirect_def public_mux_def)
  obtain t where t: "cleanPath (rq_path r) = render (resolve (rq_path r)) t"
    using cleanPath_render by blast
  have target: "target = url_text (cleanPath (rq_path r)) (rq_raw_query r)"
    and meth: "rq_method r \<noteq> ''CONNECT''"
    using assms slash
    by (auto simp: mux_handler_def mux_find_def Let_def split: if_splits option.splits)
  have no: "CHR ''?'' \<notin> set (escape_path (cleanPath (rq_path r)))"
    using escape_set [of "CHR ''?''"] by (simp add: path_byte_def)
  then have "before CHR ''?'' target = escape_path (cleanPath (rq_path r))"
    by (auto simp: target url_text_def before_at)
  moreover have "after CHR ''?'' target = rq_raw_query r"
    using no by (cases "rq_raw_query r") (simp_all add: target url_text_def after_append)
  moreover have "redirect_url target = target"
    by (simp add: target t redirect_url_clean resolve_names)
  moreover have "hd (cleanPath (rq_path r)) = CHR ''/''" "cleanPath (rq_path r) \<noteq> []"
    by (simp_all add: t render_def)
  then have "cleanPath (rq_path r) \<noteq> ''*''" "take 1 (cleanPath (rq_path r)) = ''/''"
    by (auto simp: hd_conv_nth) (cases "cleanPath (rq_path r)"; simp)
  then have "mux_handler (public_mux h) (r\<lparr>rq_path := cleanPath (rq_path r)\<rparr>) = Serve h"
    using meth slash
    by (auto simp: mux_handler_def cleanPath_idem mux_find_def mux_match_def public_mux_def Let_def)
  ultimately show ?thesis by (simp add: unescape_escape)
qed

theorem redirect_once_witness:
  "\<exists>target. mux_handler (public_mux (\<lambda>r w st. (w, st))) (get_request ''//a/../b c'' ''x=1'' []) = MovedTo target \<and>
     unescape_path (before CHR ''?'' target) = Some ''/b c''"
proof -
  have clean: "cleanPath ''//a/../b c'' = ''/b c''" by code_simp
  then obtain target
    where "mux_handler (public_mux (\<lambda>r w st. (w, st))) (get_request ''//a/../b c'' ''x=1'' []) = MovedTo target"
    by (simp add: mux_handler_def get_request_def slash_redirect_def public_mux_def Let_def)
  from redirect_once [OF this] this clean show ?thesis by (simp add: get_request_def)
qed

end
