(* ===== verification/Limiter_Edges.thy ===== *)
theory Limiter_Edges
  imports Token_Budget
begin

text \<open>
  The rate limiter at its edges: isolation of the IPs, the exact size of a burst, the parameters the
  configuration admits for which the limiter limits nothing or everything, and what the sweep of
  idle buckets changes for the next caller.
\<close>

section \<open>Isolation\<close>

lemma answers_filter:
  "answers_to fused ip (filter (\<lambda>c. snd c = ip) cs) l =
     fst (allow_all fused (filter (\<lambda>c. snd c = ip) cs) l)"
proof (induction cs arbitrary: l)
  case (Cons c cs)
  obtain t ip' where c: "c = (t, ip')" by (cases c)
  show ?case
    by (cases "ip' = ip") (simp_all add: c answers_to_Cons Cons.IH split: prod.splits)
qed simp

text \<open>An IP's answers are its own affair: in a run of a new limiter in which many IPs' calls are
  interleaved, one IP is answered exactly as if the calls of all others had not happened, whatever
  shard they fall into.\<close>

theorem allow_isolated:
  "answers_to fused ip cs (new_limiter R n) =
     fst (allow_all fused (filter (\<lambda>c. snd c = ip) cs) (new_limiter R n))"
  using kl.isolation [of "new_limiter R n" "new_limiter R n" ip fused cs]
  by (simp add: kl_answers limiter_ok_new answers_filter)

section \<open>The size of a burst\<close>

lemma Allow_bucket:
  assumes "limiter_ok l" and "view l ip = Some b"
  shows "fst (Allow fused t ip l) =
      fst (consume_bucket fused (ratePerNano l) (burstSize l) (snd t) b)"
    and "view (snd (Allow fused t ip l)) ip =
      Some (snd (consume_bucket fused (ratePerNano l) (burstSize l) (snd t) b))"
  using assms by (simp_all add: Allow_result Allow_view bucket_step_def)

lemma refill_still: "lastRefillNano b = now \<Longrightarrow> refill fused r B now b = b"
  by (simp add: refill_def Let_def)

lemma consume_still:
  assumes "tokens b = Fin (of_nat k)" and "lastRefillNano b = t" and "k \<le> 2 ^ 53"
  shows "fst (consume_bucket fused r B t b) \<longleftrightarrow> 0 < k"
    and "tokens (snd (consume_bucket fused r B t b)) = Fin (of_nat (k - 1))"
    and "lastRefillNano (snd (consume_bucket fused r B t b)) = t"
proof -
  have k: "(of_nat k :: rat) \<le> 2 ^ 53"
    using assms(3) of_nat_le_iff [of k "2 ^ 53", where 'a = rat] by simp
  have "representable (of_nat (k - 1))"
    using representable_int [of "int (k - 1)"] assms(3) by (simp add: of_nat_diff)
  moreover have "\<bar>of_nat (k - 1)\<bar> < f64_limit"
    using k f64_limit_big by (cases k) simp_all
  ultimately have pred: "f64_of_rat (of_nat (k - 1)) = Fin (of_nat (k - 1))"
    by (rule f64_of_rat_rep)
  have "(1 :: rat) \<le> of_nat k \<longleftrightarrow> 0 < k"
    using of_nat_le_iff [of 1 k, where 'a = rat] by (simp add: Suc_le_eq)
  then show "fst (consume_bucket fused r B t b) \<longleftrightarrow> 0 < k"
    and "tokens (snd (consume_bucket fused r B t b)) = Fin (of_nat (k - 1))"
    and "lastRefillNano (snd (consume_bucket fused r B t b)) = t"
    using assms pred
    by (auto simp: consume_bucket_def take_token_def refill_still Let_def f64_ops of_nat_diff
        split: if_splits)
qed

lemma burst_from_bucket:
  assumes "limiter_ok l" and "view l ip = Some b" and "tokens b = Fin (of_nat k)"
    and "lastRefillNano b = snd t" and "k \<le> 2 ^ 53"
  shows "answers_to fused ip (replicate m (t, ip)) l =
    replicate (min m k) True @ replicate (m - k) False"
  using assms
proof (induction m arbitrary: l b k)
  case (Suc m)
  let ?l = "snd (Allow fused t ip l)"
  let ?b = "snd (consume_bucket fused (ratePerNano l) (burstSize l) (snd t) b)"
  note st = consume_still [OF Suc.prems(3-5), of fused "ratePerNano l" "burstSize l"]
  have "answers_to fused ip (replicate m (t, ip)) ?l =
      replicate (min m (k - 1)) True @ replicate (m - (k - 1)) False"
    using Suc.prems st
    by (intro Suc.IH [of ?l ?b]) (simp_all add: Allow_ok Allow_bucket(2))
  then show ?case
    using Allow_bucket(1) [OF Suc.prems(1,2), of fused t] st(1)
    by (cases k) (simp_all add: answers_to_Cons)
qed simp

lemma burst_answers:
  assumes "limiter_ok l" and "view l ip = None" and "burstSize l = f64_of_int (int n)"
    and "1 \<le> n" and "n \<le> 2 ^ 53"
  shows "answers_to fused ip (replicate m ((t, t), ip)) l =
    replicate (min m n) True @ replicate (m - n) False"
proof (cases m)
  case (Suc m')
  let ?l = "snd (Allow fused (t, t) ip l)"
  let ?b = "fresh_bucket (Fin (of_nat n)) t"
  have B: "burstSize l = Fin (of_nat n)"
    using burst_exact_float(1) [of "int n"] assms(3-) by simp
  have b: "tokens ?b = Fin (of_nat n)" "lastRefillNano ?b = t" by (simp_all add: fresh_bucket_def)
  note st = consume_still [OF b assms(5), of fused "ratePerNano l" "burstSize l"]
  have "fst (Allow fused (t, t) ip l)" and "view ?l ip =
      Some (snd (consume_bucket fused (ratePerNano l) (burstSize l) t ?b))"
    using assms st(1) by (simp_all add: Allow_result Allow_view bucket_step_def B)
  moreover from this(2) have "answers_to fused ip (replicate m' ((t, t), ip)) ?l =
      replicate (min m' (n - 1)) True @ replicate (m' - (n - 1)) False"
    using assms st by (intro burst_from_bucket) (simp_all add: Allow_ok)
  ultimately show ?thesis using assms(4) Suc by (cases n) (simp_all add: answers_to_Cons)
qed simp

text \<open>C37. The burst is exact: an IP the limiter does not know, calling \<open>m\<close> times at one instant, is
  granted exactly its first \<open>n\<close> requests, \<open>n\<close> being the configured burst (up to \<open>2\<^sup>5\<^sup>3\<close>), and denied all
  later ones, at any refill rate.\<close>

theorem burst_exact:
  assumes "limiter_ok l" and "view l ip = None" and "burstSize l = f64_of_int (int n)"
    and "1 \<le> n" and "n \<le> 2 ^ 53"
  shows "answers_to fused ip (replicate m ((t, t), ip)) l =
    replicate (min m n) True @ replicate (m - n) False"
  using assms by (rule burst_answers)

theorem burst_exact_witness:
  "answers_to True ''::1'' (replicate 3 ((7, 7), ''::1'')) (new_limiter NaN 2) = replicate 2 True @ [False]"
  using burst_exact [of "new_limiter NaN 2" "''::1''" 2 True 3 7]
  by (simp add: limiter_ok_new)

section \<open>Parameters that switch the limiter off\<close>

lemma rnd_pred_big:
  assumes B: "representable B" and big: "2 ^ 55 \<le> B"
  shows "rnd (B - 1) = B"
proof -
  let ?q = "quantum_exp (B - 1)"
  have pos: "0 < B - 1" using big by simp
  have "ilog2 (2 ^ 54) = 54" by (rule ilog2_unique) simp_all
  then have "54 \<le> ilog2 (B - 1)" using ilog2_mono [of "2 ^ 54" "B - 1"] big by simp
  then have q2: "2 \<le> ?q" using pos by (simp add: quantum_exp_def)
  obtain m k where m: "B = of_int m * 2 powi k" and "\<bar>B\<bar> < 2 powi (k + 53)" and k: "quantum_exp B \<le> k"
    using representable_quantum [OF B] big by auto
  have "?q \<le> k" using quantum_exp_mono [OF pos, of B] k by simp
  then obtain n where n: "B = of_int n * quantum (B - 1)" using m pow2_multiple [of "B - 1" k m] by auto
  define a where "a = round_half_even ((B - 1) / quantum (B - 1))"
  have a: "rnd (B - 1) = of_int a * quantum (B - 1)" using pos by (simp add: rnd_def a_def)
  have "(2 :: rat) powi 2 \<le> quantum (B - 1)" unfolding quantum_def by (rule iffD2 [OF pow2_mono q2])
  then have q: "4 \<le> quantum (B - 1)" by simp
  have "\<bar>rnd (B - 1) - B\<bar> \<le> quantum (B - 1) / 2 + 1" using rnd_error [of "B - 1"] by linarith
  also have "\<dots> < quantum (B - 1)" using q by simp
  finally have "\<bar>of_int (a - n) * quantum (B - 1)\<bar> < quantum (B - 1)"
    unfolding a using n by (simp add: left_diff_distrib)
  then have "\<bar>of_int (a - n)\<bar> * quantum (B - 1) < 1 * quantum (B - 1)"
    using q by (simp add: abs_mult)
  then have "\<bar>of_int (a - n) :: rat\<bar> < 1" by (rule mult_right_less_imp_less) (use q in simp)
  then have "a = n" by linarith
  then show ?thesis using a n by simp
qed

lemma never_drains:
  assumes b: "tokens b = Fin B" and r: "0 \<le> r" and B: "representable B" "2 ^ 55 \<le> B" "B < f64_limit"
  shows "fst (consume_bucket fused (Fin r) (Fin B) now b)"
    and "tokens (snd (consume_bucket fused (Fin r) (Fin B) now b)) = Fin B"
proof -
  have "level_ok B b" using b B by (simp add: level_ok_def level_def)
  from refill_level(1,2) [OF this r B(1) _ B(3), of fused now]
  have lv: "level_ok B (refill fused (Fin r) (Fin B) now b)"
    "level b \<le> level (refill fused (Fin r) (Fin B) now b)" using B by simp_all
  then have "tokens (refill fused (Fin r) (Fin B) now b) = Fin B"
    using b by (auto simp: level_ok_def level_def [of b])
  moreover have "f64_of_rat (B - 1) = Fin B"
    using rnd_pred_big [OF B(1,2)] B by (simp add: f64_of_rat_def f64_limit_def Let_def)
  ultimately show "fst (consume_bucket fused (Fin r) (Fin B) now b)"
    and "tokens (snd (consume_bucket fused (Fin r) (Fin B) now b)) = Fin B"
    using B by (simp_all add: consume_bucket_def take_token_def Let_def f64_ops)
qed

lemma never_denied:
  assumes "limiter_ok l" and "ratePerNano l = Fin r" "0 \<le> r" and "burstSize l = Fin B"
    and "representable B" "2 ^ 55 \<le> B" "B < f64_limit"
    and "pred_option (\<lambda>b. tokens b = Fin B) (view l ip)"
  shows "list_all id (answers_to fused ip cs l)"
  using assms
proof (induction cs arbitrary: l)
  case (Cons c cs)
  obtain t ip' where c: "c = (t, ip')" by (cases c)
  let ?l = "snd (Allow fused t ip' l)"
  define b where "b = (case view l ip of None \<Rightarrow> fresh_bucket (Fin B) (fst t) | Some b \<Rightarrow> b)"
  have "tokens b = Fin B"
    using Cons.prems(8) by (auto simp: b_def fresh_bucket_def split: option.splits)
  note nd = never_drains [OF this Cons.prems(3,5-7), of fused "snd t"]
  have step: "bucket_step fused l t (view l ip) = consume_bucket fused (Fin r) (Fin B) (snd t) b"
    using Cons.prems by (simp add: bucket_step_def b_def cong: option.case_cong)
  have "pred_option (\<lambda>b. tokens b = Fin B) (view ?l ip)"
    using Cons.prems nd step by (cases "ip' = ip") (simp_all add: Allow_view)
  then have "list_all id (answers_to fused ip cs ?l)"
    using Cons.prems by (intro Cons.IH) (simp_all add: Allow_ok Allow_params)
  then show ?case
    using Cons.prems nd step by (cases "ip' = ip") (simp_all add: c answers_to_Cons Allow_result id_def)
qed simp

text \<open>A burst from \<open>2\<^sup>5\<^sup>5\<close> on, which the configuration admits, switches the limiter off: the float
  subtraction \<open>tokens - 1\<close> rounds back to \<open>tokens\<close>, and no request of any run is ever denied.\<close>

theorem huge_burst_never_denies:
  assumes r: "f64_div_const R 1000000000 = Fin r" "0 \<le> r" and n: "2 ^ 55 \<le> n" "n < 2 ^ 63"
  shows "list_all id (answers_to fused ip cs (new_limiter R n))"
proof (rule never_denied)
  have n': "(2 ^ 55 :: rat) \<le> of_int n" "of_int n < (2 ^ 63 :: rat)"
    using n of_int_le_iff [of "2 ^ 55" n, where 'a = rat] of_int_less_iff [of n "2 ^ 63", where 'a = rat]
    by simp_all
  then show "2 ^ 55 \<le> rnd (of_int n)" using representable_pow2 [of 55] by (intro le_rnd_rep) simp_all
  have "rnd (of_int n) \<le> 2 ^ 63" using n' representable_pow2 [of 63] by (intro rnd_le_rep) simp_all
  then show "rnd (of_int n) < f64_limit" using f64_limit_big by simp
  show "burstSize (new_limiter R n) = Fin (rnd (of_int n))" using n by (simp add: f64_of_int_Fin)
qed (use r in \<open>simp_all add: limiter_ok_new representable_rnd\<close>)

theorem huge_burst_never_denies_witness:
  "list_all id (answers_to False ''10.0.0.1'' [((0, 0), ''10.0.0.1''), ((0, 9), ''10.0.0.1'')]
     (new_limiter (Fin (1953125 / 2 ^ 21)) (2 ^ 60)))"
  by (rule huge_burst_never_denies [OF rate_witness]) simp_all

lemma nan_consume:
  assumes "tokens b = NaN \<or> 0 < sint (now - lastRefillNano b)"
  shows "\<not> fst (consume_bucket fused NaN B now b)"
    and "tokens (snd (consume_bucket fused NaN B now b)) = NaN"
proof -
  have sum: "refill_sum fused t e NaN = NaN" for t e
    by (cases t; cases e) (simp_all add: refill_sum_def f64_ops)
  have "tokens (refill fused NaN B now b) = NaN"
    using assms by (cases B) (auto simp: refill_def Let_def sum f64_ops)
  then show "\<not> fst (consume_bucket fused NaN B now b)"
    and "tokens (snd (consume_bucket fused NaN B now b)) = NaN"
    by (simp_all add: consume_bucket_def take_token_def Let_def f64_ops)
qed

lemma nan_denied:
  assumes "limiter_ok l" and "ratePerNano l = NaN" and "view l ip = Some b" and "tokens b = NaN"
  shows "list_all Not (answers_to fused ip cs l)"
  using assms
proof (induction cs arbitrary: l b)
  case (Cons c cs)
  obtain t ip' where c: "c = (t, ip')" by (cases c)
  let ?l = "snd (Allow fused t ip' l)"
  have nan: "tokens b = NaN \<or> 0 < sint (snd t - lastRefillNano b)" using Cons.prems by simp
  note nc = nan_consume [OF nan, of fused "burstSize l"]
  have "\<exists>b'. view ?l ip = Some b' \<and> tokens b' = NaN"
    using Cons.prems nc by (cases "ip' = ip") (simp_all add: Allow_view bucket_step_def)
  then have "list_all Not (answers_to fused ip cs ?l)"
    using Cons.prems by (auto intro!: Cons.IH simp: Allow_ok Allow_params)
  then show ?case
    using Cons.prems nc by (cases "ip' = ip") (simp_all add: c answers_to_Cons Allow_bucket(1))
qed simp

text \<open>A rate that is not a number, which the configuration lets through, locks every IP out: once
  the clock has moved past an IP's first request, all its later requests are denied for ever.\<close>

theorem nan_rate_locks_out:
  assumes "0 < sint (t2 - t1)"
  shows "list_all Not (tl (answers_to fused ip (((t1, t1), ip) # ((t, t2), ip) # cs) (new_limiter NaN n)))"
proof -
  let ?l = "snd (Allow fused (t1, t1) ip (new_limiter NaN n))"
  have ok: "limiter_ok ?l" "ratePerNano ?l = NaN"
    by (simp_all add: Allow_ok limiter_ok_new Allow_params)
  define b where "b = snd (consume_bucket fused NaN (f64_of_int n) t1 (fresh_bucket (f64_of_int n) t1))"
  have v: "view ?l ip = Some b"
    by (simp add: Allow_view limiter_ok_new bucket_step_def b_def)
  have last: "lastRefillNano b = t1"
    by (simp add: b_def consume_bucket_def take_token_def refill_still fresh_bucket_def Let_def)
  have nan: "tokens b = NaN \<or> 0 < sint (snd (t, t2) - lastRefillNano b)" using assms last by simp
  note nc = nan_consume [OF nan, of fused "burstSize ?l"]
  have "list_all Not (answers_to fused ip cs (snd (Allow fused (t, t2) ip ?l)))"
    using ok nc Allow_bucket(2) [OF ok(1) v, of fused "(t, t2)"]
    by (intro nan_denied) (simp_all add: Allow_ok Allow_params)
  moreover have "\<not> fst (Allow fused (t, t2) ip ?l)"
    using ok nc Allow_bucket(1) [OF ok(1) v, of fused "(t, t2)"] by simp
  ultimately show ?thesis by (simp add: answers_to_Cons)
qed

theorem nan_rate_locks_out_witness:
  "list_all Not (tl (answers_to True ''1.2.3.4''
     (((0, 0), ''1.2.3.4'') # ((0, 9), ''1.2.3.4'') # [((0, 10), ''1.2.3.4'')]) (new_limiter NaN 200)))"
  by (rule nan_rate_locks_out) simp

section \<open>The sweep\<close>

text \<open>C28. The sweep evicts exactly the buckets not seen since \<open>bucketIdleTimeout\<close> before its start,
  leaves all others as they are, and keeps the limiter's invariant: every key in its own shard, once,
  and no two keys on one bucket.\<close>

theorem runGC_exact:
  assumes "limiter_ok l"
  shows "limiter_ok (fst (runGC now l)) \<and>
    view (fst (runGC now l)) ip =
      (case view l ip of None \<Rightarrow> None
       | Some b \<Rightarrow>
           if sint (lastSeenNano b) < sint (now - bucketIdleTimeout) then None else Some b)"
  using assms by (simp add: runGC_ok view_def lookup_runGC idle_def split: option.split)

text \<open>A limiter after one call, for the witnesses: a burst of two, one token left.\<close>

definition called_once :: "rat \<Rightarrow> limiter" where
  "called_once R = snd (Allow False (0, 0) ''1.2.3.4'' (new_limiter (Fin R) 2))"

lemma called_once_ok: "limiter_ok (called_once R)"
  by (simp add: called_once_def Allow_ok limiter_ok_new)

lemma called_once_view:
  "view (called_once R) ''1.2.3.4'' = Some \<lparr>tokens = Fin 1, lastRefillNano = 0, lastSeenNano = 0\<rparr>"
proof -
  have "f64_of_rat 1 = Fin 1" using f64_of_rat_rep [of 1] representable_int [of 1] f64_limit_big by simp
  moreover have "f64_of_int 2 = Fin 2" using burst_exact_float(1) [of 2] by simp
  ultimately show ?thesis
    by (simp add: called_once_def Allow_view limiter_ok_new bucket_step_def consume_bucket_def
        refill_still fresh_bucket_def take_token_def Let_def f64_ops)
qed

lemma called_once_burst: "burstSize (called_once R) = f64_of_int (int 2)"
  by (simp add: called_once_def Allow_params)

theorem runGC_exact_witness:
  "view (fst (runGC 300000000001 (called_once 1))) ''1.2.3.4'' = None \<and>
   view (fst (runGC 300000000000 (called_once 1))) ''1.2.3.4'' \<noteq> None"
  using runGC_exact [OF called_once_ok [of 1], of 300000000001 "''1.2.3.4''"]
    runGC_exact [OF called_once_ok [of 1], of 300000000000 "''1.2.3.4''"]
  by (simp add: called_once_view bucketIdleTimeout_def)

lemma sum_filter_split:
  "sum_list (map (\<lambda>s. length (filter P s)) ss) + sum_list (map (\<lambda>s. length (filter (\<lambda>x. \<not> P x) s)) ss) =
     sum_list (map length ss)"
proof (induction ss)
  case (Cons s ss)
  then show ?case using sum_length_filter_compl [of P s] by simp
qed simp

text \<open>The statistics after a sweep: the buckets still tracked and those it reports as evicted are
  together the ones tracked before.\<close>

theorem runGC_count:
  assumes "limiter_ok l"
  shows "TrackedIPs (limiter_Stats oor (fst (runGC now l))) + snd (runGC now l) =
    TrackedIPs (limiter_Stats oor l)"
proof -
  have "(\<lambda>(ip, b). \<not> idle c l b) = (\<lambda>x. \<not> (case x of (ip, b) \<Rightarrow> idle c l b))" for c
    by (simp add: fun_eq_iff)
  note eq = this [of "now - bucketIdleTimeout"]
  show ?thesis
    using sum_filter_split [of "\<lambda>(ip, b). idle (now - bucketIdleTimeout) l b" "shards l"]
    by (simp add: TrackedIPs_sum runGC_eq assms o_def eq add.commute)
qed

theorem runGC_count_witness:
  "TrackedIPs (limiter_Stats (\<lambda>x. 0) (fst (runGC 300000000001 (called_once 1)))) +
     snd (runGC 300000000001 (called_once 1)) = TrackedIPs (limiter_Stats (\<lambda>x. 0) (called_once 1))"
  by (rule runGC_count [OF called_once_ok])

lemma evicted:
  assumes "limiter_ok l" and "view l ip = Some b"
    and "sint (lastSeenNano b) < sint (now - bucketIdleTimeout)"
  shows "view (fst (runGC now l)) ip = None"
  using assms by (auto simp: view_def lookup_runGC idle_def)

lemma runGC_params:
  "limiter_ok l \<Longrightarrow> ratePerNano (fst (runGC now l)) = ratePerNano l"
  "limiter_ok l \<Longrightarrow> burstSize (fst (runGC now l)) = burstSize l"
  by (simp_all add: runGC_eq)

text \<open>C38. When forgetting is harmless: if the refill since an evicted bucket's last use would have
  filled it, the IP's next request gets the same answer and leaves the same bucket as without the
  sweep.\<close>

theorem eviction_unnoticed:
  assumes ok: "limiter_ok l" and l: "ratePerNano l = Fin r" "burstSize l = Fin B"
    and r: "0 \<le> r" and B: "representable B" "1 \<le> B" "B \<le> 2 ^ 53"
    and b: "view l ip = Some b" "level_ok B b"
    and idle: "sint (lastSeenNano b) < sint (now - bucketIdleTimeout)"
    and t: "0 \<le> sint (t2 - t1)" "0 < sint (t2 - lastRefillNano b)"
    and full: "Fin B \<le> refill_sum fused (tokens b) (f64_of_int (sint (t2 - lastRefillNano b))) (Fin r)"
  shows "fst (Allow fused (t1, t2) ip (fst (runGC now l))) = fst (Allow fused (t1, t2) ip l) \<and>
    view (snd (Allow fused (t1, t2) ip (fst (runGC now l)))) ip = view (snd (Allow fused (t1, t2) ip l)) ip"
proof -
  let ?f = "fresh_bucket (Fin B) t1"
  have gc: "view (fst (runGC now l)) ip = None" "limiter_ok (fst (runGC now l))"
    using evicted [OF ok b(1) idle] runGC_ok [OF ok] by simp_all
  note par = runGC_params [OF ok, of now, unfolded l]
  have lim: "B < f64_limit" using B f64_limit_big by simp
  have fresh: "level_ok B ?f" using B by (simp add: level_ok_fresh)
  have "refill fused (Fin r) (Fin B) t2 b = b\<lparr>tokens := Fin B, lastRefillNano := t2\<rparr>"
    using t(2) full b(2) by (auto simp: refill_def Let_def f64_ops level_ok_def
        intro: bucket.equality elim!: f64_le.elims f64_lt.elims)
  moreover have "tokens (refill fused (Fin r) (Fin B) t2 ?f) = Fin B"
    using refill_level(1,2) [OF fresh r B(1,2) lim, of fused t2] by (auto simp: level_ok_def)
  moreover have "lastRefillNano (refill fused (Fin r) (Fin B) t2 ?f) = t2"
  proof (cases "t2 = t1")
    case False
    then have "sint (t2 - t1) \<noteq> 0" by (metis eq_iff_diff_eq_0 signed_eq_0_iff)
    with t(1) show ?thesis by (simp add: refill_def Let_def fresh_bucket_def)
  qed (simp add: refill_def Let_def fresh_bucket_def)
  ultimately show ?thesis
    using ok b l by (simp add: Allow_result Allow_view gc par bucket_step_def consume_bucket_def
        take_token_def Let_def)
qed

lemma tick_rate: "f64_div_const (Fin (10 ^ 9 / 2 ^ n)) 1000000000 = Fin (1 / 2 ^ n)" if "n \<le> 100"
proof -
  have "representable (1 / 2 ^ n)"
    using representable_pow2 [of "- int n"] that by (simp add: power_int_minus field_simps)
  moreover have "(1 :: rat) / 2 ^ n \<le> 1" by simp
  then have "\<bar>1 / 2 ^ n\<bar> < f64_limit" using f64_limit_big by (simp del: divide_le_eq_1_pos)
  ultimately show ?thesis
    using f64_of_rat_rep [of "1 / 2 ^ n"] by simp
qed

theorem eviction_unnoticed_witness:
  "fst (Allow False (400000000000, 400000000000) ''1.2.3.4'' (fst (runGC 300000000001 (called_once (1953125 / 2 ^ 21))))) =
     fst (Allow False (400000000000, 400000000000) ''1.2.3.4'' (called_once (1953125 / 2 ^ 21))) \<and>
   view (snd (Allow False (400000000000, 400000000000) ''1.2.3.4''
     (fst (runGC 300000000001 (called_once (1953125 / 2 ^ 21)))))) ''1.2.3.4'' =
   view (snd (Allow False (400000000000, 400000000000) ''1.2.3.4'' (called_once (1953125 / 2 ^ 21)))) ''1.2.3.4''"
proof (rule eviction_unnoticed [OF called_once_ok _ _ _ _ _ _ called_once_view])
  show "ratePerNano (called_once (1953125 / 2 ^ 21)) = Fin (1 / 2 ^ 30)"
    using rate_witness by (simp add: called_once_def Allow_params)
  show "burstSize (called_once (1953125 / 2 ^ 21)) = Fin 2"
    using burst_exact_float(1) [of 2] by (simp add: called_once_burst)
  show "representable (2 :: rat)" using representable_int [of 2] by simp
  show "level_ok 2 \<lparr>tokens = Fin 1, lastRefillNano = 0, lastSeenNano = 0\<rparr>"
    using representable_int [of 1] by (simp add: level_ok_def level_def)
  have "refill_sum False (Fin 1) (f64_of_int 400000000000) (Fin (1 / 2 ^ 30)) =
      (if f64_limit \<le> rsum False 1 400000000000 (1 / 2 ^ 30) then PInf
       else Fin (rsum False 1 400000000000 (1 / 2 ^ 30)))"
    using refill_sum_level [of 1 400000000000 "1 / 2 ^ 30" False]
      burst_exact_float(1) [of 400000000000] by simp
  moreover have "1 \<le> rnd (400000000000 / 2 ^ 30)"
    using representable_int [of 1] by (intro le_rnd_rep) simp_all
  then have "2 \<le> rsum False 1 400000000000 (1 / 2 ^ 30)"
    using representable_int [of 2] by (simp add: rsum_def le_rnd_rep)
  ultimately show "Fin 2 \<le> refill_sum False (tokens \<lparr>tokens = Fin 1, lastRefillNano = 0, lastSeenNano = 0\<rparr>)
      (f64_of_int (sint ((400000000000 :: int64) -
         lastRefillNano \<lparr>tokens = Fin 1, lastRefillNano = 0, lastSeenNano = 0\<rparr>)))
      (Fin (1 / 2 ^ 30))"
    by (simp add: f64_ops)
qed (simp_all add: bucketIdleTimeout_def)

text \<open>When it is not: an idle bucket that would not have refilled to the burst is replaced by a full
  one.  If \<open>m\<close> requests (at most the burst) are more than the old bucket would hold by now, the sweep
  makes the limiter grant all of them, where without it at least one is denied.\<close>

theorem eviction_forgets:
  assumes ok: "limiter_ok l" and l: "ratePerNano l = Fin r" "burstSize l = f64_of_int (int n)"
    and r: "0 \<le> r" and n: "1 \<le> n" "n \<le> 2 ^ 53" and m: "m \<le> n"
    and b: "view l ip = Some b" "level_ok (of_nat n) b"
    and idle: "sint (lastSeenNano b) < sint (now - bucketIdleTimeout)"
    and t: "0 \<le> sint (lastRefillNano b)" "sint (lastRefillNano b) \<le> sint t"
    and short: "level b + r * (1 + 1 / 2 ^ 51) * of_int (sint t - sint (lastRefillNano b)) +
        of_nat m * (of_nat n / 2 ^ 52) < of_nat m"
  shows "granted fused ip (replicate m ((t, t), ip)) (fst (runGC now l)) = m \<and>
    granted fused ip (replicate m ((t, t), ip)) l < m"
proof
  show "granted fused ip (replicate m ((t, t), ip)) (fst (runGC now l)) = m"
    using burst_answers [OF runGC_ok [OF ok] evicted [OF ok b(1) idle], of n fused m t] m n l
    by (simp add: granted_def runGC_params [OF ok])
  let ?B = "of_nat n :: rat" and ?T = "sint t" and ?cs = "replicate m ((t, t), ip)"
  have B: "f64_of_int (int n) = Fin ?B" "representable ?B"
    using burst_exact_float [of "int n"] n by simp_all
  have n': "1 \<le> ?B" "?B \<le> 2 ^ 53"
    using n of_nat_le_iff [of 1 n, where 'a = rat] of_nat_le_iff [of n "2 ^ 53", where 'a = rat] by simp_all
  have win: "in_window ?B ?T (view l ip)" using b t by (simp add: in_window_def)
  have time: "in_time 0 ?T ip ?cs" using t by (simp add: in_time_def list_all_iff)
  have T0: "(0 :: int) \<le> 0" by simp
  note acc = run_account [OF ok l(1) _ r B(2) n' T0 time win, of fused, unfolded l B, OF refl]
  from acc have "0 \<le> credit (rate_of r) ?B 0 ?T (view (snd (allow_all fused ?cs l)) ip)"
    using r n' t by (intro credit_nonneg [of ?B ?T]) (auto simp: rate_of_def)
  with acc have "of_nat (granted fused ip ?cs l) \<le>
      credit (rate_of r) ?B 0 ?T (Some b) + of_nat (calls_by ip ?cs) * (?B / 2 ^ 52)"
    unfolding b by linarith
  also have "\<dots> < of_nat m"
    using short t(1) by (simp add: credit_def balance_def rate_of_def calls_by_def)
  finally show "granted fused ip ?cs l < m" by simp
qed

theorem eviction_forgets_witness:
  "granted False ''1.2.3.4'' (replicate 2 ((400000000000, 400000000000), ''1.2.3.4''))
     (fst (runGC 300000000001 (called_once (10 ^ 9 / 2 ^ 40)))) = 2 \<and>
   granted False ''1.2.3.4'' (replicate 2 ((400000000000, 400000000000), ''1.2.3.4''))
     (called_once (10 ^ 9 / 2 ^ 40)) < 2"
proof (rule eviction_forgets [OF called_once_ok _ called_once_burst _ _ _ _ called_once_view])
  show "ratePerNano (called_once (10 ^ 9 / 2 ^ 40)) = Fin (1 / 2 ^ 40)"
    using tick_rate [of 40] by (simp add: called_once_def Allow_params)
  show "level_ok (of_nat 2) \<lparr>tokens = Fin 1, lastRefillNano = 0, lastSeenNano = 0\<rparr>"
    using representable_int [of 1] by (simp add: level_ok_def level_def)
qed (simp_all add: bucketIdleTimeout_def level_def)

end
