(* ===== verification/Limiter_Race.thy ===== *)
theory Limiter_Race
  imports Limiter_Edges
begin

text \<open>
  Calls of \<open>Allow\<close> in parallel, with the sweep: each goroutine runs its critical sections one by one
  (\<open>RLock\<close> lookup, \<open>Lock\<close> double check and insertion, the bucket's lock), the sweep its two phases per
  shard, and the schedule is an explicit list of events.  Without sweeps every schedule is
  equivalent, per IP, to one bucket used sequentially; a sweep between a lookup and its consumption
  breaks this.  The first phase of the sweep is one event per shard; in the code a \<open>consume\<close>, which takes
  only its bucket's lock, may come between the readings of two buckets of the shard.  The theorems over all
  schedules leave sweeps out, so they do not depend on it.
\<close>

section \<open>The interleaved system\<close>

text \<open>Where a goroutine is in \<open>Allow\<close>: before the lookup, before \<open>getOrCreate\<close>, before \<open>consume\<close>, done.\<close>

datatype caller = Calling | Missed | Got nat | Answered bool

text \<open>\<open>served\<close> is the history of the consumptions: IP, clock and answer, in order.\<close>

record race =
  rlim :: limiter
  callers :: "caller list"
  pending :: "(nat \<times> int64 \<times> bytes list) option"
  served :: "(bytes \<times> int64 \<times> bool) list"

definition race_start :: "bytes list \<Rightarrow> limiter \<Rightarrow> race" where
  "race_start ips l =
     \<lparr>rlim = l, callers = replicate (length ips) Calling, pending = None, served = []\<rparr>"

datatype race_event =
  LookupE nat | CreateE nat int64 | ConsumeE nat int64 | ScanE nat int64 | DeleteE

definition set_caller :: "nat \<Rightarrow> caller \<Rightarrow> race \<Rightarrow> race" where
  "set_caller g c s = s\<lparr>callers := (callers s)[g := c]\<rparr>"

text \<open>One event on goroutine \<open>g\<close>, which calls \<open>Allow\<close> for the IP \<open>ips ! g\<close>; \<open>None\<close> when it cannot happen.\<close>

fun race_fire :: "bool \<Rightarrow> bytes list \<Rightarrow> race_event \<Rightarrow> race \<Rightarrow> race option" where
  "race_fire fused ips (LookupE g) s =
     (if g < length ips \<and> callers s ! g = Calling
      then Some (set_caller g
             (case lookup (ips ! g) (rlim s) of Some b \<Rightarrow> Got b | None \<Rightarrow> Missed) s)
      else None)"
| "race_fire fused ips (CreateE g t) s =
     (if g < length ips \<and> callers s ! g = Missed
      then (case getOrCreate t (ips ! g) (rlim s) of
              (b, l) \<Rightarrow> Some (set_caller g (Got b) (s\<lparr>rlim := l\<rparr>)))
      else None)"
| "race_fire fused ips (ConsumeE g t) s =
     (if g < length ips
      then (case callers s ! g of
              Got b \<Rightarrow>
                (case consume fused t b (rlim s) of
                   (a, l) \<Rightarrow> Some (set_caller g (Answered a)
                     (s\<lparr>rlim := l, served := served s @ [(ips ! g, t, a)]\<rparr>)))
            | _ \<Rightarrow> None)
      else None)"
| "race_fire fused ips (ScanE i cutoff) s =
     (if i < numShards \<and> pending s = None
      then Some (s\<lparr>pending := Some (i, cutoff, gc_scan cutoff i (rlim s))\<rparr>)
      else None)"
| "race_fire fused ips DeleteE s =
     (case pending s of
        Some (i, cutoff, toEvict) \<Rightarrow>
          Some (s\<lparr>rlim := fst (gc_delete cutoff i toEvict (rlim s, 0)), pending := None\<rparr>)
      | None \<Rightarrow> None)"

inductive race_runs :: "bool \<Rightarrow> bytes list \<Rightarrow> race \<Rightarrow> race_event list \<Rightarrow> race \<Rightarrow> bool"
  for fused :: bool and ips :: "bytes list" and s0 :: race where
  race_nil: "race_runs fused ips s0 [] s0"
| race_snoc: "race_runs fused ips s0 es s \<Longrightarrow> race_fire fused ips e s = Some s' \<Longrightarrow>
    race_runs fused ips s0 (es @ [e]) s'"

fun sweeps :: "race_event \<Rightarrow> bool" where
  "sweeps (ScanE i c) = True"
| "sweeps DeleteE = True"
| "sweeps e = False"

section \<open>The sequential bucket\<close>

fun serve_all :: "bool \<Rightarrow> f64 \<Rightarrow> f64 \<Rightarrow> int64 list \<Rightarrow> bucket \<Rightarrow> bool list \<times> bucket" where
  "serve_all fused r B [] b = ([], b)"
| "serve_all fused r B (t # ts) b =
     (case consume_bucket fused r B t b of (a, b') \<Rightarrow>
        (case serve_all fused r B ts b' of (as, b'') \<Rightarrow> (a # as, b'')))"

lemma serve_all_snoc:
  "serve_all fused r B (ts @ [t]) b =
     (case serve_all fused r B ts b of (as, b') \<Rightarrow>
        (case consume_bucket fused r B t b' of (a, b'') \<Rightarrow> (as @ [a], b'')))"
  by (induction ts arbitrary: b) (auto split: prod.splits)

type_synonym history = "(bytes \<times> int64 \<times> bool) list"

definition times_of :: "bytes \<Rightarrow> history \<Rightarrow> int64 list" where
  "times_of ip h = map (fst \<circ> snd) (filter (\<lambda>x. fst x = ip) h)"

definition answers_of :: "bytes \<Rightarrow> history \<Rightarrow> bool list" where
  "answers_of ip h = map (snd \<circ> snd) (filter (\<lambda>x. fst x = ip) h)"

section \<open>The invariant\<close>

text \<open>
  A history is that of one bucket, the one the limiter now holds, created at a time that satisfies \<open>P\<close>.
\<close>

definition one_bucket ::
  "bool \<Rightarrow> f64 \<Rightarrow> f64 \<Rightarrow> (int64 \<Rightarrow> bool) \<Rightarrow> bytes \<Rightarrow> history \<Rightarrow> bucket option \<Rightarrow> bool" where
  "one_bucket fused r B P ip h ob \<longleftrightarrow>
     (case ob of
        None \<Rightarrow> times_of ip h = [] \<and> answers_of ip h = []
      | Some b \<Rightarrow> \<exists>t. P t \<and> serve_all fused r B (times_of ip h) (fresh_bucket B t) = (answers_of ip h, b))"

lemma one_bucket_fresh: "P t \<Longrightarrow> one_bucket fused r B P ip h None \<Longrightarrow> one_bucket fused r B P ip h (Some (fresh_bucket B t))"
  by (auto simp: one_bucket_def)

lemma one_bucket_serve:
  assumes "one_bucket fused r B P ip h (Some b)" and "consume_bucket fused r B t b = (a, b')"
  shows "one_bucket fused r B P ip (h @ [(ip, t, a)]) (Some b')"
proof -
  from assms(1) obtain t0
    where "P t0" and "serve_all fused r B (times_of ip h) (fresh_bucket B t0) = (answers_of ip h, b)"
    by (auto simp: one_bucket_def)
  then have "serve_all fused r B (times_of ip (h @ [(ip, t, a)])) (fresh_bucket B t0) =
      (answers_of ip (h @ [(ip, t, a)]), b')"
    using assms(2) by (simp add: times_of_def answers_of_def serve_all_snoc)
  then show ?thesis using \<open>P t0\<close> by (auto simp: one_bucket_def)
qed

lemma one_bucket_other:
  "ip' \<noteq> ip \<Longrightarrow> one_bucket fused r B P ip' (h @ [(ip, t, a)]) ob = one_bucket fused r B P ip' h ob"
  by (simp add: one_bucket_def times_of_def answers_of_def split: option.split)

definition race_inv :: "bool \<Rightarrow> bytes list \<Rightarrow> f64 \<Rightarrow> f64 \<Rightarrow> (int64 \<Rightarrow> bool) \<Rightarrow> race \<Rightarrow> bool" where
  "race_inv fused ips r B P s \<longleftrightarrow>
     limiter_ok (rlim s) \<and> ratePerNano (rlim s) = r \<and> burstSize (rlim s) = B \<and>
     length (callers s) = length ips \<and>
     (\<forall>g < length ips. \<forall>b. callers s ! g = Got b \<longrightarrow> lookup (ips ! g) (rlim s) = Some b) \<and>
     (\<forall>ip. one_bucket fused r B P ip (served s) (view (rlim s) ip))"

lemma race_inv_start: "race_inv fused ips (ratePerNano (new_limiter R n)) (burstSize (new_limiter R n)) P
    (race_start ips (new_limiter R n))"
  by (simp add: race_inv_def race_start_def limiter_ok_new one_bucket_def times_of_def answers_of_def
      del: new_limiter_params(1,2))

lemma race_params [simp]:
  "rlim (set_caller g c s) = rlim s" "served (set_caller g c s) = served s"
  "callers (set_caller g c s) = (callers s)[g := c]"
  by (simp_all add: set_caller_def)

lemma inv_lookup:
  assumes "race_inv fused ips r B P s" and "race_fire fused ips (LookupE g) s = Some s'"
  shows "race_inv fused ips r B P s'"
  using assms by (auto simp: race_inv_def nth_list_update split: if_splits option.splits)

lemma lookup_getOrCreate:
  assumes "limiter_ok l"
  shows "lookup ip' (snd (getOrCreate t ip l)) =
    (if ip' = ip then Some (fst (getOrCreate t ip l)) else lookup ip' l)"
  using lookup_insert [OF assms] by (auto simp: getOrCreate_def Let_def split: option.split)

lemma inv_create:
  assumes inv: "race_inv fused ips r B P s" and fire: "race_fire fused ips (CreateE g t) s = Some s'"
    and P: "P t"
  shows "race_inv fused ips r B P s'"
proof -
  let ?l = "snd (getOrCreate t (ips ! g) (rlim s))"
  from fire have g: "g < length ips"
    and s': "s' = set_caller g (Got (fst (getOrCreate t (ips ! g) (rlim s)))) (s\<lparr>rlim := ?l\<rparr>)"
    by (auto split: if_splits prod.splits)
  from inv have ok: "limiter_ok (rlim s)" and B: "burstSize (rlim s) = B"
    and h: "one_bucket fused r B P ip (served s) (view (rlim s) ip)" for ip by (simp_all add: race_inv_def)
  have "limiter_ok ?l \<and> (\<forall>ip. one_bucket fused r B P ip (served s) (view ?l ip))"
  proof (cases "lookup (ips ! g) (rlim s)")
    case None
    then have "view (rlim s) (ips ! g) = None" by (simp add: view_def)
    with h [of "ips ! g"] have "one_bucket fused r B P (ips ! g) (served s) (Some (fresh_bucket B t))"
      by (simp add: one_bucket_fresh P)
    with h None show ?thesis by (simp add: getOrCreate_view(1) [OF ok None] B getOrCreate_ok [OF ok None])
  next
    case (Some b)
    then have "?l = rlim s" by (simp add: getOrCreate_def)
    then show ?thesis using h ok by simp
  qed
  moreover have "fst (getOrCreate t (ips ! g) (rlim s)) = b" if "lookup (ips ! g) (rlim s) = Some b" for b
    using that by (simp add: getOrCreate_def)
  ultimately show ?thesis
    using inv g by (auto simp: race_inv_def s' nth_list_update lookup_getOrCreate [OF ok] split: if_splits)
qed

lemma inv_consume:
  assumes inv: "race_inv fused ips r B P s" and fire: "race_fire fused ips (ConsumeE g t) s = Some s'"
  shows "race_inv fused ips r B P s'"
proof -
  from fire obtain b where g: "g < length ips" and b: "callers s ! g = Got b"
    by (auto split: if_splits caller.splits)
  let ?l = "snd (consume fused t b (rlim s))" and ?a = "fst (consume fused t b (rlim s))"
  from fire g b have s': "s' = set_caller g (Answered ?a) (s\<lparr>rlim := ?l, served := served s @ [(ips ! g, t, ?a)]\<rparr>)"
    by (auto split: prod.splits)
  from inv g b have ok: "limiter_ok (rlim s)" and lk: "lookup (ips ! g) (rlim s) = Some b"
    and par: "ratePerNano (rlim s) = r" "burstSize (rlim s) = B"
    and h: "one_bucket fused r B P ip (served s) (view (rlim s) ip)" for ip by (simp_all add: race_inv_def)
  have "view (rlim s) (ips ! g) = Some (heap (rlim s) ! b)" by (simp add: view_def lk)
  with h [of "ips ! g"] have "one_bucket fused r B P (ips ! g) (served s @ [(ips ! g, t, ?a)]) (view ?l (ips ! g))"
    by (simp add: consume_view [OF ok lk] consume_result par one_bucket_serve prod_eq_iff)
  moreover have "one_bucket fused r B P ip (served s @ [(ips ! g, t, ?a)]) (view ?l ip)" if "ip \<noteq> ips ! g" for ip
    using that h by (simp add: consume_view [OF ok lk] one_bucket_other)
  ultimately have hist: "one_bucket fused r B P ip (served s @ [(ips ! g, t, ?a)]) (view ?l ip)" for ip
    by (cases "ip = ips ! g") simp_all
  have look: "lookup ip ?l = lookup ip (rlim s)" for ip
    by (simp add: consume_def split: prod.splits)
  have "lookup (ips ! g') (rlim s) = Some b'" if "g' < length ips" "callers s' ! g' = Got b'" for g' b'
    using inv that g by (cases "g' = g") (simp_all add: race_inv_def s')
  with inv g hist show ?thesis by (simp add: race_inv_def s' consume_ok look)
qed

text \<open>A bucket is created at a time that satisfies \<open>P\<close>.\<close>

fun created :: "(int64 \<Rightarrow> bool) \<Rightarrow> race_event \<Rightarrow> bool" where
  "created P (CreateE g t) = P t"
| "created P e = True"

lemma inv_runs:
  assumes "race_runs fused ips s0 es s" and "race_inv fused ips r B P s0" and "list_all (Not \<circ> sweeps) es"
    and "list_all (created P) es"
  shows "race_inv fused ips r B P s"
  using assms
proof (induction rule: race_runs.induct)
  case (race_snoc es s e s')
  then have "race_inv fused ips r B P s" and e: "\<not> sweeps e" "created P e" by simp_all
  then show ?case using race_snoc.hyps(2)
    by (cases e) (auto simp del: race_fire.simps intro: inv_lookup inv_create inv_consume)
qed simp

lemma created_any: "list_all (created (\<lambda>_. True)) es"
proof -
  have "created (\<lambda>_. True) e" for e by (cases e) simp_all
  then show ?thesis by (simp add: list_all_iff)
qed

text \<open>Schedules can be executed.\<close>

fun race_exec :: "bool \<Rightarrow> bytes list \<Rightarrow> race_event list \<Rightarrow> race \<Rightarrow> race option" where
  "race_exec fused ips [] s = Some s"
| "race_exec fused ips (e # es) s =
     (case race_fire fused ips e s of None \<Rightarrow> None | Some s' \<Rightarrow> race_exec fused ips es s')"

lemma race_exec_snoc:
  "race_exec fused ips (es @ [e]) s =
     (case race_exec fused ips es s of None \<Rightarrow> None | Some s' \<Rightarrow> race_fire fused ips e s')"
  by (induction es arbitrary: s) (simp_all split: option.split)

lemma race_exec_runs: "race_exec fused ips es s = Some s' \<Longrightarrow> race_runs fused ips s es s'"
proof (induction es arbitrary: s' rule: rev_induct)
  case (snoc e es)
  then show ?case by (auto simp: race_exec_snoc split: option.splits intro: race_snoc)
qed (simp add: race_nil)

text \<open>C7. Parallel calls lose no token.  Whatever the schedule of lookups, double-checked insertions and
  consumptions of any number of goroutines (and no sweep running), the answers given for one IP, in the
  order of the consumptions, are those of a single bucket, created once with the full burst and served
  sequentially.\<close>

theorem race_linearizable:
  assumes "race_runs fused ips (race_start ips (new_limiter R n)) es s"
    and "list_all (Not \<circ> sweeps) es"
  shows "\<exists>t. answers_of ip (served s) =
    fst (serve_all fused (f64_div_const R 1000000000) (f64_of_int n) (times_of ip (served s))
      (fresh_bucket (f64_of_int n) t))"
proof -
  have one: "one_bucket fused (f64_div_const R 1000000000) (f64_of_int n) (\<lambda>_. True) ip (served s) (view (rlim s) ip)"
    using inv_runs [OF assms(1) race_inv_start assms(2)] created_any by (simp add: race_inv_def)
  show ?thesis
  proof (cases "view (rlim s) ip")
    case (Some b)
    with one show ?thesis by (auto simp: one_bucket_def) (metis fst_conv)
  qed (use one in \<open>simp add: one_bucket_def\<close>)
qed

lemma schedule_runs:
  "\<exists>s. race_runs False [''a'', ''a''] (race_start [''a'', ''a''] (new_limiter (Fin 1) 1))
     [LookupE 0, LookupE 1, CreateE 0 5, CreateE 1 6, ConsumeE 1 7, ConsumeE 0 8] s"
proof -
  have new: "lookup ''a'' (new_limiter (Fin 1) 1) = None" by (simp add: lookup_def new_limiter_def)
  have "\<exists>s. race_exec False [''a'', ''a'']
      [LookupE 0, LookupE 1, CreateE 0 5, CreateE 1 6, ConsumeE 1 7, ConsumeE 0 8]
      (race_start [''a'', ''a''] (new_limiter (Fin 1) 1)) = Some s"
    by (simp add: race_start_def new case_prod_unfold numeral_2_eq_2)
  then show ?thesis by (blast intro: race_exec_runs)
qed

theorem race_linearizable_witness:
  "\<exists>s t. race_runs False [''a'', ''a''] (race_start [''a'', ''a''] (new_limiter (Fin 1) 1))
       [LookupE 0, LookupE 1, CreateE 0 5, CreateE 1 6, ConsumeE 1 7, ConsumeE 0 8] s \<and>
     answers_of ''a'' (served s) =
       fst (serve_all False (f64_div_const (Fin 1) 1000000000) (f64_of_int 1) (times_of ''a'' (served s))
         (fresh_bucket (f64_of_int 1) t))"
proof -
  obtain s where run: "race_runs False [''a'', ''a''] (race_start [''a'', ''a''] (new_limiter (Fin 1) 1))
       [LookupE 0, LookupE 1, CreateE 0 5, CreateE 1 6, ConsumeE 1 7, ConsumeE 0 8] s"
    using schedule_runs by blast
  show ?thesis using run race_linearizable [OF run, of "''a''"] by auto
qed

section \<open>A sweep between lookup and consumption\<close>

text \<open>The double check does not cover the sweep: a goroutine that has looked up an idle bucket when
  the sweep evicts it goes on with the evicted bucket, while the next call for the same IP gets a
  bucket of its own, so the two spend from two full allowances.\<close>

theorem sweep_splits_bucket:
  assumes ok: "limiter_ok l" and b: "lookup ip l = Some b" and idle: "idle cutoff l b"
  shows "\<exists>s b'. race_runs fused [ip, ip] (race_start [ip, ip] l)
      [LookupE 0, ScanE (shard_for ip) cutoff, DeleteE, LookupE 1, CreateE 1 t] s \<and>
    callers s = [Got b, Got b'] \<and> b' \<noteq> b \<and> lookup ip (rlim s) = Some b'"
proof -
  let ?i = "shard_for ip" and ?ips = "gc_scan cutoff (shard_for ip) l"
  define l' where "l' = fst (gc_delete cutoff ?i ?ips (l, 0))"
  have i: "?i < length (shards l)" and d: "distinct (map fst (shards l ! ?i))"
    using ok by (simp_all add: limiter_ok_def shard_ok_def)
  have "(ip, b) \<in> set (shards l ! ?i)" using b by (simp add: lookup_def map_of_SomeD)
  then have ne: "?ips \<noteq> []" using idle by (auto simp: gc_scan_def filter_empty_conv)
  have "l' = fst (gc_shard cutoff ?i (l, 0))" using ne by (simp add: l'_def gc_shard_def Let_def)
  then have l': "l' = l\<lparr>shards := (shards l)[?i := filter (\<lambda>(ip, b). \<not> idle cutoff l b) (shards l ! ?i)]\<rparr>"
    using gc_shard_eq [OF i d, of cutoff 0] by simp
  have gone: "lookup ip l' = None"
    using b idle i map_of_filter_val [OF d, of "\<lambda>b. \<not> idle cutoff l b" ip]
    by (simp add: lookup_def l')
  let ?g = "getOrCreate t ip l'"
  have "heap l' = heap l" and i': "?i < length (shards l')" using i by (simp_all add: l')
  then have fst: "fst ?g = length (heap l)" by (simp add: getOrCreate_def gone Let_def)
  have look: "lookup ip (snd ?g) = Some (fst ?g)"
    using i' by (simp add: getOrCreate_def gone Let_def) (simp add: lookup_def update_conv')
  have "b < length (heap l)" using lookup_less [OF ok b] .
  moreover have "race_exec fused [ip, ip]
      [LookupE 0, ScanE ?i cutoff, DeleteE, LookupE 1, CreateE 1 t] (race_start [ip, ip] l) =
    Some \<lparr>rlim = snd ?g, callers = [Got b, Got (fst ?g)], pending = None, served = []\<rparr>"
    using b gone by (simp add: race_start_def case_prod_unfold set_caller_def l'_def [symmetric] numeral_2_eq_2)
  then have run: "race_runs fused [ip, ip] (race_start [ip, ip] l)
      [LookupE 0, ScanE ?i cutoff, DeleteE, LookupE 1, CreateE 1 t]
    \<lparr>rlim = snd ?g, callers = [Got b, Got (fst ?g)], pending = None, served = []\<rparr>"
    by (rule race_exec_runs)
  ultimately show ?thesis
    using look fst by (intro exI conjI) (rule run, simp_all)
qed

theorem sweep_splits_bucket_witness:
  "\<exists>s b'. race_runs True [''1.2.3.4'', ''1.2.3.4''] (race_start [''1.2.3.4'', ''1.2.3.4''] (called_once 1))
      [LookupE 0, ScanE (shard_for ''1.2.3.4'') 1, DeleteE, LookupE 1, CreateE 1 300000000001] s \<and>
    callers s = [Got 0, Got b'] \<and> b' \<noteq> 0 \<and> lookup ''1.2.3.4'' (rlim s) = Some b'"
proof (rule sweep_splits_bucket)
  show "limiter_ok (called_once 1)" by (rule called_once_ok)
  have new: "lookup ''1.2.3.4'' (new_limiter (Fin 1) 2) = None" by (simp add: lookup_def new_limiter_def)
  have "lookup ''1.2.3.4'' (called_once 1) = Some (fst (getOrCreate 0 ''1.2.3.4'' (new_limiter (Fin 1) 2)))"
    by (simp add: called_once_def Allow_split new consume_def lookup_getOrCreate limiter_ok_new split: prod.split)
  then show look: "lookup ''1.2.3.4'' (called_once 1) = Some 0"
    by (simp add: getOrCreate_def new Let_def) (simp add: new_limiter_def)
  show "idle 1 (called_once 1) 0"
    using called_once_view [of 1] look by (simp add: view_def idle_def)
qed

end
