(* ===== verification/Proxy_Answers.thy ===== *)
theory Proxy_Answers
  imports Proxy_Props
begin

text \<open>
  What the client gets from the reverse proxy for every outcome of the backend, and how the proxy is
  set up: the timeouts of a loaded configuration and the targets that are accepted.
\<close>

section \<open>The response\<close>

text \<open>The status of the answer, \<open>None\<close> when nothing is written.\<close>

definition answer_of :: "build_error + out_request \<Rightarrow> (out_request \<Rightarrow> reply) \<Rightarrow> int option" where
  "answer_of built backend =
     (case built of
        Inl e \<Rightarrow> Some 502
      | Inr q \<Rightarrow>
          (case backend q of
             NoReply gone timeout \<Rightarrow> if gone then None else Some (if timeout then 504 else 502)
           | Reply code h chunks \<Rightarrow> Some code))"

lemma edits_no_status:
  "List.map_filter call_status (copyResponseHeaders h) = []"
proof -
  have "List.map_filter call_status (map (HeaderAdd k) vs) = []" for k vs
    by (induction vs) (simp_all add: List.map_filter_def)
  then show ?thesis
    by (induction h) (auto simp: copyResponseHeaders_def List.map_filter_def)
qed

lemma map_filter_append: "List.map_filter f (xs @ ys) = List.map_filter f xs @ List.map_filter f ys"
  by (simp add: List.map_filter_def)

text \<open>
  Every outcome has its status: 502 for a request that cannot be built or a backend that fails, 504 for
  a timeout, nothing for a client that left, and the backend's own status for a response.
\<close>

theorem answer_status:
  assumes "c_sent c = None"
  shows "map_option fst (c_sent (fold cn.perform (ServeHTTP p backend r) c)) =
    answer_of (buildBackendRequest p r) backend"
  using cn.status_performs [of c "ServeHTTP p backend r"] assms
  by (auto simp: ServeHTTP_def answer_of_def writeError_def map_filter_append edits_no_status
      map_filter_simps split: sum.splits reply.splits)

theorem answer_status_witness:
  "map_option fst (c_sent (fold cn.perform
     (ServeHTTP default_proxy (\<lambda>q. NoReply False True) (get_request ''/'' [] [])) fresh_conn)) = Some 504"
  using answer_status [of fresh_conn default_proxy "\<lambda>q. NoReply False True" "get_request ''/'' [] []"]
  by (simp add: answer_of_def build_get [OF uri_ok_empty] fresh_conn_def)

text \<open>The header a run of edits leaves.\<close>

lemma perform_edit:
  "call_status e = None \<Longrightarrow> cn.perform e c = c\<lparr>c_header := call_edit e (c_header c)\<rparr>"
  by (cases e; simp) (simp_all only: conn_map_header_def)

lemma perform_header_calls:
  "list_all (\<lambda>c. call_status c = None) es \<Longrightarrow>
     fold cn.perform es c = c\<lparr>c_header := fold call_edit es (c_header c)\<rparr>"
proof (induction es arbitrary: c)
  case (Cons e es)
  then show ?case by (simp add: perform_edit)
qed simp

lemma fold_adds: "fold call_edit (map (HeaderAdd k) vs) h = fold (header_add k) vs h"
  by (induction vs arbitrary: h) auto

lemma copy_response_edit:
  "fold call_edit (copyResponseHeaders src) h =
     fold (\<lambda>(k, vs). fold (header_add k) vs)
       (filter (\<lambda>kv. fst kv \<notin> set excludedResponseHeaders) src) h"
  by (induction src arbitrary: h) (auto simp: copyResponseHeaders_def fold_adds)

lemma copy_response_values:
  assumes "canonical_header src"
  shows "header_values (fold call_edit (copyResponseHeaders src) h) k =
    header_values h k @
    (if canonical_key k \<in> set excludedResponseHeaders then [] else header_values src k)"
proof -
  let ?keep = "filter (\<lambda>kv. fst kv \<notin> set excludedResponseHeaders) src"
  have keys: "canonical_key (fst kv) = fst kv" if "kv \<in> set src" for kv
    using assms that by (auto simp: canonical_header_def list_all_iff)
  have "concat (map snd (filter (\<lambda>kv. canonical_key (fst kv) = canonical_key k) ?keep)) =
      (if canonical_key k \<in> set excludedResponseHeaders then [] else header_values src k)"
  proof (cases "canonical_key k \<in> set excludedResponseHeaders")
    case True
    then have "filter (\<lambda>kv. canonical_key (fst kv) = canonical_key k) ?keep = []"
      using keys by (auto simp: filter_empty_conv)
    with True show ?thesis by simp
  next
    case False
    then have "filter (\<lambda>kv. canonical_key (fst kv) = canonical_key k) ?keep =
        filter (\<lambda>kv. canonical_key (fst kv) = canonical_key k) src"
      using keys by (auto simp: intro!: filter_cong)
    with False show ?thesis using canonical_filter [OF assms] by simp
  qed
  then show ?thesis by (simp add: copy_response_edit hd.vals_copy)
qed

lemma copy_response_edits_only: "list_all (\<lambda>c. call_status c = None) (copyResponseHeaders src)"
  by (auto simp: copyResponseHeaders_def list_all_iff)

lemma perform_writes:
  "c_sent c \<noteq> None \<Longrightarrow> fold cn.perform (map Write bs) c = c\<lparr>c_body := c_body c @ concat bs\<rparr>"
  by (induction bs arbitrary: c) (auto simp: conn_write_def Let_def)

text \<open>
  C13. A response of the backend is relayed whole: its status, its body, and under every key its values in
  their order after those the writer held, less the excluded keys; \<open>Via\<close> and
  \<open>X-PeakShield-Proxied\<close> are the proxy's.
\<close>

theorem relay_exact:
  assumes "buildBackendRequest p r = Inr q" and "backend q = Reply code src chunks"
    and "canonical_header src" and "c_sent c = None"
  shows "\<exists>h. fold cn.perform (ServeHTTP p backend r) c =
      c\<lparr>c_header := h, c_sent := Some (code, h), c_body := c_body c @ concat chunks\<rparr> \<and>
    header_values h k =
      (if canonical_key k = ''Via'' then [''1.1 peakshield'']
       else if canonical_key k = ''X-Peakshield-Proxied'' then [''1'']
       else header_values (c_header c) k @
         (if canonical_key k \<in> set excludedResponseHeaders then [] else header_values src k))"
proof -
  define h1 where "h1 = fold call_edit (copyResponseHeaders src) (c_header c)"
  define h where "h = header_set ''Via'' ''1.1 peakshield'' (header_set ''X-PeakShield-Proxied'' ''1'' h1)"
  have send: "cn.perform (WriteHeader code) (c\<lparr>c_header := h\<rparr>) =
      c\<lparr>c_header := h, c_sent := Some (code, h)\<rparr>"
    using assms(4) by (simp add: conn_write_header_def)
  have "ServeHTTP p backend r =
      (copyResponseHeaders src @ [HeaderSet ''X-PeakShield-Proxied'' ''1'', HeaderSet ''Via'' ''1.1 peakshield''])
      @ WriteHeader code # map Write chunks"
    using assms(1,2) by (simp add: ServeHTTP_def)
  moreover have "fold cn.perform
      (copyResponseHeaders src @ [HeaderSet ''X-PeakShield-Proxied'' ''1'', HeaderSet ''Via'' ''1.1 peakshield''])
      c = c\<lparr>c_header := h\<rparr>"
    by (subst perform_header_calls) (simp_all add: copy_response_edits_only h_def h1_def)
  ultimately have "fold cn.perform (ServeHTTP p backend r) c =
      c\<lparr>c_header := h, c_sent := Some (code, h), c_body := c_body c @ concat chunks\<rparr>"
    using send perform_writes [of "c\<lparr>c_header := h, c_sent := Some (code, h)\<rparr>" chunks] by simp
  moreover have "header_values h k =
      (if canonical_key k = ''Via'' then [''1.1 peakshield'']
       else if canonical_key k = ''X-Peakshield-Proxied'' then [''1'']
       else header_values (c_header c) k @
         (if canonical_key k \<in> set excludedResponseHeaders then [] else header_values src k))"
    using copy_response_values [OF assms(3)] by (auto simp: h_def h1_def hd.vals_upd)
  ultimately show ?thesis by blast
qed

theorem relay_exact_witness:
  "\<exists>h. fold cn.perform (ServeHTTP default_proxy
        (\<lambda>q. Reply 404 [(''Set-Cookie'', [''a'', ''b'']), (''Upgrade'', [''x''])] [''no'', ''pe''])
        (get_request ''/'' [] [])) fresh_conn = \<lparr>c_header = h, c_sent = Some (404, h), c_body = ''nope''\<rparr> \<and>
     header_values h ''set-cookie'' = [''a'', ''b'']"
proof -
  let ?src = "[(''Set-Cookie'', [''a'', ''b'']), (''Upgrade'', [''x''])]"
  obtain q where q: "buildBackendRequest default_proxy (get_request ''/'' [] []) = Inr q"
    using build_get [OF uri_ok_empty] by blast
  have src: "canonical_header ?src" by code_simp
  have c: "canonical_key ''set-cookie'' = ''Set-Cookie''" by code_simp
  show ?thesis
    using relay_exact [where backend = "\<lambda>q. Reply 404 ?src [''no'', ''pe'']" and c = fresh_conn
        and k = "''set-cookie''", OF q refl src]
    by (simp add: fresh_conn_def c excludedResponseHeaders_def header_values_def)
qed

section \<open>The error body\<close>

lemma json_string_safe: "list_all json_safe (json_string s)"
  using json_chars_safe [of s] by (simp add: json_string_def json_safe_def Let_def)

lemma digits_safe: "is_digit c \<Longrightarrow> json_safe c"
  by (auto simp: is_digit_def json_safe_def Let_def)

lemma show_int_safe: "list_all json_safe (show_int i)"
  using show_nat_digits digits_safe
  by (auto simp: show_int_def list_all_iff) (auto simp: json_safe_def Let_def)

lemma json_field_safe: "list_all json_safe v \<Longrightarrow> list_all json_safe (json_field n v)"
  using json_string_safe [of n] by (simp add: json_field_def) (simp add: json_safe_def Let_def)

text \<open>
  C36. An error of the proxy's own cannot carry markup or break a line: whatever the target's URL and the
  error's type hold, the body has no \<open><\<close>, \<open>>\<close> or \<open>&\<close> and no byte below 0x20, and its content type is JSON, not
  to be sniffed.  The byte 0x7F, which JSON does not escape, and bytes from 0x80 on may occur.
\<close>

theorem error_body_safe:
  "\<exists>body. writeError p code errType =
     [HeaderSet ''Content-Type'' ''application/json; charset=utf-8'',
      HeaderSet ''X-PeakShield-Error'' errType, HeaderSet ''X-Content-Type-Options'' ''nosniff'',
      WriteHeader code, Write body] \<and>
    list_all (\<lambda>c. c \<notin> set ''<>&'' \<and> 32 \<le> (of_char c :: nat)) body"
proof -
  have plain: "list_all json_safe (''{'' :: bytes)" "list_all json_safe ('','' :: bytes)"
    "list_all json_safe (''}'' :: bytes)"
    by (simp_all add: json_safe_def Let_def)
  have "list_all json_safe (marshal_error e)" for e
    using plain by (simp add: marshal_error_def json_field_safe json_string_safe show_int_safe)
  then have "list_all (\<lambda>c. c \<notin> set ''<>&'' \<and> 32 \<le> (of_char c :: nat)) (marshal_error e)" for e
    by (rule list.pred_mono_strong) (auto simp: json_safe_def Let_def)
  then show ?thesis by (simp add: writeError_def)
qed

section \<open>Setting up\<close>

text \<open>
  Under a configuration that loads, the transport's wait for the response header is switched off or a
  full second shorter than the client's own timeout, and never negative.
\<close>

theorem header_timeout_first:
  assumes "Load env = Inr cfg" and "new_proxy cfg = Inr p"
  shows "sint (px_client_timeout p) = sint (BackendTimeout cfg) \<and>
    sint (ResponseHeaderTimeout (px_transport p)) =
      max 0 (sint (px_client_timeout p) - 1000000000)"
proof -
  have p: "px_client_timeout p = BackendTimeout cfg"
    "ResponseHeaderTimeout (px_transport p) = header_timeout (BackendTimeout cfg)"
    using assms(2) by (auto simp: new_proxy_def new_transport_def split: option.splits if_splits)
  have one: "sint (seconds 1) = 1000000000" by (simp add: seconds_def)
  have "sint (BackendTimeout cfg - seconds 1) = sint (BackendTimeout cfg) - 1000000000"
    if "sint (BackendTimeout cfg) > 1000000000"
    using that sint_lt [of "BackendTimeout cfg"] one
    by (simp add: sint_word_ariths signed_take_bit_int_eq_self)
  then show ?thesis using p one by (auto simp: header_timeout_def max_def)
qed

theorem header_timeout_first_witness:
  "\<exists>p. new_proxy (default_config\<lparr>RateLimit := NaN\<rparr>) = Inr p \<and>
     sint (ResponseHeaderTimeout (px_transport p)) = 14000000000"
proof -
  let ?c = "default_config\<lparr>RateLimit := NaN\<rparr>"
  have load: "Load (env_of ''PEAKSHIELD_RATE_LIMIT'' ''NaN'') = Inr ?c"
    by (rule load_rate [OF parse_nan]) (simp_all add: f64_ops)
  have "url_parse (TargetURL ?c) =
      Some \<lparr>u_scheme = ''http'', u_host = ''localhost:9090'', u_path = []\<rparr>"
    unfolding default_config_def config.simps by code_simp
  then obtain p where p: "new_proxy ?c = Inr p" by (auto simp: new_proxy_def)
  have "sint (BackendTimeout ?c) = 15000000000" by (simp add: default_config_def seconds_def)
  with header_timeout_first [OF load p] p show ?thesis by simp
qed

text \<open>
  A target of the documented form, a scheme, a name with an optional port and a plain path, is accepted
  with exactly these parts, unless name and port are both missing.
\<close>

theorem new_proxy_plain:
  assumes "TargetURL cfg = scheme @ '':/'' @ ''/'' @ name @ port @ path"
    and "scheme \<noteq> []" and "list_all letter scheme" and "list_all name_byte name"
    and "valid_port port" and "plain_path path"
  shows "new_proxy cfg =
    (if name @ port = [] then Inl (TargetWithoutHost (TargetURL cfg))
     else Inr \<lparr>px_target = \<lparr>u_scheme = map lower_byte scheme, u_host = name @ port, u_path = path\<rparr>,
               px_transport = new_transport cfg, px_client_timeout = BackendTimeout cfg, px_cfg = cfg\<rparr>)"
  using url_parse_plain [OF assms(2-6)] assms(1) by (simp add: new_proxy_def)

theorem new_proxy_plain_witness:
  "\<exists>p. new_proxy (default_config\<lparr>TargetURL := ''HTTP://legacy.gov.in:9090/app''\<rparr>) = Inr p \<and>
     px_target p = \<lparr>u_scheme = ''http'', u_host = ''legacy.gov.in:9090'', u_path = ''/app''\<rparr>"
proof -
  have "list_all letter ''HTTP''" "list_all name_byte ''legacy.gov.in''" "valid_port '':9090''"
    "plain_path ''/app''" "map lower_byte ''HTTP'' = ''http''" by code_simp+
  then show ?thesis
    using new_proxy_plain [of "default_config\<lparr>TargetURL := ''HTTP://legacy.gov.in:9090/app''\<rparr>"
        "''HTTP''" "''legacy.gov.in''" "'':9090''" "''/app''"] by simp
qed

text \<open>
  A target without a scheme is refused, by the missing host if what stands before the port reads as a
  scheme, and by the parser if it does not.
\<close>

theorem schemeless_target:
  "new_proxy (default_config\<lparr>TargetURL := ''localhost:9090''\<rparr>) =
     Inl (TargetWithoutHost ''localhost:9090'') \<and>
   new_proxy (default_config\<lparr>TargetURL := ''10.0.0.7:9090''\<rparr>) = Inl (TargetInvalid ''10.0.0.7:9090'')"
proof -
  have "url_parse ''localhost:9090'' = Some \<lparr>u_scheme = ''localhost'', u_host = [], u_path = []\<rparr>"
    and "url_parse ''10.0.0.7:9090'' = None" by code_simp+
  then show ?thesis by (simp add: new_proxy_def)
qed

end
