(* ===== verification/Pipeline_Props.thy ===== *)
theory Pipeline_Props
  imports Pipeline Proxy_Answers Limiter_Edges Room_Props
begin

text \<open>
  What the composed program guarantees: the one response a request gets and what the backend sees, the
  waiting room's goroutines as a stage of the chain, the start-up and the metrics page.
\<close>

section \<open>The waiting room as a stage\<close>

text \<open>Whether a goroutine has got past the waiting room, and was let through.\<close>

fun decided :: "pc \<Rightarrow> bool option" where
  "decided (Serving q) = Some True"
| "decided (Releasing q) = Some True"
| "decided (Handing q t) = Some True"
| "decided (Done (Served q)) = Some True"
| "decided (Done c) = Some False"
| "decided _ = None"

lemma verdict_through:
  assumes "if q then \<exists>p. cs = [retry_after oor cfg p] else cs = []"
  shows "\<exists>v. admits v \<and> cs = wait_calls oor cfg v"
proof (cases q)
  case True
  with assms obtain p where "cs = [retry_after oor cfg p]" by auto
  then show ?thesis by (intro exI [of _ "FromQueue p"]) (simp add: admits_def wait_calls_def)
next
  case False
  with assms show ?thesis by (intro exI [of _ Direct]) (simp add: admits_def wait_calls_def)
qed

lemma verdict_stopped:
  assumes "told oor cfg (Done c) cs" and "decided (Done c) = Some False"
  shows "\<exists>v. \<not> admits v \<and> cs = wait_calls oor cfg v"
proof -
  have page: "\<exists>v. \<not> admits v \<and> cs = wait_calls oor cfg v"
    if "\<exists>p. cs = wait_calls oor cfg (mk p)" "\<And>p. \<not> admits (mk p)" for mk :: "int64 \<Rightarrow> verdict"
    using that by blast
  show ?thesis using assms page [of RoomFull] page [of WaitedTooLong] page [of ClientLeft]
    by (cases c) (simp_all add: admits_def wait_calls_def)
qed

lemma room_verdict:
  assumes "runs oor cfg es s" and "decided (pc s g) = Some a"
  shows "\<exists>v. admits v = a \<and> calls s g = wait_calls oor cfg v"
proof -
  have told: "told oor cfg (pc s g) (calls s g)" using assms(1) by (rule runs_told)
  show ?thesis
  proof (cases a)
    case True
    then obtain q where "if q then \<exists>p. calls s g = [retry_after oor cfg p] else calls s g = []"
      using told assms(2) by (cases "pc s g" rule: decided.cases) auto
    then show ?thesis using True verdict_through by metis
  next
    case False
    then obtain c where "pc s g = Done c" using assms(2) by (cases "pc s g" rule: decided.cases) auto
    then show ?thesis using False told assms(2) verdict_stopped by metis
  qed
qed

text \<open>
  C9. The stage of the chain is what the goroutines do: in every reachable state of the waiting room, a
  request past it has made exactly the calls of one verdict, and that verdict lets it through exactly if
  its goroutine was let through.
\<close>

theorem verdict_of_room:
  assumes "runs oor cfg es s" and "decided (pc s g) = Some a"
  shows "\<exists>v. admits v = a \<and> calls s g = wait_calls oor cfg v"
  using assms by (rule room_verdict)

theorem verdict_of_room_witness:
  "\<exists>s v. runs (\<lambda>_. 0) (tiny_config 1)
       [Arrive 0, Arrive 1, Undo 1, TakePosition 1, Enqueue 1, QueueTimeoutE 1] s \<and>
     \<not> admits v \<and> calls s 1 = wait_calls (\<lambda>_. 0) (tiny_config 1) v"
proof -
  have "\<exists>s. exec (\<lambda>_. 0) (tiny_config 1)
      [Arrive 0, Arrive 1, Undo 1, TakePosition 1, Enqueue 1, QueueTimeoutE 1] new_room = Some s \<and>
    decided (pc s 1) = Some False"
    by (simp add: chan_send_def)
  then obtain s where run: "runs (\<lambda>_. 0) (tiny_config 1)
      [Arrive 0, Arrive 1, Undo 1, TakePosition 1, Enqueue 1, QueueTimeoutE 1] s"
    and pc: "decided (pc s 1) = Some False" by (blast intro: exec_runs)
  from verdict_of_room [OF run pc] run show ?thesis by auto
qed

section \<open>One request through the chain\<close>

definition wait_status :: "verdict \<Rightarrow> int option" where
  "wait_status v = (case v of RoomFull p \<Rightarrow> Some 503 | WaitedTooLong p \<Rightarrow> Some 503 | _ \<Rightarrow> None)"

lemma wait_calls_status:
  "List.map_filter call_status (wait_calls oor cfg v) =
     (case wait_status v of None \<Rightarrow> [] | Some c \<Rightarrow> [c, 200])"
  by (cases v) (simp_all add: wait_calls_def wait_status_def serveWaitPage_def retry_after_def map_filter_simps)

lemma wait_calls_body: "admits v \<Longrightarrow> concat (map call_body (wait_calls oor cfg v)) = []"
  by (cases v) (simp_all add: wait_calls_def admits_def retry_after_def)

lemma admits_status: "admits v \<Longrightarrow> wait_status v = None"
  by (cases v) (simp_all add: admits_def wait_status_def)

lemma client_ip_ExtractIP: "client_ip = ExtractIP"
  by (rule ext) (simp add: client_ip_def ExtractIP_def split: option.split prod.split)

lemma first_status_proxy:
  "first_status (ServeHTTP p backend r) = answer_of (buildBackendRequest p r) backend"
  by (auto simp: first_status_def ServeHTTP_def answer_of_def writeError_def map_filter_append
      edits_no_status map_filter_simps split: sum.splits reply.splits)

text \<open>The request as the proxy gets it.\<close>

definition at_proxy :: "config \<Rightarrow> gateway \<Rightarrow> request \<Rightarrow> request" where
  "at_proxy cfg st r =
     (if sint (gw_active st) \<le> sint (StripThreshold cfg) then r
      else r\<lparr>rq_header := header_del ''Accept-Encoding'' (rq_header r)\<rparr>)"

lemma public_handler_unfold:
  "public_handler detect fused now oor cfg v p backend =
     rl_middleware detect fused now (wait_middleware detect oor cfg v
       (strip_middleware detect (\<lambda>st. sint (gw_active st)) (sint (StripThreshold cfg))
         (proxy_handler detect p backend)))"
  by (simp add: public_handler_def Chain_foldr)

lemma http_error_calls:
  "List.map_filter call_status (http_error msg code) = [code, 200]"
  "concat (map call_body (http_error msg code)) = msg @ [CHR 0x0A]"
  by (simp_all add: http_error_def map_filter_simps)

text \<open>
  C1. What a request comes to.  The limiter decides first, on the peer's address; a denied request gets the
  429 page and neither it nor a request the waiting room turns away is ever sent to the backend.  An
  admitted one is sent once, as the proxy builds it, and its client gets the proxy's status and all of
  its body, or the stripper's image of all of it if the stripper was active.
\<close>

theorem gateway_response:
  assumes "Allow fused now (ExtractIP (rq_remote r)) (gw_limiter st) = (allowed, l)"
  shows "\<exists>w st'. public_handler detect fused now oor cfg v p backend r (Conn fresh_conn) st = (w, st') \<and>
    st' = st\<lparr>gw_limiter := l, gw_sent := gw_sent st @
              (if allowed \<and> admits v then sent_for p (at_proxy cfg st r) else [])\<rparr> \<and>
    rw_status w =
      (if \<not> allowed then Some 429
       else if \<not> admits v then wait_status v
       else answer_of (buildBackendRequest p (at_proxy cfg st r)) backend) \<and>
    (let body = concat (map call_body
           (if \<not> allowed then http_error ''429 Too Many Requests'' 429
            else if \<not> admits v then wait_calls oor cfg v
            else ServeHTTP p backend (at_proxy cfg st r)))
     in rw_body w = body \<or>
        allowed \<and> admits v \<and> sint (gw_active st) > sint (StripThreshold cfg) \<and>
        rw_body w = strip_html body [])"
proof -
  define st1 where "st1 = st\<lparr>gw_limiter := l\<rparr>"
  define w1 where "w1 = fold (rw.perform detect) (wait_calls oor cfg v) (Conn fresh_conn)"
  have run: "public_handler detect fused now oor cfg v p backend r (Conn fresh_conn) st =
      (if \<not> allowed
       then (fold (rw.perform detect) (http_error ''429 Too Many Requests'' 429) (Conn fresh_conn), st1)
       else if admits v
       then strip_middleware detect (\<lambda>st. sint (gw_active st)) (sint (StripThreshold cfg))
              (proxy_handler detect p backend) r w1 st1
       else (w1, st1))"
    using assms
    by (simp add: public_handler_unfold rl_middleware_def wait_middleware_def client_ip_ExtractIP
        st1_def w1_def Let_def)
  have w1: "rw_ok w1" "rw_status w1 = wait_status v"
    "rw_body w1 = concat (map call_body (wait_calls oor cfg v))"
    by (simp_all add: w1_def rw.ok_performs rw.status_performs rw.body_performs wait_calls_status
        fresh_conn_def split: option.split)
  show ?thesis
  proof (cases "allowed \<and> admits v")
    case False
    then show ?thesis
      using run w1
      by (auto simp: st1_def rw.status_performs rw.body_performs http_error_calls fresh_conn_def)
  next
    case True
    then have empty: "rw_status w1 = None" "rw_body w1 = []"
      using w1 by (simp_all add: admits_status wait_calls_body)
    from strip_response [OF w1(1) empty, of detect "\<lambda>st. sint (gw_active st)" "sint (StripThreshold cfg)"
        "ServeHTTP p backend" "\<lambda>r st. st\<lparr>gw_sent := gw_sent st @ sent_for p r\<rparr>" r st1]
    show ?thesis
      using True run
      by (auto simp: proxy_handler_def at_proxy_def st1_def first_status_proxy Let_def)
  qed
qed

lemma demo_allowed:
  "fst (Allow False (0, 0) ''203.0.113.42'' (new_limiter (Fin 1) 2))"
proof -
  have "f64_of_rat 1 = Fin 1" using f64_of_rat_rep [of 1] representable_int [of 1] f64_limit_big by simp
  moreover have "f64_of_int 2 = Fin 2" using burst_exact_float(1) [of 2] by simp
  ultimately show ?thesis
    by (simp add: Allow_result limiter_ok_new bucket_step_def consume_bucket_def
        refill_still fresh_bucket_def take_token_def Let_def f64_ops)
qed

theorem gateway_response_witness:
  "\<exists>w st'. public_handler (\<lambda>b. []) False (0, 0) (\<lambda>_. 0) default_config (FromQueue 3) default_proxy
      (\<lambda>q. Reply 200 [(''Content-Type'', [''text/html''])] [''<img src=a>''])
      (get_request ''/'' [] []) (Conn fresh_conn)
      \<lparr>gw_limiter = new_limiter (Fin 1) 2, gw_active = 41, gw_sent = []\<rparr> = (w, st') \<and>
    rw_status w = Some 200 \<and> length (gw_sent st') = 1 \<and>
    rw_body w \<in> {''<img src=a>'', strip_html ''<img src=a>'' []}"
proof -
  let ?backend = "\<lambda>q :: out_request. Reply 200 [(''Content-Type'', [''text/html''])] [''<img src=a>'']"
  let ?r = "get_request ''/'' [] []"
  let ?st = "\<lparr>gw_limiter = new_limiter (Fin 1) 2, gw_active = 41, gw_sent = []\<rparr>"
  have at_proxy: "at_proxy default_config ?st ?r = ?r"
    by (simp add: at_proxy_def get_request_def header_del_def)
  obtain l where "Allow False (0, 0) ''203.0.113.42'' (new_limiter (Fin 1) 2) = (True, l)"
    using demo_allowed by (metis (full_types) prod.collapse)
  then have "Allow False (0, 0) (ExtractIP (rq_remote ?r)) (gw_limiter ?st) = (True, l)"
    by (simp add: get_request_def demo_ip)
  from gateway_response [OF this, of "\<lambda>b. []" "\<lambda>_. 0" default_config "FromQueue 3" default_proxy ?backend]
  show ?thesis
    by (auto simp: at_proxy admits_def answer_of_def sent_for_def build_get [OF uri_ok_empty]
        ServeHTTP_def copyResponseHeaders_def excludedResponseHeaders_def)
qed

section \<open>Start-up\<close>

text \<open>
  C21. A program that starts is well set up: its configuration satisfies every constraint, the limiter and the
  waiting room satisfy their invariants with the configured rate, burst and queue, and the proxy has a
  host to talk to.
\<close>

theorem startup_sound:
  assumes "startup env = Inr pg"
  shows "config_ok (pg_config pg) \<and> limiter_ok (pg_limiter pg) \<and>
    room_ok (pg_config pg) (pg_room pg) \<and> px_cfg (pg_proxy pg) = pg_config pg \<and>
    u_host (px_target (pg_proxy pg)) \<noteq> [] \<and>
    burstSize (pg_limiter pg) = f64_of_int (sint (BurstSize (pg_config pg)))"
  using assms
  by (auto simp: startup_def new_waiting_room_def new_proxy_def limiter_ok_new room_ok_new dest: load_sound
      split: sum.splits option.splits if_splits)

lemma startup_nan:
  "\<exists>pg. startup (env_of ''PEAKSHIELD_RATE_LIMIT'' ''NaN'') = Inr pg \<and>
     pg_config pg = default_config\<lparr>RateLimit := NaN\<rparr>"
proof -
  have "Load (env_of ''PEAKSHIELD_RATE_LIMIT'' ''NaN'') = Inr (default_config\<lparr>RateLimit := NaN\<rparr>)"
    by (rule load_rate [OF parse_nan]) (simp_all add: f64_ops)
  moreover have "TargetURL (default_config\<lparr>RateLimit := NaN\<rparr>) = TargetURL default_config" by simp
  then have "\<exists>p. new_proxy (default_config\<lparr>RateLimit := NaN\<rparr>) = Inr p"
    using new_default_proxy by (auto simp: new_proxy_def split: option.splits if_splits)
  moreover have "new_waiting_room (default_config\<lparr>RateLimit := NaN\<rparr>) = Some new_room"
    by (simp add: new_waiting_room_def chan_fits_def default_config_def)
  ultimately show ?thesis by (auto simp: startup_def)
qed

text \<open>
  The validation has no upper bound on the size of the queue: a configuration with \<open>2\<^sup>4\<^sup>6\<close> places is accepted,
  and then the waiting room's \<open>make\<close> panics.
\<close>

theorem huge_queue_panics:
  "validate (default_config\<lparr>QueueSize := 2 ^ 46\<rparr>) = Inr () \<and>
   new_waiting_room (default_config\<lparr>QueueSize := 2 ^ 46\<rparr>) = None"
  by (simp add: validate_Inr new_waiting_room_def chan_fits_def default_config_def f64_ops seconds_def)

theorem startup_sound_witness:
  "\<exists>pg. startup (env_of ''PEAKSHIELD_RATE_LIMIT'' ''NaN'') = Inr pg \<and> limiter_ok (pg_limiter pg) \<and>
     config_ok (pg_config pg)"
proof -
  obtain pg where pg: "startup (env_of ''PEAKSHIELD_RATE_LIMIT'' ''NaN'') = Inr pg"
    using startup_nan by blast
  with startup_sound [OF pg] show ?thesis by blast
qed

lemma signed_wrap:
  assumes "0 \<le> v" and "v < 2 ^ 64 + 2 ^ 63"
  shows "signed_take_bit 63 (v :: int) = (if v < 2 ^ 63 then v else v - 2 ^ 64)"
proof (cases "v < 2 ^ 63")
  case True
  then show ?thesis using assms(1) by (simp add: signed_take_bit_int_eq_self)
next
  case False
  then have "(v + 2 ^ 63) mod 2 ^ 64 = (v + 2 ^ 63 - 2 ^ 64) mod 2 ^ 64"
    by (metis mod_add_self2 diff_add_cancel)
  also have "\<dots> = v + 2 ^ 63 - 2 ^ 64" using False assms(2) by (intro mod_pos_pos_trivial) simp_all
  finally show ?thesis using False by (simp add: signed_take_bit_eq_take_bit_shift take_bit_eq_mod)
qed

text \<open>
  The server's write timeout covers a wait in the queue and a call of the backend, and 15 seconds more,
  exactly as long as the sum of the two fits an \<open>int64\<close>; beyond, it wraps around.
\<close>

theorem write_timeout_covers:
  assumes "startup env = Inr pg"
  shows "let sum = sint (QueueTimeout (pg_config pg)) + sint (BackendTimeout (pg_config pg)) + 15000000000
    in sint (srv_write (pg_server pg)) = (if sum < 2 ^ 63 then sum else sum - 2 ^ 64)"
proof -
  let ?q = "QueueTimeout (pg_config pg)" and ?b = "BackendTimeout (pg_config pg)"
  have "config_ok (pg_config pg)" and srv: "pg_server pg = proxy_server (pg_config pg)"
    using assms by (auto simp: startup_def dest: load_sound split: sum.splits option.splits)
  then have pos: "0 < sint ?q" "0 < sint ?b" by (simp_all add: config_ok_def)
  have "sint (seconds 15) = 15000000000" by (simp add: seconds_def)
  moreover have "sint (?q + ?b + seconds 15) = signed_take_bit 63 (sint ?q + sint ?b + sint (seconds 15))"
    using sint_sbintrunc' [where 'a = 64, of "sint ?q + sint ?b + sint (seconds 15)"] by simp
  ultimately have "sint (srv_write (pg_server pg)) = signed_take_bit 63 (sint ?q + sint ?b + 15000000000)"
    by (simp add: srv proxy_server_def)
  moreover have "sint ?q < 2 ^ 63" "sint ?b < 2 ^ 63"
    using sint_lt [of ?q] sint_lt [of ?b] by simp_all
  ultimately show ?thesis using pos by (simp add: Let_def signed_wrap)
qed

theorem write_timeout_covers_witness:
  "\<exists>pg. startup (env_of ''PEAKSHIELD_RATE_LIMIT'' ''NaN'') = Inr pg \<and>
     sint (srv_write (pg_server pg)) = 60000000000"
proof -
  obtain pg where pg: "startup (env_of ''PEAKSHIELD_RATE_LIMIT'' ''NaN'') = Inr pg"
    and cfg: "pg_config pg = default_config\<lparr>RateLimit := NaN\<rparr>"
    using startup_nan by blast
  have "sint (QueueTimeout (pg_config pg)) = 30000000000"
    and "sint (BackendTimeout (pg_config pg)) = 15000000000"
    by (simp_all add: cfg default_config_def seconds_def)
  with write_timeout_covers [OF pg] pg show ?thesis by simp
qed

section \<open>The metrics page\<close>

text \<open>What a scraper reads of a metric: the rest of the first line that starts with its name.\<close>

definition scrape :: "bytes \<Rightarrow> bytes \<Rightarrow> bytes option" where
  "scrape name body =
     map_option (drop (Suc (length name)))
       (find (\<lambda>l. take (Suc (length name)) l = name @ '' '') (split_on CHR 0x0A body))"

lemma show_int_line: "CHR 0x0A \<notin> set (show_int i)"
  using show_nat_digits [of "CHR 0x0A"] by (auto simp: show_int_def is_digit_def)

text \<open>
  The page reads back: a scraper gets for each of the four names the value the handler read, the two
  counters of the waiting room among them.
\<close>

theorem metrics_scrape:
  "let body = concat (map call_body (metrics_handler (GetStats cfg s) n alloc))
   in scrape ''peakshield_active_requests'' body = Some (show_int (sint (activeRequests s))) \<and>
      scrape ''peakshield_queue_depth'' body = Some (show_int (sint (queueDepth s))) \<and>
      scrape ''peakshield_goroutines'' body = Some (show_int n) \<and>
      scrape ''peakshield_alloc_bytes'' body = Some (show_int (uint alloc))"
proof -
  define lines where "lines = (\<lambda>name help v. [''# HELP '' @ name @ '' '' @ help, ''# TYPE '' @ name @ '' gauge'',
      name @ '' '' @ v] :: bytes list)"
  define page where "page =
     lines ''peakshield_active_requests'' ''Number of requests currently in-flight to backend''
       (show_int (sint (activeRequests s))) @
     lines ''peakshield_queue_depth'' ''Number of requests waiting in queue'' (show_int (sint (queueDepth s))) @
     lines ''peakshield_goroutines'' ''Number of active goroutines'' (show_int n) @
     lines ''peakshield_alloc_bytes'' ''Bytes allocated and still in use'' (show_int (uint alloc))"
  have split: "split_on c (concat (map (\<lambda>l. l @ [c]) ls)) = ls @ [[]]"
    if "list_all (\<lambda>l. c \<notin> set l) ls" for c ls
    using that by (induction ls) (simp_all add: split_on_line)
  have "concat (map call_body (metrics_handler (GetStats cfg s) n alloc)) =
      concat (map (\<lambda>l. l @ [CHR 0x0A]) page)"
    by (simp add: metrics_handler_def gauge_def GetStats_def page_def lines_def)
  moreover have "list_all (\<lambda>l. CHR 0x0A \<notin> set l) page"
    by (simp add: page_def lines_def show_int_line)
  ultimately have "split_on CHR 0x0A (concat (map call_body (metrics_handler (GetStats cfg s) n alloc))) =
      page @ [[]]" by (simp add: split)
  then show ?thesis by (simp add: scrape_def page_def lines_def)
qed

end
