(* ===== verification/Concurrent_Gateway.thy ===== *)
theory Concurrent_Gateway
  imports Limiter_Race Pipeline_Props
begin

text \<open>
  The public port under load: one goroutine per request, each running the whole chain, with every
  interleaving of the limiter's critical sections, the sweep, the waiting room's atomic operations, the
  stripper's reading of the counter and the calls of the backend.  What a goroutine does in
  \<open>Limiter_Race\<close> and in \<open>Waiting_Room\<close> is one event here too; the code between touches its own request
  only.
\<close>

section \<open>Schedules of a step function\<close>

fun play :: "('e \<Rightarrow> 's \<Rightarrow> 's option) \<Rightarrow> 'e list \<Rightarrow> 's \<Rightarrow> 's option" where
  "play step [] s = Some s"
| "play step (e # es) s = (case step e s of None \<Rightarrow> None | Some s' \<Rightarrow> play step es s')"

lemma play_snoc:
  "play step (es @ [e]) s = (case play step es s of None \<Rightarrow> None | Some s' \<Rightarrow> step e s')"
  by (induction es arbitrary: s) (simp_all split: option.split)

lemma play_append:
  "play step es s0 = Some s \<Longrightarrow> play step (es @ fs) s0 = play step fs s"
  by (induction es arbitrary: s0) (auto split: option.splits)

lemma play_split:
  assumes "play step (es @ e # fs) s0 = Some t"
  obtains s s' where "play step es s0 = Some s" and "step e s = Some s'" and "play step fs s' = Some t"
  using assms by (induction es arbitrary: s0) (auto split: option.splits)

lemma play_induct [consumes 1, case_names nil step]:
  assumes "play step es s0 = Some s" and "P [] s0"
    and "\<And>es s e s'. play step es s0 = Some s \<Longrightarrow> P es s \<Longrightarrow> step e s = Some s' \<Longrightarrow> P (es @ [e]) s'"
  shows "P es s"
  using assms(1)
proof (induction es arbitrary: s rule: rev_induct)
  case (snoc e es)
  then show ?case using assms(3) by (auto simp: play_snoc split: option.splits)
qed (use assms(2) in simp)

lemma play_race: "play (race_fire fused ips) = race_exec fused ips"
proof (intro ext)
  fix es s show "play (race_fire fused ips) es s = race_exec fused ips es s"
    by (induction es arbitrary: s) (simp_all split: option.split)
qed

lemma play_room: "play (fire oor cfg) = exec oor cfg"
proof (intro ext)
  fix es s show "play (fire oor cfg) es s = exec oor cfg es s"
    by (induction es arbitrary: s) (simp_all split: option.split)
qed

text \<open>A component of a system: an event of the system is one of the component's, or leaves it alone.\<close>

locale component =
  fixes step :: "'e \<Rightarrow> 's \<Rightarrow> 's option" and part_step :: "'f \<Rightarrow> 'p \<Rightarrow> 'p option"
    and part :: "'s \<Rightarrow> 'p" and event_of :: "'e \<Rightarrow> 'f option"
  assumes moves: "step e s = Some s' \<Longrightarrow> event_of e = Some f \<Longrightarrow> part_step f (part s) = Some (part s')"
    and rests: "step e s = Some s' \<Longrightarrow> event_of e = None \<Longrightarrow> part s' = part s"
begin

lemma projects:
  "play step es s = Some s' \<Longrightarrow> play part_step (List.map_filter event_of es) (part s) = Some (part s')"
proof (induction rule: play_induct)
  case (step es s' e s'')
  then show ?case
    using moves [OF step.hyps(2)] rests [OF step.hyps(2)]
    by (cases "event_of e") (simp_all add: List.map_filter_def play_snoc)
qed (simp add: List.map_filter_def)

end

section \<open>The system\<close>

text \<open>
  The limiter with its callers, the waiting room, what the stripper read of \<open>activeRequests\<close> for a
  request, the response of a request whose handler has returned, and the requests handed to
  \<open>client.Do\<close>, in order, with the goroutine that sent them.
\<close>

record system =
  sy_race :: race
  sy_room :: room
  sy_read :: "nat \<Rightarrow> int64 option"
  sy_reply :: "nat \<Rightarrow> rwriter option"
  sy_sent :: "(nat \<times> out_request) list"

definition peer :: "request \<Rightarrow> bytes" where
  "peer r = client_ip (rq_remote r)"

definition sys_start :: "request list \<Rightarrow> limiter \<Rightarrow> system" where
  "sys_start rs l =
     \<lparr>sy_race = race_start (map peer rs) l, sy_room = new_room, sy_read = (\<lambda>_. None),
      sy_reply = (\<lambda>_. None), sy_sent = []\<rparr>"

datatype sys_event =
  Limit race_event
| Deny nat
| Room event
| TurnAway nat
| ReadActive nat
| Forward nat

definition replied :: "nat \<Rightarrow> rwriter \<Rightarrow> system \<Rightarrow> system" where
  "replied g w s = s\<lparr>sy_reply := (sy_reply s)(g := Some w)\<rparr>"

text \<open>
  The order of the chain for one goroutine \<open>g\<close>: it enters the waiting room after the limiter's yes, and the
  deferred \<open>releaseSlot\<close> runs after the handler behind it has returned.
\<close>

fun may_enter :: "request list \<Rightarrow> event \<Rightarrow> system \<Rightarrow> bool" where
  "may_enter rs (Arrive g) s \<longleftrightarrow> g < length rs \<and> callers (sy_race s) ! g = Answered True"
| "may_enter rs (Release g) s \<longleftrightarrow> sy_reply s g \<noteq> None"
| "may_enter rs e s \<longleftrightarrow> True"

text \<open>The request's own response writer, as the waiting room leaves it.\<close>

definition room_writer :: "(bytes \<Rightarrow> bytes) \<Rightarrow> nat \<Rightarrow> room \<Rightarrow> rwriter" where
  "room_writer detect g s = fold (rw.perform detect) (calls s g) (Conn fresh_conn)"

fun sys_fire ::
  "(bytes \<Rightarrow> bytes) \<Rightarrow> bool \<Rightarrow> (f64 \<Rightarrow> int) \<Rightarrow> config \<Rightarrow> proxy \<Rightarrow> (out_request \<Rightarrow> reply) \<Rightarrow>
   request list \<Rightarrow> sys_event \<Rightarrow> system \<Rightarrow> system option" where
  "sys_fire detect fused oor cfg p backend rs (Limit e) s =
     (case race_fire fused (map peer rs) e (sy_race s) of
        Some x \<Rightarrow> Some (s\<lparr>sy_race := x\<rparr>)
      | None \<Rightarrow> None)"
| "sys_fire detect fused oor cfg p backend rs (Deny g) s =
     (if g < length rs \<and> callers (sy_race s) ! g = Answered False \<and> sy_reply s g = None
      then Some (replied g
        (fold (rw.perform detect) (http_error ''429 Too Many Requests'' 429) (Conn fresh_conn)) s)
      else None)"
| "sys_fire detect fused oor cfg p backend rs (Room e) s =
     (if may_enter rs e s
      then (case fire oor cfg e (sy_room s) of Some x \<Rightarrow> Some (s\<lparr>sy_room := x\<rparr>) | None \<Rightarrow> None)
      else None)"
| "sys_fire detect fused oor cfg p backend rs (TurnAway g) s =
     (if decided (pc (sy_room s) g) = Some False \<and> sy_reply s g = None
      then Some (replied g (room_writer detect g (sy_room s)) s)
      else None)"
| "sys_fire detect fused oor cfg p backend rs (ReadActive g) s =
     (if serving (pc (sy_room s) g) \<and> sy_read s g = None
      then Some (s\<lparr>sy_read := (sy_read s)(g := Some (ActiveRequests (sy_room s)))\<rparr>)
      else None)"
| "sys_fire detect fused oor cfg p backend rs (Forward g) s =
     (case sy_read s g of
        Some n \<Rightarrow>
          if sy_reply s g = None
          then (case strip_middleware detect (\<lambda>st. sint (gw_active st)) (sint (StripThreshold cfg))
                       (proxy_handler detect p backend) (rs ! g) (room_writer detect g (sy_room s))
                       \<lparr>gw_limiter = rlim (sy_race s), gw_active = n, gw_sent = []\<rparr> of
                  (w, st) \<Rightarrow> Some (replied g w (s\<lparr>sy_sent := sy_sent s @ map (Pair g) (gw_sent st)\<rparr>)))
          else None
      | None \<Rightarrow> None)"

definition sys_runs ::
  "(bytes \<Rightarrow> bytes) \<Rightarrow> bool \<Rightarrow> (f64 \<Rightarrow> int) \<Rightarrow> config \<Rightarrow> proxy \<Rightarrow> (out_request \<Rightarrow> reply) \<Rightarrow>
   request list \<Rightarrow> limiter \<Rightarrow> sys_event list \<Rightarrow> system \<Rightarrow> bool" where
  "sys_runs detect fused oor cfg p backend rs l es s \<longleftrightarrow>
     play (sys_fire detect fused oor cfg p backend rs) es (sys_start rs l) = Some s"

fun limit_event :: "sys_event \<Rightarrow> race_event option" where
  "limit_event (Limit e) = Some e" | "limit_event _ = None"

fun room_event :: "sys_event \<Rightarrow> event option" where
  "room_event (Room e) = Some e" | "room_event _ = None"

lemma sys_fields [simp]:
  "sy_race (replied g w s) = sy_race s" "sy_room (replied g w s) = sy_room s"
  "sy_read (replied g w s) = sy_read s" "sy_sent (replied g w s) = sy_sent s"
  "sy_reply (replied g w s) = (sy_reply s)(g := Some w)"
  "sy_race (sys_start rs l) = race_start (map peer rs) l" "sy_room (sys_start rs l) = new_room"
  "sy_read (sys_start rs l) g = None" "sy_reply (sys_start rs l) g = None" "sy_sent (sys_start rs l) = []"
  by (simp_all add: replied_def sys_start_def)

text \<open>The limiter and the waiting room are components: each sees a run of its own.\<close>

interpretation lim: component "sys_fire detect fused oor cfg p backend rs" "race_fire fused (map peer rs)"
    sy_race limit_event
  for detect fused oor cfg p backend rs
proof
  show "race_fire fused (map peer rs) f (sy_race s) = Some (sy_race s')"
    if "sys_fire detect fused oor cfg p backend rs e s = Some s'" "limit_event e = Some f" for e s s' f
    using that by (cases e) (auto split: option.splits)
  show "sy_race s' = sy_race s"
    if "sys_fire detect fused oor cfg p backend rs e s = Some s'" "limit_event e = None" for e s s'
    using that by (cases e) (auto split: option.splits if_splits prod.splits)
qed

interpretation rm: component "sys_fire detect fused oor cfg p backend rs" "fire oor cfg" sy_room room_event
  for detect fused oor cfg p backend rs
proof
  show "fire oor cfg f (sy_room s) = Some (sy_room s')"
    if "sys_fire detect fused oor cfg p backend rs e s = Some s'" "room_event e = Some f" for e s s' f
    using that by (cases e) (auto split: option.splits if_splits)
  show "sy_room s' = sy_room s"
    if "sys_fire detect fused oor cfg p backend rs e s = Some s'" "room_event e = None" for e s s'
    using that by (cases e) (auto split: option.splits if_splits prod.splits)
qed

end
