(* ===== verification/Gateway_Props.thy ===== *)
theory Gateway_Props
  imports Concurrent_Gateway
begin

text \<open>
  What the system guarantees under every schedule: each response is the one the sequential chain gives,
  each request is sent at most once and only after the limiter and the waiting room let it through, the
  rate limit bounds what the backend is sent, and the stripper's decision is made on the exact count.
\<close>

section \<open>Projections\<close>

text \<open>The two shared components of the system run as they do alone.\<close>

lemma sys_projects:
  assumes "sys_runs detect fused oor cfg p backend rs l es s"
  shows "race_runs fused (map peer rs) (race_start (map peer rs) l)
      (List.map_filter limit_event es) (sy_race s)"
    and "runs oor cfg (List.map_filter room_event es) (sy_room s)"
  using lim.projects [OF assms [unfolded sys_runs_def]] rm.projects [OF assms [unfolded sys_runs_def]]
  by (simp_all add: play_race play_room race_exec_runs exec_runs)

lemma sys_induct [consumes 1, case_names nil step]:
  assumes "sys_runs detect fused oor cfg p backend rs l es s" and "P [] (sys_start rs l)"
    and "\<And>es s e s'. sys_runs detect fused oor cfg p backend rs l es s \<Longrightarrow> P es s \<Longrightarrow>
      sys_fire detect fused oor cfg p backend rs e s = Some s' \<Longrightarrow> P (es @ [e]) s'"
  shows "P es s"
  using assms(1) unfolding sys_runs_def
  by (induction rule: play_induct) (auto intro: assms(2,3) simp: sys_runs_def)

section \<open>What a component's event leaves of a request\<close>

lemma answered_stays:
  assumes "race_fire fused ips e s = Some s'" and "callers s ! g = Answered a"
  shows "callers s' ! g = Answered a"
proof (cases e)
  case (LookupE h) with assms show ?thesis by (cases "h = g") (auto split: if_splits)
next
  case (CreateE h t) with assms show ?thesis by (cases "h = g") (auto split: if_splits prod.splits)
next
  case (ConsumeE h t) with assms show ?thesis
    by (cases "h = g") (auto split: if_splits prod.splits caller.splits)
qed (use assms in \<open>auto split: if_splits option.splits prod.splits\<close>)

lemma callers_length: "race_fire fused ips e s = Some s' \<Longrightarrow> length (callers s') = length (callers s)"
  by (cases e) (auto split: if_splits option.splits prod.splits caller.splits)

lemma decided_stays:
  assumes "room_step oor cfg s e s'" and "decided (pc s g) = Some a"
  shows "decided (pc s' g) = Some a \<and> calls s' g = calls s g"
  using assms by cases auto

lemma entered_only:
  assumes "fire oor cfg e s = Some s'" and "pc s' g \<noteq> Arriving" and "pc s g = Arriving"
  shows "e = Arrive g"
  using fire_step [OF assms(1)] assms(2,3) by cases (auto split: if_splits)

lemma serving_decided: "serving q \<Longrightarrow> decided q = Some True"
  by (cases q) simp_all

section \<open>The invariant\<close>

text \<open>What the handler behind the waiting room does for a request, with \<open>n\<close> read by the stripper.\<close>

definition behind_room ::
  "(bytes \<Rightarrow> bytes) \<Rightarrow> config \<Rightarrow> proxy \<Rightarrow> (out_request \<Rightarrow> reply) \<Rightarrow> request \<Rightarrow> int64 \<Rightarrow> rwriter \<Rightarrow>
   rwriter \<times> out_request list" where
  "behind_room detect cfg p backend r n w =
     map_prod id gw_sent
       (strip_middleware detect (\<lambda>st. sint (gw_active st)) (sint (StripThreshold cfg))
         (proxy_handler detect p backend) r w \<lparr>gw_limiter = new_limiter NaN 0, gw_active = n, gw_sent = []\<rparr>)"

lemma strip_gateway:
  "strip_middleware detect (\<lambda>st. sint (gw_active st)) (sint (StripThreshold cfg))
       (proxy_handler detect p backend) r w st =
     (case behind_room detect cfg p backend r (gw_active st) w of
        (w', sent) \<Rightarrow> (w', st\<lparr>gw_sent := gw_sent st @ sent\<rparr>))"
  by (simp add: behind_room_def strip_middleware_def proxy_handler_def scripted_def Let_def split: rwriter.split)

lemma behind_sent:
  "snd (behind_room detect cfg p backend r n w) =
     sent_for p (at_proxy cfg \<lparr>gw_limiter = l, gw_active = n, gw_sent = []\<rparr> r)"
  by (simp add: behind_room_def strip_middleware_def proxy_handler_def scripted_def at_proxy_def Let_def
      split: rwriter.split)

lemma behind_length: "length (snd (behind_room detect cfg p backend r n w)) \<le> 1"
  by (subst behind_sent) (simp add: sent_for_def split: sum.split)

definition outcome_ok ::
  "(bytes \<Rightarrow> bytes) \<Rightarrow> config \<Rightarrow> proxy \<Rightarrow> (out_request \<Rightarrow> reply) \<Rightarrow> request list \<Rightarrow> system \<Rightarrow> nat \<Rightarrow>
   rwriter \<Rightarrow> out_request list \<Rightarrow> bool" where
  "outcome_ok detect cfg p backend rs s g w sent \<longleftrightarrow>
     g < length rs \<and>
     (case callers (sy_race s) ! g of
        Answered False \<Rightarrow>
          w = fold (rw.perform detect) (http_error ''429 Too Many Requests'' 429) (Conn fresh_conn) \<and> sent = []
      | Answered True \<Rightarrow>
          (case decided (pc (sy_room s) g) of
             Some False \<Rightarrow> w = room_writer detect g (sy_room s) \<and> sent = []
           | Some True \<Rightarrow>
               (\<exists>n. sy_read s g = Some n \<and>
                  (w, sent) = behind_room detect cfg p backend (rs ! g) n (room_writer detect g (sy_room s)))
           | None \<Rightarrow> False)
      | _ \<Rightarrow> False)"

definition reply_ok ::
  "(bytes \<Rightarrow> bytes) \<Rightarrow> config \<Rightarrow> proxy \<Rightarrow> (out_request \<Rightarrow> reply) \<Rightarrow> request list \<Rightarrow> system \<Rightarrow> nat \<Rightarrow> bool" where
  "reply_ok detect cfg p backend rs s g \<longleftrightarrow>
     (case sy_reply s g of
        None \<Rightarrow> filter (\<lambda>x. fst x = g) (sy_sent s) = []
      | Some w \<Rightarrow> \<exists>sent. filter (\<lambda>x. fst x = g) (sy_sent s) = map (Pair g) sent \<and>
          outcome_ok detect cfg p backend rs s g w sent)"

definition request_ok ::
  "(bytes \<Rightarrow> bytes) \<Rightarrow> config \<Rightarrow> proxy \<Rightarrow> (out_request \<Rightarrow> reply) \<Rightarrow> request list \<Rightarrow> system \<Rightarrow> nat \<Rightarrow> bool" where
  "request_ok detect cfg p backend rs s g \<longleftrightarrow>
     (pc (sy_room s) g \<noteq> Arriving \<longrightarrow> g < length rs \<and> callers (sy_race s) ! g = Answered True) \<and>
     (sy_read s g \<noteq> None \<longrightarrow> decided (pc (sy_room s) g) = Some True) \<and>
     reply_ok detect cfg p backend rs s g"

text \<open>An outcome stays, whatever the components do next.\<close>

lemma outcome_stays:
  assumes "outcome_ok detect cfg p backend rs s g w sent"
    and "\<And>a. callers (sy_race s) ! g = Answered a \<Longrightarrow> callers (sy_race s') ! g = Answered a"
    and "\<And>a. decided (pc (sy_room s) g) = Some a \<Longrightarrow>
      decided (pc (sy_room s') g) = Some a \<and> calls (sy_room s') g = calls (sy_room s) g"
    and "sy_read s' g = sy_read s g \<or> sy_read s g = None"
  shows "outcome_ok detect cfg p backend rs s' g w sent"
proof -
  have "room_writer detect g (sy_room s') = room_writer detect g (sy_room s)"
    if "decided (pc (sy_room s) g) = Some a" for a
    using assms(3) [OF that] by (simp add: room_writer_def)
  with assms show ?thesis
    by (auto simp: outcome_ok_def split: caller.splits bool.splits option.splits)
qed

lemma reply_stays:
  assumes "reply_ok detect cfg p backend rs s g"
    and "sy_reply s' g = sy_reply s g"
    and "filter (\<lambda>x. fst x = g) (sy_sent s') = filter (\<lambda>x. fst x = g) (sy_sent s)"
    and "\<And>a. callers (sy_race s) ! g = Answered a \<Longrightarrow> callers (sy_race s') ! g = Answered a"
    and "\<And>a. decided (pc (sy_room s) g) = Some a \<Longrightarrow>
      decided (pc (sy_room s') g) = Some a \<and> calls (sy_room s') g = calls (sy_room s) g"
    and "sy_read s' g = sy_read s g \<or> sy_read s g = None"
  shows "reply_ok detect cfg p backend rs s' g"
  using assms(1-3) outcome_stays [OF _ assms(4-6)]
  by (fastforce simp: reply_ok_def split: option.splits)

lemma request_ok_limit:
  assumes "request_ok detect cfg p backend rs s g"
    and "race_fire fused (map peer rs) e (sy_race s) = Some x"
  shows "request_ok detect cfg p backend rs (s\<lparr>sy_race := x\<rparr>) g"
  using assms(1) answered_stays [OF assms(2)]
  by (auto simp: request_ok_def intro: reply_stays)

lemma request_ok_room:
  assumes ok: "request_ok detect cfg p backend rs s g" and enter: "may_enter rs e s"
    and fire: "fire oor cfg e (sy_room s) = Some x"
  shows "request_ok detect cfg p backend rs (s\<lparr>sy_room := x\<rparr>) g"
proof -
  have stays: "decided (pc (sy_room s) g) = Some a \<Longrightarrow>
      decided (pc x g) = Some a \<and> calls x g = calls (sy_room s) g" for a
    using decided_stays [OF fire_step [OF fire]] by simp
  have "g < length rs \<and> callers (sy_race s) ! g = Answered True" if "pc x g \<noteq> Arriving"
    using ok enter entered_only [OF fire that] by (cases "pc (sy_room s) g = Arriving") (auto simp: request_ok_def)
  moreover have "reply_ok detect cfg p backend rs (s\<lparr>sy_room := x\<rparr>) g"
    by (rule reply_stays [of detect cfg p backend rs s]) (use ok stays in \<open>simp_all add: request_ok_def\<close>)
  ultimately show ?thesis using ok stays by (simp add: request_ok_def)
qed

lemma request_ok_other:
  assumes "request_ok detect cfg p backend rs s g" and "g \<noteq> h"
  shows "request_ok detect cfg p backend rs (replied h w s) g"
    and "request_ok detect cfg p backend rs (replied h w (s\<lparr>sy_sent := sy_sent s @ map (Pair h) qs\<rparr>)) g"
  using assms by (auto simp: request_ok_def filter_map o_def intro!: reply_stays [of detect cfg p backend rs s])

lemma request_ok_step:
  assumes ok: "\<And>g. request_ok detect cfg p backend rs s g"
    and fire: "sys_fire detect fused oor cfg p backend rs e s = Some s'"
  shows "request_ok detect cfg p backend rs s' g"
proof (cases e)
  case (Limit e')
  then show ?thesis using fire ok request_ok_limit by (auto split: option.splits)
next
  case (Room e')
  then show ?thesis using fire ok request_ok_room by (auto split: option.splits if_splits)
next
  case (Deny h)
  with fire have h: "h < length rs" "callers (sy_race s) ! h = Answered False" "sy_reply s h = None"
    and s': "s' = replied h (fold (rw.perform detect) (http_error ''429 Too Many Requests'' 429)
        (Conn fresh_conn)) s" by (auto split: if_splits)
  show ?thesis
  proof (cases "g = h")
    case True
    with h ok [of h] show ?thesis by (auto simp: s' request_ok_def reply_ok_def outcome_ok_def)
  next
    case False
    with ok show ?thesis by (simp add: s' request_ok_other)
  qed
next
  case (TurnAway h)
  with fire have h: "decided (pc (sy_room s) h) = Some False" "sy_reply s h = None"
    and s': "s' = replied h (room_writer detect h (sy_room s)) s" by (auto split: if_splits)
  then have "pc (sy_room s) h \<noteq> Arriving" by auto
  show ?thesis
  proof (cases "g = h")
    case True
    with h \<open>pc (sy_room s) h \<noteq> Arriving\<close> ok [of h] show ?thesis
      by (auto simp: s' request_ok_def reply_ok_def outcome_ok_def)
  next
    case False
    with ok show ?thesis by (simp add: s' request_ok_other)
  qed
next
  case (ReadActive h)
  with fire have h: "serving (pc (sy_room s) h)" "sy_read s h = None"
    and s': "s' = s\<lparr>sy_read := (sy_read s)(h := Some (ActiveRequests (sy_room s)))\<rparr>"
    by (auto split: if_splits)
  have "reply_ok detect cfg p backend rs s' g"
    by (rule reply_stays [of detect cfg p backend rs s]) (use ok h in \<open>auto simp: request_ok_def s'\<close>)
  with ok [of g] show ?thesis
    using serving_decided [OF h(1)] by (auto simp: s' request_ok_def)
next
  case (Forward h)
  with fire obtain n where n: "sy_read s h = Some n" "sy_reply s h = None"
    by (auto split: option.splits if_splits)
  obtain w qs where b: "behind_room detect cfg p backend (rs ! h) n (room_writer detect h (sy_room s)) = (w, qs)"
    by fastforce
  have s': "s' = replied h w (s\<lparr>sy_sent := sy_sent s @ map (Pair h) qs\<rparr>)"
    using fire n b by (simp add: Forward strip_gateway)
  have dec: "decided (pc (sy_room s) h) = Some True" using ok [of h] n by (simp add: request_ok_def)
  show ?thesis
  proof (cases "g = h")
    case True
    with n b dec ok [of h] show ?thesis
      by (auto simp: s' request_ok_def reply_ok_def outcome_ok_def filter_map o_def)
  next
    case False
    with ok show ?thesis by (simp add: s' request_ok_other)
  qed
qed

lemma sys_request_ok:
  "sys_runs detect fused oor cfg p backend rs l es s \<Longrightarrow> request_ok detect cfg p backend rs s g"
proof (induction arbitrary: g rule: sys_induct)
  case nil
  then show ?case by (simp add: request_ok_def reply_ok_def)
next
  case (step es s e s')
  then show ?case by (blast intro: request_ok_step)
qed

section \<open>Each response is the chain's\<close>

text \<open>
  C2. The concurrent system refines the sequential chain: whatever the schedule, a goroutine whose handler
  has returned has given the response, and sent the requests, that \<open>public_handler\<close> gives with the
  limiter's answer to it, the waiting room's verdict on it and the count the stripper read for it.
\<close>

theorem concurrent_refines_chain:
  assumes "sys_runs detect fused oor cfg p backend rs l0 es s" and "sy_reply s g = Some w"
  shows "\<exists>allowed v n. callers (sy_race s) ! g = Answered allowed \<and>
    (allowed \<longrightarrow> decided (pc (sy_room s) g) = Some (admits v)) \<and>
    (allowed \<and> admits v \<longrightarrow> sy_read s g = Some n) \<and>
    (\<forall>now l l'. Allow fused now (peer (rs ! g)) l = (allowed, l') \<longrightarrow>
       public_handler detect fused now oor cfg v p backend (rs ! g) (Conn fresh_conn)
         \<lparr>gw_limiter = l, gw_active = n, gw_sent = []\<rparr> =
       (w, \<lparr>gw_limiter = l', gw_active = n, gw_sent = map snd (filter (\<lambda>x. fst x = g) (sy_sent s))\<rparr>))"
proof -
  from sys_request_ok [OF assms(1), of g] assms(2) obtain sent
    where sent: "map snd (filter (\<lambda>x. fst x = g) (sy_sent s)) = sent"
      and out: "outcome_ok detect cfg p backend rs s g w sent"
    by (auto simp: request_ok_def reply_ok_def o_def)
  then obtain allowed where ans: "callers (sy_race s) ! g = Answered allowed"
    by (auto simp: outcome_ok_def split: caller.splits)
  note unfold = public_handler_unfold rl_middleware_def wait_middleware_def peer_def Let_def
  show ?thesis
  proof (cases allowed)
    case False
    with out ans sent show ?thesis
      by (intro exI [of _ False]) (auto simp: outcome_ok_def unfold)
  next
    case True
    with out ans obtain a where a: "decided (pc (sy_room s) g) = Some a"
      by (auto simp: outcome_ok_def split: option.splits)
    obtain v where v: "admits v = a" "calls (sy_room s) g = wait_calls oor cfg v"
      using room_verdict [OF sys_projects(2) [OF assms(1)] a] by blast
    have writer: "fold (rw.perform detect) (wait_calls oor cfg v) (Conn fresh_conn) =
        room_writer detect g (sy_room s)" by (simp add: room_writer_def v(2))
    show ?thesis
    proof (cases a)
      case False
      with out ans True a v writer sent show ?thesis
        by (intro exI [of _ True] exI [of _ v]) (auto simp: outcome_ok_def unfold)
    next
      case True
      with out ans \<open>allowed\<close> a obtain n where n: "sy_read s g = Some n"
        and b: "(w, sent) = behind_room detect cfg p backend (rs ! g) n (room_writer detect g (sy_room s))"
        by (auto simp: outcome_ok_def)
      with ans \<open>allowed\<close> True a v writer sent show ?thesis
        by (intro exI [of _ True] exI [of _ v] exI [of _ n])
          (auto simp: unfold strip_gateway b [symmetric])
    qed
  qed
qed

text \<open>One request let through, on an empty limiter and an idle backend.\<close>

definition one_request :: "sys_event list" where
  "one_request = [Limit (LookupE 0), Limit (CreateE 0 0), Limit (ConsumeE 0 0), Room (Arrive 0), ReadActive 0,
     Forward 0, Room (Release 0)]"

definition small_limiter :: limiter where
  "small_limiter = new_limiter (Fin (1953125 / 2 ^ 21)) 2"

lemma small_answers:
  assumes "getOrCreate 0 ip small_limiter = (b, l)"
  shows "fst (consume False 0 b l)"
proof -
  have "fst (Allow False (0, 0) ip small_limiter) = fst (consume False 0 b l)"
    using assms by (simp add: Allow_split small_limiter_def lookup_def new_limiter_def)
  moreover have "f64_of_rat 1 = Fin 1" using f64_of_rat_rep [of 1] representable_int [of 1] f64_limit_big by simp
  moreover have "f64_of_int 2 = Fin 2" using burst_exact_float(1) [of 2] by simp
  ultimately show ?thesis
    by (simp add: small_limiter_def Allow_result limiter_ok_new bucket_step_def consume_bucket_def
        refill_still fresh_bucket_def take_token_def Let_def f64_ops del: new_limiter_params(1))
qed

lemma one_request_runs:
  assumes "rs = [get_request ''/'' [] []]"
  obtains s w where "sys_runs detect False oor default_config default_proxy backend rs small_limiter one_request s"
    and "sy_reply s 0 = Some w" and "map fst (sy_sent s) = [0]" and "callers (sy_race s) ! 0 = Answered True"
proof -
  let ?ip = "peer (rs ! 0)"
  obtain b l where g: "getOrCreate 0 ?ip small_limiter = (b, l)" by fastforce
  obtain l' where c: "consume False 0 b l = (True, l')"
    using small_answers [OF g] by (metis (full_types) prod.collapse)
  have look: "lookup ip small_limiter = None" for ip
    by (simp add: small_limiter_def lookup_def new_limiter_def)
  have limit: "MaxConcurrent default_config = 50" by (simp add: default_config_def)
  obtain w qs where f: "behind_room detect default_config default_proxy backend (rs ! 0) 1 (Conn fresh_conn) = (w, qs)"
    by fastforce
  have "qs = sent_for default_proxy (at_proxy default_config
      \<lparr>gw_limiter = small_limiter, gw_active = 1, gw_sent = []\<rparr> (rs ! 0))"
    using f behind_sent by (metis snd_conv)
  also have "\<dots> \<noteq> [] \<and> length \<dots> = 1"
    by (simp add: assms at_proxy_def default_config_def sent_for_def build_get [OF uri_ok_empty])
  finally have "map fst (map (Pair (0 :: nat)) qs) = [0]" by (cases qs) auto
  moreover obtain s where "play (sys_fire detect False oor default_config default_proxy backend rs) one_request
      (sys_start rs small_limiter) = Some s" and "sy_reply s 0 = Some w" and "sy_sent s = map (Pair 0) qs"
    and "callers (sy_race s) ! 0 = Answered True"
    using g c f limit
    by (simp add: one_request_def sys_start_def race_start_def look assms strip_gateway
        room_writer_def replied_def set_caller_def ActiveRequests_def)
  ultimately show ?thesis by (intro that [of s w]) (simp_all add: sys_runs_def)
qed

definition page_backend :: "out_request \<Rightarrow> reply" where
  "page_backend q = Reply 200 [(''Content-Type'', [''text/html''])] [''<img src=a>'']"

theorem concurrent_refines_chain_witness:
  "\<exists>s w v n. sys_runs (\<lambda>b. []) False (\<lambda>_. 0) default_config default_proxy page_backend
       [get_request ''/'' [] []] small_limiter one_request s \<and> sy_reply s 0 = Some w \<and>
     (\<forall>now l l'. Allow False now (peer (get_request ''/'' [] [])) l = (True, l') \<longrightarrow>
        public_handler (\<lambda>b. []) False now (\<lambda>_. 0) default_config v default_proxy page_backend
          (get_request ''/'' [] []) (Conn fresh_conn) \<lparr>gw_limiter = l, gw_active = n, gw_sent = []\<rparr> =
        (w, \<lparr>gw_limiter = l', gw_active = n, gw_sent = map snd (sy_sent s)\<rparr>)) \<and>
     length (sy_sent s) = 1"
proof -
  obtain s w where run: "sys_runs (\<lambda>b. []) False (\<lambda>_. 0) default_config default_proxy page_backend
      [get_request ''/'' [] []] small_limiter one_request s"
    and w: "sy_reply s 0 = Some w" and sent: "map fst (sy_sent s) = [0]"
    and ans: "callers (sy_race s) ! 0 = Answered True"
    by (rule one_request_runs [OF refl])
  from sent obtain q where q: "sy_sent s = [(0, q)]" by (cases "sy_sent s") auto
  from concurrent_refines_chain [OF run w] obtain allowed v n
    where allowed: "callers (sy_race s) ! 0 = Answered allowed"
      and all: "\<forall>now l l'. Allow False now (peer ([get_request ''/'' [] []] ! 0)) l = (allowed, l') \<longrightarrow>
      public_handler (\<lambda>b. []) False now (\<lambda>_. 0) default_config v default_proxy page_backend
        ([get_request ''/'' [] []] ! 0) (Conn fresh_conn) \<lparr>gw_limiter = l, gw_active = n, gw_sent = []\<rparr> =
      (w, \<lparr>gw_limiter = l', gw_active = n, gw_sent = map snd (filter (\<lambda>x. fst x = 0) (sy_sent s))\<rparr>)"
    by blast
  have "\<forall>now l l'. Allow False now (peer (get_request ''/'' [] [])) l = (True, l') \<longrightarrow>
      public_handler (\<lambda>b. []) False now (\<lambda>_. 0) default_config v default_proxy page_backend
        (get_request ''/'' [] []) (Conn fresh_conn) \<lparr>gw_limiter = l, gw_active = n, gw_sent = []\<rparr> =
      (w, \<lparr>gw_limiter = l', gw_active = n, gw_sent = map snd (sy_sent s)\<rparr>)"
    using all allowed ans q by simp
  with run w q show ?thesis by (intro exI [of _ s] exI [of _ w] exI [of _ v] exI [of _ n]) simp
qed

section \<open>The rate limit bounds what the backend is sent\<close>

lemma serve_all_account:
  assumes r: "0 \<le> r" and B: "representable B" "1 \<le> B" "B \<le> 2 ^ 53" and T0: "0 \<le> T0"
    and "list_all (\<lambda>t. T0 \<le> sint t \<and> sint t \<le> T) ts" and "in_window B T (Some b)"
    and "serve_all fused (Fin r) (Fin B) ts b = (as, b')"
  shows "of_nat (length (filter id as)) + credit (rate_of r) B T0 T (Some b') \<le>
      credit (rate_of r) B T0 T (Some b) + of_nat (length ts) * (B / 2 ^ 52) \<and>
    in_window B T (Some b')"
  using assms(6-8)
proof (induction ts arbitrary: b as)
  case (Cons t ts)
  let ?c = "consume_bucket fused (Fin r) (Fin B) t b"
  obtain as' where all: "serve_all fused (Fin r) (Fin B) ts (snd ?c) = (as', b')" "as = fst ?c # as'"
    using Cons.prems(3) by (auto split: prod.splits)
  have t: "T0 \<le> sint t" "sint t \<le> T" "list_all (\<lambda>t. T0 \<le> sint t \<and> sint t \<le> T) ts"
    using Cons.prems(1) by simp_all
  note acc = window_account [OF Cons.prems(2) r B T0 t(1,2), of fused]
  have IH: "of_nat (length (filter id as')) + credit (rate_of r) B T0 T (Some b') \<le>
      credit (rate_of r) B T0 T (Some (snd ?c)) + of_nat (length ts) * (B / 2 ^ 52) \<and>
    in_window B T (Some b')"
    using acc(1) t(3) all(1) by (intro Cons.IH)
  moreover have "of_nat (length (filter id as)) = of_bool (fst ?c) + (of_nat (length (filter id as')) :: rat)"
    by (simp add: all(2))
  moreover have "of_nat (length (t # ts)) * (B / 2 ^ 52) = of_nat (length ts) * (B / 2 ^ 52) + B / 2 ^ 52"
    by (simp add: algebra_simps add_divide_distrib)
  ultimately show ?case using acc(2) IH by linarith
qed simp

text \<open>What a bucket grants from \<open>T0\<close> on, whatever its past.\<close>

lemma serve_all_window:
  assumes r: "0 \<le> r" and B: "representable B" "1 \<le> B" "B \<le> 2 ^ 53" and T0: "0 \<le> T0" "T0 \<le> T"
    and ts: "list_all (\<lambda>t. T0 \<le> sint t \<and> sint t \<le> T) ts" and b: "banked B b"
    and all: "serve_all fused (Fin r) (Fin B) ts b = (as, b')"
  shows "of_nat (length (filter id as)) \<le>
    B + rate_of r * of_int (T - T0) + of_nat (length ts) * (B / 2 ^ 52)"
proof -
  let ?T = "max T (sint (lastRefillNano b))"
  have "0 \<le> B" and r': "0 \<le> rate_of r" using B rate_of_nonneg [OF r] by simp_all
  note start = window_start [OF b r' T0(2) \<open>0 \<le> B\<close>]
  have "list_all (\<lambda>t. T0 \<le> sint t \<and> sint t \<le> ?T) ts" using ts by (auto simp: list_all_iff)
  note acc = serve_all_account [OF r B T0(1) this start(1) all]
  then have "0 \<le> credit (rate_of r) B T0 ?T (Some b')"
    using B r' T0 by (intro credit_nonneg) simp_all
  with acc start(2) show ?thesis by linarith
qed

lemma serve_all_banked:
  assumes r: "0 \<le> r" and B: "representable B" "1 \<le> B" "B \<le> 2 ^ 53"
    and "list_all (\<lambda>t. 0 \<le> sint t) ts" and "banked B b"
    and "serve_all fused (Fin r) (Fin B) ts b = (as, b')"
  shows "banked B b'"
  using assms(5-)
proof (induction ts arbitrary: b as)
  case (Cons t ts)
  let ?c = "consume_bucket fused (Fin r) (Fin B) t b"
  have "banked B (snd ?c)"
    using bucket_account(1,2) [OF _ r B, of b t fused] Cons.prems by (simp add: banked_def max_def)
  then show ?case using Cons by (auto split: prod.splits)
qed simp

lemma serve_all_append:
  "serve_all fused r B (ts @ us) b = (as, b'') \<Longrightarrow>
     \<exists>b' as'. serve_all fused r B ts b = (take (length ts) as, b') \<and>
       serve_all fused r B us b' = (as', b'') \<and> as = take (length ts) as @ as'"
proof (induction ts arbitrary: b as)
  case (Cons t ts)
  obtain a b1 where c: "consume_bucket fused r B t b = (a, b1)" by fastforce
  with Cons.prems obtain as1 where "serve_all fused r B (ts @ us) b1 = (as1, b'')" "as = a # as1"
    by (auto split: prod.splits)
  with Cons.IH [of b1 as1] c show ?case by auto
qed simp

text \<open>Every clock of a schedule satisfies \<open>P\<close>.\<close>

fun clocked :: "(int64 \<Rightarrow> bool) \<Rightarrow> race_event \<Rightarrow> bool" where
  "clocked P (CreateE g t) = P t"
| "clocked P (ConsumeE g t) = P t"
| "clocked P e = True"

lemma clocked_created: "list_all (clocked P) es \<Longrightarrow> list_all (created P) es"
proof -
  have "clocked P e \<Longrightarrow> created P e" for e by (cases e) simp_all
  then show "list_all (clocked P) es \<Longrightarrow> list_all (created P) es" by (simp add: list_all_iff)
qed

text \<open>The history grows at its end, by consumptions with the clocks of the schedule.\<close>

lemma served_clocked:
  assumes "play (race_fire fused ips) es s0 = Some s" and "list_all (clocked P) es"
  shows "\<exists>h. served s = served s0 @ h \<and> list_all P (times_of ip h)"
  using assms
proof (induction rule: play_induct)
  case (step es s e s')
  then obtain h where h: "served s = served s0 @ h" "list_all P (times_of ip h)" and "clocked P e" by auto
  with step.hyps(2) show ?case
    by (cases e) (auto simp: times_of_def split: if_splits option.splits prod.splits caller.splits)
qed (simp add: times_of_def)

text \<open>The callers that have an answer are those of the history.\<close>

definition answered :: "bytes list \<Rightarrow> bytes \<Rightarrow> (bool \<Rightarrow> bool) \<Rightarrow> race \<Rightarrow> nat set" where
  "answered ips ip Q s = {g. g < length ips \<and> ips ! g = ip \<and> (\<exists>a. callers s ! g = Answered a \<and> Q a)}"

lemma answered_count:
  assumes "race_runs fused ips (race_start ips l) es s"
  shows "length (callers s) = length ips \<and>
    length (filter Q (answers_of ip (served s))) = card (answered ips ip Q s)"
  using assms
proof (induction rule: race_runs.induct)
  case race_nil
  then show ?case by (simp add: race_start_def answers_of_def answered_def)
next
  case (race_snoc es s e s')
  have fin: "finite (answered ips ip Q s)" by (simp add: answered_def)
  have same: "answered ips ip Q s' = answered ips ip Q s \<and> served s' = served s"
    if "\<And>g t. e \<noteq> ConsumeE g t"
    using that race_snoc.hyps(2) race_snoc.IH
    by (cases e) (auto simp: answered_def nth_list_update split: if_splits option.splits prod.splits)
  show ?case
  proof (cases "\<exists>g t. e = ConsumeE g t")
    case False
    then show ?thesis using same race_snoc callers_length [OF race_snoc.hyps(2)] by simp
  next
    case True
    then obtain g t where e: "e = ConsumeE g t" by blast
    with race_snoc.hyps(2) obtain b a l' where g: "g < length ips" "callers s ! g = Got b"
      and s': "s' = set_caller g (Answered a) (s\<lparr>rlim := l', served := served s @ [(ips ! g, t, a)]\<rparr>)"
      by (auto split: if_splits caller.splits prod.splits)
    have "answered ips ip Q s' = (if ips ! g = ip \<and> Q a then insert g (answered ips ip Q s) else answered ips ip Q s)"
      using g race_snoc.IH by (auto simp: answered_def s' nth_list_update split: if_splits)
    moreover have "g \<notin> answered ips ip Q s" using g by (simp add: answered_def)
    ultimately show ?thesis using fin race_snoc.IH by (simp add: s' answers_of_def)
  qed
qed

text \<open>The requests of one IP among those sent.\<close>

definition sent_for_ip :: "request list \<Rightarrow> bytes \<Rightarrow> system \<Rightarrow> (nat \<times> out_request) list" where
  "sent_for_ip rs ip s = filter (\<lambda>(g, q). peer (rs ! g) = ip) (sy_sent s)"

lemma distinct_keys: "(\<And>k. length (filter (\<lambda>x. fst x = k) xs) \<le> 1) \<Longrightarrow> distinct (map fst xs)"
proof (induction xs)
  case (Cons x xs)
  have "length (filter (\<lambda>x. fst x = k) xs) \<le> 1" for k using Cons.prems [of k] by (auto split: if_splits)
  moreover have "filter (\<lambda>y. fst y = fst x) xs = []" using Cons.prems [of "fst x"] by simp
  then have "fst x \<notin> fst ` set xs" by (auto simp: filter_empty_conv)
  ultimately show ?case using Cons.IH by simp
qed simp

lemma sent_once:
  assumes "sys_runs detect fused oor cfg p backend rs l es s"
  shows "distinct (map fst (sy_sent s)) \<and>
    (\<forall>g q. (g, q) \<in> set (sy_sent s) \<longrightarrow> g < length rs \<and> callers (sy_race s) ! g = Answered True \<and>
       decided (pc (sy_room s) g) = Some True)"
proof -
  have sent: "length (filter (\<lambda>x. fst x = g) (sy_sent s)) \<le> 1 \<and>
      (filter (\<lambda>x. fst x = g) (sy_sent s) \<noteq> [] \<longrightarrow> g < length rs \<and>
         callers (sy_race s) ! g = Answered True \<and> decided (pc (sy_room s) g) = Some True)" for g
  proof (cases "sy_reply s g")
    case None
    with sys_request_ok [OF assms, of g] show ?thesis by (simp add: request_ok_def reply_ok_def)
  next
    case (Some w)
    with sys_request_ok [OF assms, of g] obtain qs
      where qs: "filter (\<lambda>x. fst x = g) (sy_sent s) = map (Pair g) qs"
        and out: "outcome_ok detect cfg p backend rs s g w qs"
      by (auto simp: request_ok_def reply_ok_def)
    have "length qs \<le> 1 \<and> (qs \<noteq> [] \<longrightarrow> callers (sy_race s) ! g = Answered True \<and>
        decided (pc (sy_room s) g) = Some True)"
      using out behind_length [of detect cfg p backend "rs ! g"]
      by (auto simp: outcome_ok_def prod_eq_iff split: caller.splits bool.splits option.splits)
    then show ?thesis using out by (simp add: qs outcome_ok_def)
  qed
  have "filter (\<lambda>x. fst x = g) (sy_sent s) \<noteq> []" if "(g, q) \<in> set (sy_sent s)" for g q
    using that by (force simp: filter_empty_conv)
  with sent distinct_keys [of "sy_sent s"] show ?thesis by blast
qed

text \<open>
  C33. A request reaches \<open>client.Do\<close> at most once, and only if the limiter said yes to its goroutine and the
  waiting room let it through.
\<close>

theorem sent_once_admitted:
  assumes "sys_runs detect fused oor cfg p backend rs l es s"
  shows "distinct (map fst (sy_sent s)) \<and>
    (\<forall>g q. (g, q) \<in> set (sy_sent s) \<longrightarrow> g < length rs \<and> callers (sy_race s) ! g = Answered True \<and>
       decided (pc (sy_room s) g) = Some True)"
  using assms by (rule sent_once)

theorem sent_once_admitted_witness:
  "\<exists>s. sys_runs (\<lambda>b. []) False (\<lambda>_. 0) default_config default_proxy page_backend
       [get_request ''/'' [] []] small_limiter one_request s \<and> map fst (sy_sent s) = [0] \<and>
     decided (pc (sy_room s) 0) = Some True"
proof -
  obtain s w where run: "sys_runs (\<lambda>b. []) False (\<lambda>_. 0) default_config default_proxy page_backend
      [get_request ''/'' [] []] small_limiter one_request s" and sent: "map fst (sy_sent s) = [0]"
    by (rule one_request_runs [OF refl])
  from sent obtain q where "sy_sent s = [(0, q)]" by (cases "sy_sent s") auto
  with sent_once_admitted [OF run] run show ?thesis by auto
qed

lemma sent_answered:
  assumes "sys_runs detect fused oor cfg p backend rs l es s"
  shows "length (sent_for_ip rs ip s) \<le> card (answered (map peer rs) ip id (sy_race s))"
proof -
  have ok: "distinct (map fst (sy_sent s))"
    "\<And>g q. (g, q) \<in> set (sy_sent s) \<Longrightarrow> g < length rs \<and> callers (sy_race s) ! g = Answered True"
    using sent_once [OF assms] by blast+
  let ?gs = "map fst (sent_for_ip rs ip s)"
  have "distinct ?gs" using ok(1) unfolding sent_for_ip_def by (rule distinct_map_filter)
  then have "length ?gs = card (set ?gs)" by (simp only: distinct_card)
  also have "\<dots> \<le> card (answered (map peer rs) ip id (sy_race s))"
    using ok(2) by (intro card_mono) (auto simp: answered_def sent_for_ip_def)
  finally show ?thesis by simp
qed

text \<open>The limiter's answers to one IP so far, and the yeses among them.\<close>

definition asked_by :: "request list \<Rightarrow> bytes \<Rightarrow> system \<Rightarrow> nat" where
  "asked_by rs ip s = card (answered (map peer rs) ip (\<lambda>_. True) (sy_race s))"

definition granted_to :: "request list \<Rightarrow> bytes \<Rightarrow> system \<Rightarrow> nat" where
  "granted_to rs ip s = card (answered (map peer rs) ip id (sy_race s))"

text \<open>What one bucket grants in the later part of its history.\<close>

lemma times_append: "times_of ip (h @ h') = times_of ip h @ times_of ip h'"
  by (simp add: times_of_def)

lemma answers_append: "answers_of ip (h @ h') = answers_of ip h @ answers_of ip h'"
  by (simp add: answers_of_def)

lemma one_bucket_window:
  assumes one: "one_bucket fused (Fin r) (Fin B) (\<lambda>t. 0 \<le> sint t) ip (h @ h') v"
    and past: "list_all (\<lambda>t. 0 \<le> sint t) (times_of ip h)"
    and now: "list_all (\<lambda>t. T0 \<le> sint t \<and> sint t \<le> T) (times_of ip h')"
    and r: "0 \<le> r" and B: "representable B" "1 \<le> B" "B \<le> 2 ^ 53" and T0: "0 \<le> T0" "T0 \<le> T"
  shows "of_nat (length (filter id (answers_of ip h'))) \<le>
    B + rate_of r * of_int (T - T0) + of_nat (length (answers_of ip h')) * (B / 2 ^ 52)"
proof (cases v)
  case None
  with one have "answers_of ip h' = []" by (simp add: one_bucket_def answers_append)
  moreover have "0 \<le> rate_of r * of_int (T - T0)"
    using rate_of_nonneg [OF r] T0 by (intro mult_nonneg_nonneg) simp_all
  ultimately show ?thesis using B by simp
next
  case (Some b)
  from Some one obtain t where t: "0 \<le> sint t"
    and all: "serve_all fused (Fin r) (Fin B) (times_of ip h @ times_of ip h') (fresh_bucket (Fin B) t) =
      (answers_of ip h @ answers_of ip h', b)"
    by (auto simp: one_bucket_def times_append answers_append)
  have len: "length (times_of ip g) = length (answers_of ip g)" for g
    by (simp add: times_of_def answers_of_def)
  from serve_all_append [OF all] obtain b1
    where "serve_all fused (Fin r) (Fin B) (times_of ip h) (fresh_bucket (Fin B) t) = (answers_of ip h, b1)"
      and later: "serve_all fused (Fin r) (Fin B) (times_of ip h') b1 = (answers_of ip h', b)"
    by (auto simp: len)
  moreover have "banked B (fresh_bucket (Fin B) t)"
    using t B by (simp add: banked_def level_ok_fresh) (simp add: fresh_bucket_def)
  ultimately have "banked B b1" using serve_all_banked [OF r B past] by blast
  from serve_all_window [OF r B T0 now this later] show ?thesis by (simp add: len)
qed

text \<open>
  C4. The limit reaches the backend, in every window of time.  Take any run of the gateway without a sweep
  and any later part of it in which the limiter's clocks are between \<open>T0\<close> and \<open>T\<close>.  Whatever the schedule,
  the requests of one IP granted in the window are at most the burst plus the rate times its length, up to
  the rounding of one refill per answer given in it; and the requests of this IP handed to the backend in
  the window are at most as many and those that had been granted before it and not yet handed over, which
  wait in the waiting room.
\<close>

theorem backend_rate_bounded:
  assumes before: "sys_runs detect fused oor cfg p backend rs (new_limiter R n) pre s1"
    and run: "sys_runs detect fused oor cfg p backend rs (new_limiter R n) (pre @ win) s"
    and calm: "list_all (Not \<circ> sweeps) (List.map_filter limit_event (pre @ win))"
    and past: "list_all (clocked (\<lambda>t. 0 \<le> sint t)) (List.map_filter limit_event pre)"
    and now: "list_all (clocked (\<lambda>t. T0 \<le> sint t \<and> sint t \<le> T)) (List.map_filter limit_event win)"
    and r: "f64_div_const R 1000000000 = Fin r" "0 \<le> r" and n: "1 \<le> n" "n \<le> 2 ^ 53"
    and T0: "0 \<le> T0" "T0 \<le> T"
  shows "let bound = of_int n + r * (1 + 1 / 2 ^ 51) * of_int (T - T0) +
        (of_nat (asked_by rs ip s) - of_nat (asked_by rs ip s1)) * (of_int n / 2 ^ 52)
    in of_nat (granted_to rs ip s) - of_nat (granted_to rs ip s1) \<le> bound \<and>
       of_nat (length (sent_for_ip rs ip s)) - of_nat (length (sent_for_ip rs ip s1)) \<le>
         bound + (of_nat (granted_to rs ip s1) - of_nat (length (sent_for_ip rs ip s1)))"
proof -
  let ?B = "of_int n :: rat" and ?P = "\<lambda>t :: int64. 0 \<le> sint t"
  let ?fire = "race_fire fused (map peer rs)" and ?ev = "List.map_filter limit_event"
  have n': "1 \<le> ?B" "?B \<le> 2 ^ 53" using n by (simp_all add: of_int_le_iff [of n "2 ^ 53", simplified])
  have B: "f64_of_int n = Fin ?B" "representable ?B" using n by (intro burst_exact_float; simp)+
  note race1 = sys_projects(1) [OF before] and race = sys_projects(1) [OF run]
  have pre: "play ?fire (?ev pre) (race_start (map peer rs) (new_limiter R n)) = Some (sy_race s1)"
    using lim.projects [OF before [unfolded sys_runs_def]] by simp
  have win: "play ?fire (?ev win) (sy_race s1) = Some (sy_race s)"
    using lim.projects run play_append [OF before [unfolded sys_runs_def]]
    by (simp add: sys_runs_def)
  obtain h where h: "served (sy_race s1) = h" "list_all ?P (times_of ip h)"
    using served_clocked [OF pre past] by (auto simp: race_start_def)
  obtain h' where h': "served (sy_race s) = h @ h'"
    "list_all (\<lambda>t. T0 \<le> sint t \<and> sint t \<le> T) (times_of ip h')"
    using served_clocked [OF win now] h(1) by auto
  have "clocked ?P e" if "clocked (\<lambda>t. T0 \<le> sint t \<and> sint t \<le> T) e" for e
    using that T0 by (cases e) simp_all
  then have "list_all (clocked ?P) (?ev win)" using now by (rule list.pred_mono_strong [rotated])
  then have "list_all (created ?P) (?ev (pre @ win))"
    using past by (intro clocked_created) (simp add: map_filter_append)
  then have one: "one_bucket fused (Fin r) (Fin ?B) ?P ip (h @ h') (view (rlim (sy_race s)) ip)"
    using inv_runs [OF race race_inv_start calm] r B h'(1) by (simp add: race_inv_def)
  have count: "length (filter Q (answers_of ip h)) = card (answered (map peer rs) ip Q (sy_race s1))"
    "length (filter Q (answers_of ip (h @ h'))) = card (answered (map peer rs) ip Q (sy_race s))" for Q
    using answered_count [OF race1, of Q ip] answered_count [OF race, of Q ip] h(1) h'(1) by simp_all
  have "length (filter id (answers_of ip h')) + granted_to rs ip s1 = granted_to rs ip s"
    "length (answers_of ip h') + asked_by rs ip s1 = asked_by rs ip s"
    using count [of id] count [of "\<lambda>_. True"] by (simp_all add: granted_to_def asked_by_def answers_append)
  then have diff: "of_nat (length (filter id (answers_of ip h'))) =
      (of_nat (granted_to rs ip s) - of_nat (granted_to rs ip s1) :: rat)"
    "of_nat (length (answers_of ip h')) = (of_nat (asked_by rs ip s) - of_nat (asked_by rs ip s1) :: rat)"
    by (simp_all flip: of_nat_add add: eq_diff_eq)
  have "length (sent_for_ip rs ip s) \<le> granted_to rs ip s"
    using sent_answered [OF run, of ip] by (simp add: granted_to_def)
  then have "of_nat (length (sent_for_ip rs ip s)) \<le> (of_nat (granted_to rs ip s) :: rat)" by simp
  moreover note one_bucket_window [OF one h(2) h'(2) r(2) B(2) n' T0, unfolded diff]
  ultimately show ?thesis unfolding rate_of_def Let_def by linarith
qed

text \<open>One request before the window, which asks and is sent in it.\<close>

theorem backend_rate_bounded_witness:
  "\<exists>s. sys_runs (\<lambda>b. []) False (\<lambda>_. 0) default_config default_proxy page_backend
       [get_request ''/'' [] []] (new_limiter (Fin (1953125 / 2 ^ 21)) 2) one_request s \<and>
     of_nat (length (sent_for_ip [get_request ''/'' [] []] (peer (get_request ''/'' [] [])) s)) \<le>
       of_int 2 + (1 / 2 ^ 30) * (1 + 1 / 2 ^ 51) * of_int (0 - 0) +
       of_nat (asked_by [get_request ''/'' [] []] (peer (get_request ''/'' [] [])) s) *
         (of_int 2 / 2 ^ 52 :: rat)"
proof -
  let ?rs = "[get_request ''/'' [] []]" and ?l = "new_limiter (Fin (1953125 / 2 ^ 21)) 2"
  let ?ip = "peer (get_request ''/'' [] [])" and ?pre = "[Limit (LookupE 0)]"
  let ?runs = "sys_runs (\<lambda>b. []) False (\<lambda>_. 0) default_config default_proxy page_backend ?rs ?l"
  obtain s w where run: "?runs one_request s" by (rule one_request_runs [OF refl, unfolded small_limiter_def])
  have "?pre @ tl one_request = one_request" by (simp add: one_request_def)
  with run have run': "?runs (?pre @ tl one_request) s" by (simp only:)
  have "lookup ?ip ?l = None" by (simp add: lookup_def new_limiter_def)
  then have "\<exists>s1. ?runs ?pre s1 \<and> callers (sy_race s1) = [Missed]"
    by (simp add: sys_runs_def sys_start_def race_start_def set_caller_def)
  then obtain s1 where pre: "?runs ?pre s1" and "callers (sy_race s1) = [Missed]" by blast
  then have none: "granted_to ?rs ?ip s1 = 0" "asked_by ?rs ?ip s1 = 0"
    by (auto simp: granted_to_def asked_by_def answered_def)
  have calm: "list_all (Not \<circ> sweeps) (List.map_filter limit_event (?pre @ tl one_request))"
    and past: "list_all (clocked (\<lambda>t. 0 \<le> sint t)) (List.map_filter limit_event ?pre)"
    and now: "list_all (clocked (\<lambda>t. 0 \<le> sint t \<and> sint t \<le> 0)) (List.map_filter limit_event (tl one_request))"
    by (simp_all add: one_request_def map_filter_simps)
  have "of_nat (length (sent_for_ip ?rs ?ip s)) \<le> of_int 2 + (1 / 2 ^ 30) * (1 + 1 / 2 ^ 51) * of_int (0 - 0) +
      of_nat (asked_by ?rs ?ip s) * (of_int 2 / 2 ^ 52 :: rat)"
    using backend_rate_bounded [OF pre run' calm past now rate_witness, of ?ip] none by (simp add: Let_def)
  with run show ?thesis by blast
qed

section \<open>The stripper's decision\<close>

text \<open>
  C23. The count the stripper decides on is exact: a request reads \<open>activeRequests\<close> only while the backend is to
  serve it, and what it reads is the number of requests that hold a slot at that moment, itself among
  them (one that found the limit reached and has not yet given its slot back counts too).
\<close>

theorem strip_reads_exact:
  assumes run: "sys_runs detect fused oor cfg p backend rs l es s"
    and fire: "sys_fire detect fused oor cfg p backend rs (ReadActive g) s = Some s'"
    and few: "length rs < 2 ^ 63"
  shows "\<exists>n. sy_read s' g = Some n \<and> serving (pc (sy_room s) g) \<and>
    sint n = occ counted (pc (sy_room s)) \<and> 1 \<le> sint n \<and> sint n \<le> int (length rs)"
proof -
  let ?pc = "pc (sy_room s)"
  have fin: "finite_room (sy_room s)" and cnt: "activeRequests (sy_room s) = of_int (occ counted ?pc)"
    using runs_parts [OF sys_projects(2) [OF run]] by (simp_all add: counters_ok_def)
  from fire have g: "serving (?pc g)" and read: "sy_read s' g = Some (activeRequests (sy_room s))"
    by (auto simp: ActiveRequests_def split: if_splits)
  have "{h. counted (?pc h)} \<subseteq> {..<length rs}"
  proof
    fix h assume "h \<in> {h. counted (?pc h)}"
    then have "?pc h \<noteq> Arriving" by auto
    with sys_request_ok [OF run, of h] show "h \<in> {..<length rs}" by (simp add: request_ok_def)
  qed
  then have le: "occ counted ?pc \<le> int (length rs)"
    using card_mono [of "{..<length rs}"] by (fastforce simp: occ_def)
  have "g \<in> {h. counted (?pc h)}" using g by (auto elim: serving.elims)
  moreover have "finite {h. counted (?pc h)}" using fin by (intro finite_pred(1)) simp_all
  ultimately have "1 \<le> occ counted ?pc"
    unfolding occ_def by (metis One_nat_def Suc_leI card_gt_0_iff empty_iff of_nat_1 of_nat_le_iff)
  moreover have "sint (activeRequests (sy_room s)) = occ counted ?pc"
    unfolding cnt using le few calculation
    by (simp only: sint_sbintrunc') (simp add: signed_take_bit_int_eq_self)
  ultimately show ?thesis using g read le by auto
qed

theorem strip_reads_exact_witness:
  "\<exists>s s' n. sys_runs (\<lambda>b. []) False (\<lambda>_. 0) default_config default_proxy page_backend
       [get_request ''/'' [] []] small_limiter (take 4 one_request) s \<and>
     sys_fire (\<lambda>b. []) False (\<lambda>_. 0) default_config default_proxy page_backend
       [get_request ''/'' [] []] (ReadActive 0) s = Some s' \<and>
     sy_read s' 0 = Some n \<and> sint n = occ counted (pc (sy_room s)) \<and> sint n = 1"
proof -
  obtain t w where "sys_runs (\<lambda>b. []) False (\<lambda>_. 0) default_config default_proxy page_backend
      [get_request ''/'' [] []] small_limiter (take 4 one_request @ ReadActive 0 # drop 5 one_request) t"
    by (rule one_request_runs [OF refl]) (simp add: one_request_def)
  then obtain s s' where run: "sys_runs (\<lambda>b. []) False (\<lambda>_. 0) default_config default_proxy page_backend
      [get_request ''/'' [] []] small_limiter (take 4 one_request) s"
    and fire: "sys_fire (\<lambda>b. []) False (\<lambda>_. 0) default_config default_proxy page_backend
       [get_request ''/'' [] []] (ReadActive 0) s = Some s'"
    unfolding sys_runs_def by (rule play_split)
  from strip_reads_exact [OF run fire] run fire show ?thesis by fastforce
qed

end
