(* ===== verification/Lifecycle.thy ===== *)
theory Lifecycle
  imports Pipeline_Props
begin

text \<open>
  The process of \<open>src/main.go\<close> after its start-up: the goroutines of the two servers, the wait for a
  signal, the two \<open>Shutdown\<close> goroutines with their common deadline and the wait group.  Of \<open>http.Server\<close>
  and \<open>os/signal\<close> the model has what their documentation states: a closing server accepts nothing
  and its \<open>ListenAndServe\<close> returns \<open>ErrServerClosed\<close>; \<open>Shutdown\<close> returns when no request is in flight or
  its context is done; a notified channel gets a signal if it has room, and a signal before \<open>Notify\<close>
  ends the process.
\<close>

section \<open>The process\<close>

datatype which = Public | Metrics

datatype main_pc = Spawning | Notifying | AwaitSignal | Stopping | WaitAll

datatype serve_pc = Unstarted | Launched | Accepting | Returned

datatype shutdown_pc = NotBegun | Begun | Polling | Finished

datatype status = Running | Exited nat | Killed

text \<open>One \<open>http.Server\<close>: its \<open>ListenAndServe\<close> goroutine, whether it is closing, its requests in flight and its
  \<open>Shutdown\<close> goroutine.\<close>

record server =
  sv_serve :: serve_pc
  sv_closing :: bool
  sv_active :: nat
  sv_shutdown :: shutdown_pc

text \<open>The clock is in nanoseconds; \<open>pr_cancelled\<close> tells whether the limiter's context is cancelled.\<close>

record process =
  pr_main :: main_pc
  pr_status :: status
  pr_now :: int
  pr_notify :: bool
  pr_stopChan :: "unit list"
  pr_deadline :: "int option"
  pr_wg :: nat
  pr_server :: "which \<Rightarrow> server"
  pr_cancelled :: bool

definition new_process :: process where
  "new_process =
     \<lparr>pr_main = Spawning, pr_status = Running, pr_now = 0, pr_notify = False, pr_stopChan = [],
      pr_deadline = None, pr_wg = 0,
      pr_server = (\<lambda>_. \<lparr>sv_serve = Unstarted, sv_closing = False, sv_active = 0, sv_shutdown = NotBegun\<rparr>),
      pr_cancelled = False\<rparr>"

text \<open>A start-up error exits with status 1 before there is any server, a panic of the start-up with 2.\<close>

definition main_start :: "environ \<Rightarrow> process" where
  "main_start env =
     (case startup env of Inl e \<Rightarrow> new_process\<lparr>pr_status := Exited (exit_code e)\<rparr> | Inr pg \<Rightarrow> new_process)"

datatype proc_event =
  Spawn
| Listens which
| ListenFails which
| Accept which
| Complete which
| AcceptFails which
| NotifyE
| Signal
| ReceiveSignal
| Launch
| CallShutdown which
| Drained which
| DeadlineExceeded which
| WaitReturns
| Tick nat

definition on_server :: "which \<Rightarrow> (server \<Rightarrow> server) \<Rightarrow> process \<Rightarrow> process" where
  "on_server k f s = s\<lparr>pr_server := (pr_server s)(k := f (pr_server s k))\<rparr>"

text \<open>\<open>err != nil && err != http.ErrServerClosed\<close> of the two serving goroutines.\<close>

definition serve_ends :: "which \<Rightarrow> process \<Rightarrow> process" where
  "serve_ends k s =
     (if sv_closing (pr_server s k) then on_server k (sv_serve_update (\<lambda>_. Returned)) s
      else s\<lparr>pr_status := Exited 1\<rparr>)"

text \<open>\<open>defer wg.Done()\<close>: \<open>Shutdown\<close> has returned, with or without an error.\<close>

definition shutdown_returns :: "which \<Rightarrow> process \<Rightarrow> process" where
  "shutdown_returns k s = on_server k (sv_shutdown_update (\<lambda>_. Finished)) (s\<lparr>pr_wg := pr_wg s - 1\<rparr>)"

definition grace :: int64 where "grace = seconds 15"

fun proc_step :: "proc_event \<Rightarrow> process \<Rightarrow> process option" where
  "proc_step Spawn s =
     (if pr_main s = Spawning
      then Some (on_server Public (sv_serve_update (\<lambda>_. Launched))
                  (on_server Metrics (sv_serve_update (\<lambda>_. Launched)) (s\<lparr>pr_main := Notifying\<rparr>)))
      else None)"
| "proc_step (Listens k) s =
     (if sv_serve (pr_server s k) = Launched
      then Some (if sv_closing (pr_server s k) then serve_ends k s
                 else on_server k (sv_serve_update (\<lambda>_. Accepting)) s)
      else None)"
| "proc_step (ListenFails k) s =
     (if sv_serve (pr_server s k) = Launched then Some (serve_ends k s) else None)"
| "proc_step (Accept k) s =
     (if sv_serve (pr_server s k) = Accepting \<and> \<not> sv_closing (pr_server s k)
      then Some (on_server k (sv_active_update Suc) s)
      else None)"
| "proc_step (Complete k) s =
     (if 0 < sv_active (pr_server s k) then Some (on_server k (sv_active_update (\<lambda>n. n - 1)) s) else None)"
| "proc_step (AcceptFails k) s =
     (if sv_serve (pr_server s k) = Accepting then Some (serve_ends k s) else None)"
| "proc_step NotifyE s =
     (if pr_main s = Notifying then Some (s\<lparr>pr_main := AwaitSignal, pr_notify := True\<rparr>) else None)"
| "proc_step Signal s =
     (if pr_notify s
      then (case chan_send 1 () (pr_stopChan s) of
              Some c \<Rightarrow> Some (s\<lparr>pr_stopChan := c\<rparr>)
            | None \<Rightarrow> Some s)
      else Some (s\<lparr>pr_status := Killed\<rparr>))"
| "proc_step ReceiveSignal s =
     (if pr_main s = AwaitSignal
      then (case chan_recv (pr_stopChan s) of
              Some (u, c) \<Rightarrow> Some (s\<lparr>pr_main := Stopping, pr_stopChan := c\<rparr>)
            | None \<Rightarrow> None)
      else None)"
| "proc_step Launch s =
     (if pr_main s = Stopping
      then Some (on_server Public (sv_shutdown_update (\<lambda>_. Begun))
                  (on_server Metrics (sv_shutdown_update (\<lambda>_. Begun))
                    (s\<lparr>pr_main := WaitAll, pr_deadline := Some (pr_now s + sint grace), pr_wg := 2\<rparr>)))
      else None)"
| "proc_step (CallShutdown k) s =
     (if sv_shutdown (pr_server s k) = Begun
      then Some (on_server k (\<lambda>v. v\<lparr>sv_closing := True, sv_shutdown := Polling\<rparr>) s)
      else None)"
| "proc_step (Drained k) s =
     (if sv_shutdown (pr_server s k) = Polling \<and> sv_active (pr_server s k) = 0
      then Some (shutdown_returns k s) else None)"
| "proc_step (DeadlineExceeded k) s =
     (case pr_deadline s of
        Some d \<Rightarrow>
          if sv_shutdown (pr_server s k) = Polling \<and> d \<le> pr_now s then Some (shutdown_returns k s) else None
      | None \<Rightarrow> None)"
| "proc_step WaitReturns s =
     (if pr_main s = WaitAll \<and> pr_wg s = 0
      then Some (s\<lparr>pr_status := Exited 0, pr_cancelled := True\<rparr>) else None)"
| "proc_step (Tick n) s = Some (s\<lparr>pr_now := pr_now s + int n\<rparr>)"

text \<open>Nothing happens in a process that has ended.\<close>

definition proc_fire :: "proc_event \<Rightarrow> process \<Rightarrow> process option" where
  "proc_fire e s = (if pr_status s = Running then proc_step e s else None)"

inductive proc_runs :: "environ \<Rightarrow> proc_event list \<Rightarrow> process \<Rightarrow> bool" for env :: environ where
  proc_nil: "proc_runs env [] (main_start env)"
| proc_snoc: "proc_runs env es s \<Longrightarrow> proc_fire e s = Some s' \<Longrightarrow> proc_runs env (es @ [e]) s'"

inductive_cases proc_snocE: "proc_runs env (es @ [e]) s"

fun proc_exec :: "proc_event list \<Rightarrow> process \<Rightarrow> process option" where
  "proc_exec [] s = Some s"
| "proc_exec (e # es) s = (case proc_fire e s of None \<Rightarrow> None | Some s' \<Rightarrow> proc_exec es s')"

lemma proc_exec_runs:
  "proc_exec es s = Some t \<Longrightarrow> proc_runs env fs s \<Longrightarrow> proc_runs env (fs @ es) t"
proof (induction es arbitrary: s fs)
  case (Cons e es)
  then show ?case using proc_snoc by (fastforce split: option.splits)
qed simp

section \<open>The invariant\<close>

lemma server_fields [simp]:
  "pr_server (on_server k f s) j = (if j = k then f (pr_server s k) else pr_server s j)"
  "pr_main (on_server k f s) = pr_main s" "pr_status (on_server k f s) = pr_status s"
  "pr_now (on_server k f s) = pr_now s" "pr_deadline (on_server k f s) = pr_deadline s"
  "pr_wg (on_server k f s) = pr_wg s" "pr_stopChan (on_server k f s) = pr_stopChan s"
  "pr_notify (on_server k f s) = pr_notify s" "pr_cancelled (on_server k f s) = pr_cancelled s"
  by (simp_all add: on_server_def)

fun shutting :: "shutdown_pc \<Rightarrow> bool" where
  "shutting Begun = True" | "shutting Polling = True" | "shutting _ = False"

fun stopped :: "shutdown_pc \<Rightarrow> bool" where
  "stopped Polling = True" | "stopped Finished = True" | "stopped _ = False"

definition server_ok :: "process \<Rightarrow> server \<Rightarrow> bool" where
  "server_ok s v \<longleftrightarrow>
     sv_closing v = stopped (sv_shutdown v) \<and>
     (pr_main s = WaitAll \<longleftrightarrow> sv_shutdown v \<noteq> NotBegun) \<and>
     (sv_serve v = Unstarted \<longleftrightarrow> pr_main s = Spawning) \<and>
     (sv_shutdown v = Finished \<and> 0 < sv_active v \<longrightarrow> (\<exists>d. pr_deadline s = Some d \<and> d \<le> pr_now s))"

definition servers_ok :: "process \<Rightarrow> bool" where
  "servers_ok s \<longleftrightarrow> (\<forall>k. server_ok s (pr_server s k))"

definition group_ok :: "process \<Rightarrow> bool" where
  "group_ok s \<longleftrightarrow>
     pr_wg s = of_bool (shutting (sv_shutdown (pr_server s Public))) +
       of_bool (shutting (sv_shutdown (pr_server s Metrics)))"

definition main_ok :: "process \<Rightarrow> bool" where
  "main_ok s \<longleftrightarrow>
     (pr_notify s \<longleftrightarrow> pr_main s \<noteq> Spawning \<and> pr_main s \<noteq> Notifying) \<and> length (pr_stopChan s) \<le> 1 \<and>
     (pr_status s = Exited 0 \<longrightarrow> pr_main s = WaitAll \<and> pr_wg s = 0) \<and>
     (pr_cancelled s \<longleftrightarrow> pr_status s = Exited 0)"

lemma exit_code_pos [simp]: "0 < exit_code e"
  by (simp add: exit_code_def split: startup_error.split)

lemma ok_start: "servers_ok (main_start env)" "group_ok (main_start env)" "main_ok (main_start env)"
  by (simp_all add: main_start_def new_process_def servers_ok_def server_ok_def group_ok_def main_ok_def
      split: sum.split)

lemma fire_step_proc: "proc_fire e s = Some s' \<longleftrightarrow> pr_status s = Running \<and> proc_step e s = Some s'"
  by (simp add: proc_fire_def)

text \<open>The events as equations between states.\<close>

lemmas step_cases = serve_ends_def shutdown_returns_def chan_simps

fun which_of :: "proc_event \<Rightarrow> which" where
  "which_of (Listens k) = k" | "which_of (ListenFails k) = k" | "which_of (Accept k) = k"
| "which_of (Complete k) = k" | "which_of (AcceptFails k) = k" | "which_of (CallShutdown k) = k"
| "which_of (Drained k) = k" | "which_of (DeadlineExceeded k) = k" | "which_of e = Public"

lemma servers_ok_step:
  assumes "proc_step e s = Some s'" and "servers_ok s"
  shows "servers_ok s'"
proof -
  have "server_ok s' (pr_server s' j)" for j
    using assms(1) assms(2) [unfolded servers_ok_def, THEN spec, of j]
    by (cases j; cases e) (clarsimp simp: server_ok_def step_cases split: if_splits option.splits)+
  then show ?thesis by (simp add: servers_ok_def)
qed

lemma group_ok_step:
  assumes "proc_step e s = Some s'" and "group_ok s"
  shows "group_ok s'"
  using assms
  by (cases "which_of e"; cases e)
    (clarsimp simp: group_ok_def step_cases of_bool_def split: if_splits option.splits)+

lemma main_ok_step:
  assumes "proc_step e s = Some s'" and "pr_status s = Running" and "main_ok s" and "group_ok s"
  shows "main_ok s'"
  using assms
  by (cases e) (clarsimp simp: main_ok_def group_ok_def step_cases split: if_splits option.splits)+

lemma proc_ok: "proc_runs env es s \<Longrightarrow> servers_ok s \<and> group_ok s \<and> main_ok s"
proof (induction rule: proc_runs.induct)
  case (proc_snoc es s e s')
  then show ?case by (auto simp: fire_step_proc intro: servers_ok_step group_ok_step main_ok_step)
qed (simp add: ok_start)

lemma proc_notified: "proc_runs env es s \<Longrightarrow> pr_stopChan s \<noteq> [] \<Longrightarrow> pr_notify s"
proof (induction rule: proc_runs.induct)
  case proc_nil
  then show ?case by (simp add: main_start_def new_process_def split: sum.splits)
next
  case (proc_snoc es s e s')
  then have "proc_step e s = Some s'" by (simp add: fire_step_proc)
  then show ?case using proc_snoc.IH proc_snoc.prems
    by (cases e) (clarsimp simp: step_cases split: if_splits option.splits)+
qed

section \<open>Exit\<close>

text \<open>The time that passes in a schedule.\<close>

fun ticks :: "proc_event list \<Rightarrow> int" where
  "ticks [] = 0"
| "ticks (Tick n # es) = int n + ticks es"
| "ticks (e # es) = ticks es"

lemma ticks_append: "ticks (es @ fs) = ticks es + ticks fs"
  by (induction es rule: ticks.induct) simp_all

lemma now_step: "proc_step e s = Some s' \<Longrightarrow> pr_now s' = pr_now s + ticks [e]"
  by (cases e) (clarsimp simp: step_cases split: if_splits option.splits)+

text \<open>Where the shutdown began in the schedule.\<close>

definition begun_at :: "proc_event list \<Rightarrow> process \<Rightarrow> bool" where
  "begun_at es s \<longleftrightarrow>
     (\<exists>fs gs. es = fs @ Launch # gs \<and> pr_deadline s = Some (pr_now s - ticks gs + sint grace))"

lemma begun_step:
  assumes "proc_step e s = Some s'" and "pr_main s = WaitAll" and "begun_at es s"
  shows "pr_main s' = WaitAll \<and> begun_at (es @ [e]) s'"
proof -
  from assms(3) obtain fs gs where es: "es = fs @ Launch # gs"
    and d: "pr_deadline s = Some (pr_now s - ticks gs + sint grace)" by (auto simp: begun_at_def)
  have same: "pr_main s' = WaitAll \<and> pr_deadline s' = pr_deadline s"
    using assms(1,2) by (cases e) (clarsimp simp: step_cases split: if_splits option.splits)+
  have "es @ [e] = fs @ Launch # (gs @ [e])" by (simp add: es)
  moreover have "pr_deadline s' = Some (pr_now s' - ticks (gs @ [e]) + sint grace)"
    using same d now_step [OF assms(1)] by (simp add: ticks_append)
  ultimately show ?thesis using same unfolding begun_at_def by blast
qed

lemma proc_begun: "proc_runs env es s \<Longrightarrow> pr_main s = WaitAll \<Longrightarrow> begun_at es s"
proof (induction rule: proc_runs.induct)
  case proc_nil
  then show ?case by (simp add: main_start_def new_process_def split: sum.splits)
next
  case (proc_snoc es s e s')
  then have step: "proc_step e s = Some s'" by (simp add: fire_step_proc)
  show ?case
  proof (cases "pr_main s = WaitAll")
    case True
    then show ?thesis using begun_step [OF step] proc_snoc.IH by blast
  next
    case False
    then have "e = Launch" and "pr_deadline s' = Some (pr_now s' + sint grace)"
      using step proc_snoc.prems
      by (cases e; clarsimp simp: step_cases split: if_splits option.splits)+
    then show ?thesis unfolding begun_at_def by (intro exI [of _ es] exI [of _ "[]"]) simp
  qed
qed

text \<open>The signal behind every shutdown.\<close>

lemma proc_signalled:
  "proc_runs env es s \<Longrightarrow> pr_stopChan s \<noteq> [] \<or> pr_main s = Stopping \<or> pr_main s = WaitAll \<Longrightarrow> Signal \<in> set es"
proof (induction rule: proc_runs.induct)
  case proc_nil
  then show ?case by (simp add: main_start_def new_process_def split: sum.splits)
next
  case (proc_snoc es s e s')
  then have step: "proc_step e s = Some s'" by (simp add: fire_step_proc)
  then have "e = Signal \<or> pr_stopChan s \<noteq> [] \<or> pr_main s = Stopping \<or> pr_main s = WaitAll"
    using proc_snoc.prems by (cases e; clarsimp simp: step_cases split: if_splits option.splits)+
  then show ?case using proc_snoc.IH by auto
qed

text \<open>
  C25. A clean exit is a graceful one: the process exits with status 0 only after a signal, with the limiter's
  context cancelled and both servers closed and shut down; and a request is cut off by it only if the
  grace period of 15 seconds had passed since the shutdown began.
\<close>

theorem exit_zero_graceful:
  assumes "proc_runs env es s" and "pr_status s = Exited 0"
  shows "Signal \<in> set es \<and> pr_cancelled s \<and>
    (\<forall>k. sv_closing (pr_server s k) \<and> sv_shutdown (pr_server s k) = Finished \<and>
       (0 < sv_active (pr_server s k) \<longrightarrow> (\<exists>fs gs. es = fs @ Launch # gs \<and> 15000000000 \<le> ticks gs)))"
proof -
  have ok: "server_ok s (pr_server s k)" "group_ok s" and main: "pr_main s = WaitAll" "pr_wg s = 0"
    and cancelled: "pr_cancelled s" for k
    using proc_ok [OF assms(1)] assms(2) by (simp_all add: servers_ok_def main_ok_def)
  have "\<not> shutting (sv_shutdown (pr_server s k))" for k
    using ok(2) main(2) by (cases k) (simp_all add: group_ok_def)
  moreover have "sv_shutdown (pr_server s k) \<noteq> NotBegun" for k using ok(1) main(1) by (simp add: server_ok_def)
  ultimately have fin: "sv_shutdown (pr_server s k) = Finished" for k
    by (metis shutdown_pc.exhaust shutting.simps(1,2))
  have "sint grace = 15000000000" by (simp add: grace_def seconds_def)
  with proc_begun [OF assms(1) main(1)] obtain fs gs where es: "es = fs @ Launch # gs"
    and d: "pr_deadline s = Some (pr_now s - ticks gs + 15000000000)" by (auto simp: begun_at_def)
  have "15000000000 \<le> ticks gs" if "0 < sv_active (pr_server s k)" for k
    using that fin [of k] ok(1) [of k] d by (simp add: server_ok_def)
  then have "0 < sv_active (pr_server s k) \<longrightarrow> (\<exists>fs gs. es = fs @ Launch # gs \<and> 15000000000 \<le> ticks gs)" for k
    using es by blast
  moreover have "sv_closing (pr_server s k)" for k using ok(1) [of k] fin [of k] by (simp add: server_ok_def)
  ultimately show ?thesis using proc_signalled [OF assms(1)] main(1) fin cancelled by blast
qed

text \<open>A run with one request that completes, and one that is cut off.\<close>

definition up :: "proc_event list" where
  "up = [Spawn, Listens Public, Listens Metrics, NotifyE, Accept Public, Signal, ReceiveSignal, Launch,
     CallShutdown Public, CallShutdown Metrics, Drained Metrics]"

lemma main_starts: "\<exists>env. main_start env = new_process"
  using startup_nan by (auto simp: main_start_def) (metis sum.simps(6))

lemma cut_off_runs:
  obtains s where "proc_exec (up @ [Tick 15000000000, DeadlineExceeded Public, WaitReturns]) new_process = Some s"
    and "pr_status s = Exited 0" and "sv_active (pr_server s Public) = 1"
  by (simp add: up_def new_process_def proc_fire_def chan_send_def shutdown_returns_def on_server_def
      grace_def seconds_def)

lemma completed_runs:
  obtains s where "proc_exec (up @ [Complete Public, Drained Public, WaitReturns]) new_process = Some s"
    and "pr_status s = Exited 0" and "sv_active (pr_server s Public) = 0"
  by (simp add: up_def new_process_def proc_fire_def chan_send_def shutdown_returns_def on_server_def)

theorem exit_zero_graceful_witness:
  "\<exists>env es s. proc_runs env es s \<and> pr_status s = Exited 0 \<and> Signal \<in> set es \<and>
     sv_active (pr_server s Public) = 1 \<and> (\<exists>fs gs. es = fs @ Launch # gs \<and> 15000000000 \<le> ticks gs)"
proof -
  obtain env where env: "main_start env = new_process" using main_starts by blast
  obtain s where ex: "proc_exec (up @ [Tick 15000000000, DeadlineExceeded Public, WaitReturns]) new_process = Some s"
    and s: "pr_status s = Exited 0" "sv_active (pr_server s Public) = 1" by (rule cut_off_runs)
  have run: "proc_runs env ([] @ up @ [Tick 15000000000, DeadlineExceeded Public, WaitReturns]) s"
    using ex proc_nil [of env] unfolding env by (rule proc_exec_runs)
  from exit_zero_graceful [OF run s(1)] run s show ?thesis by (metis zero_less_one)
qed

text \<open>
  C34. The other ends.  The process exits with status 1 only for an error of the start-up, or for one of
  \<open>ListenAndServe\<close> on a server that nobody had told to close, and with status 2 only if the waiting room's
  queue was too large to make; and a signal kills it only before \<open>Notify\<close>,
  while no later one, during the grace period for instance, has any effect but on the channel.
\<close>

theorem bad_ends:
  assumes "proc_runs env es s"
  shows "(pr_status s = Exited n \<longrightarrow> n = 0 \<or>
      n = 2 \<and> (\<exists>q. startup env = Inl (RoomPanics q)) \<and> es = [] \<or>
      n = 1 \<and> ((\<exists>x. startup env = Inl x \<and> (\<forall>q. x \<noteq> RoomPanics q)) \<and> es = [] \<or>
        (\<exists>fs t k e. es = fs @ [e] \<and> e \<in> {ListenFails k, AcceptFails k} \<and> proc_runs env fs t \<and>
           \<not> sv_closing (pr_server t k)))) \<and>
    (pr_status s = Killed \<longrightarrow> (\<exists>fs t. es = fs @ [Signal] \<and> proc_runs env fs t \<and> pr_main t \<in> {Spawning, Notifying}))"
  using assms
proof (cases rule: proc_runs.cases)
  case proc_nil
  then show ?thesis by (auto simp: main_start_def new_process_def exit_code_def split: sum.split startup_error.split)
next
  case (proc_snoc fs t e)
  then have step: "proc_step e t = Some s" and run: "pr_status t = Running" by (simp_all add: fire_step_proc)
  have notify: "pr_notify t \<longleftrightarrow> pr_main t \<noteq> Spawning \<and> pr_main t \<noteq> Notifying"
    using proc_ok [OF proc_snoc(2)] by (simp add: main_ok_def)
  have "pr_status s = Running \<or> pr_status s = Exited 0 \<or>
      pr_status s = Exited 1 \<and> (\<exists>k. e \<in> {ListenFails k, AcceptFails k} \<and> \<not> sv_closing (pr_server t k)) \<or>
      pr_status s = Killed \<and> e = Signal \<and> pr_main t \<in> {Spawning, Notifying}"
    using step run notify by (cases e; clarsimp simp: step_cases split: if_splits option.splits)+
  then show ?thesis using proc_snoc(1,2) by fastforce
qed

theorem bad_ends_witness:
  "\<exists>env s. proc_runs env [Spawn, ListenFails Metrics] s \<and> pr_status s = Exited 1 \<and>
     (\<exists>fs t k e. [Spawn, ListenFails Metrics] = fs @ [e] \<and> e \<in> {ListenFails k, AcceptFails k} \<and>
        proc_runs env fs t \<and> \<not> sv_closing (pr_server t k))"
proof -
  obtain env where env: "main_start env = new_process" using main_starts by blast
  obtain s where ex: "proc_exec [Spawn, ListenFails Metrics] new_process = Some s" and s: "pr_status s = Exited 1"
    by (simp add: new_process_def proc_fire_def serve_ends_def on_server_def)
  have run: "proc_runs env ([] @ [Spawn, ListenFails Metrics]) s"
    using ex proc_nil [of env] unfolding env by (rule proc_exec_runs)
  have "\<exists>fs t k e. [Spawn, ListenFails Metrics] = fs @ [e] \<and> e \<in> {ListenFails k, AcceptFails k} \<and>
        proc_runs env fs t \<and> \<not> sv_closing (pr_server t k)"
    using bad_ends [OF run, of 1] s by (metis append_Nil list.distinct(1) zero_neq_one)
  with run s show ?thesis by (metis append_Nil)
qed

section \<open>The shutdown ends\<close>

text \<open>The steps the program itself takes, and how many are left to it.\<close>

fun own_step :: "proc_event \<Rightarrow> bool" where
  "own_step (Accept k) = False" | "own_step (Complete k) = False" | "own_step Signal = False"
| "own_step (Tick n) = False" | "own_step e = True"

fun main_rank :: "main_pc \<Rightarrow> nat" where
  "main_rank Spawning = 4" | "main_rank Notifying = 3" | "main_rank AwaitSignal = 2"
| "main_rank Stopping = 1" | "main_rank WaitAll = 0"

fun serve_rank :: "serve_pc \<Rightarrow> nat" where
  "serve_rank Accepting = 1" | "serve_rank Returned = 0" | "serve_rank v = 2"

fun shutdown_rank :: "shutdown_pc \<Rightarrow> nat" where
  "shutdown_rank Polling = 1" | "shutdown_rank Finished = 0" | "shutdown_rank v = 2"

definition server_rank :: "server \<Rightarrow> nat" where
  "server_rank v = serve_rank (sv_serve v) + shutdown_rank (sv_shutdown v)"

definition proc_rank :: "process \<Rightarrow> nat" where
  "proc_rank s = main_rank (pr_main s) + server_rank (pr_server s Public) + server_rank (pr_server s Metrics) +
     of_bool (pr_status s = Running)"

lemma rank_fire:
  assumes "proc_step e s = Some s'" and "pr_status s = Running" and "servers_ok s"
  shows "proc_rank s' + of_bool (own_step e) \<le> proc_rank s"
proof -
  have ok: "server_ok s (pr_server s Public)" "server_ok s (pr_server s Metrics)"
    using assms(3) by (simp_all add: servers_ok_def)
  note defs = proc_rank_def server_rank_def step_cases
  show ?thesis
    using assms(1,2) ok
    by (cases "which_of e"; cases e)
      (clarsimp simp: defs server_ok_def split: if_splits option.splits)+
qed

lemma own_bounded: "proc_runs env es s \<Longrightarrow> length (filter own_step es) + proc_rank s \<le> 13"
proof (induction rule: proc_runs.induct)
  case proc_nil
  then show ?case by (simp add: main_start_def new_process_def proc_rank_def server_rank_def split: sum.split)
next
  case (proc_snoc es s e s')
  then show ?case using rank_fire [of e s s'] proc_ok [OF proc_snoc.hyps(1)]
    by (cases "own_step e") (simp_all add: fire_step_proc)
qed

text \<open>The steps of the shutdown.\<close>

fun shutdown_step :: "proc_event \<Rightarrow> bool" where
  "shutdown_step ReceiveSignal = True" | "shutdown_step Launch = True" | "shutdown_step (CallShutdown k) = True"
| "shutdown_step (Drained k) = True" | "shutdown_step (DeadlineExceeded k) = True"
| "shutdown_step WaitReturns = True" | "shutdown_step e = False"

text \<open>
  C24. A signal ends the process: in no schedule does the program take more than 13 steps of its own, and in
  any state after a signal was delivered, once the deadline (if one is set) has passed, a step of the
  shutdown can be taken, whatever requests are still in flight.
\<close>

theorem shutdown_terminates:
  assumes "proc_runs env es s"
  shows "length (filter own_step es) \<le> 13 \<and>
    (pr_status s = Running \<and> (pr_stopChan s \<noteq> [] \<or> pr_main s = Stopping \<or> pr_main s = WaitAll) \<and>
       (\<forall>d. pr_deadline s = Some d \<longrightarrow> d \<le> pr_now s) \<longrightarrow>
     (\<exists>e s'. shutdown_step e \<and> proc_fire e s = Some s'))"
proof (intro conjI impI)
  show "length (filter own_step es) \<le> 13" using own_bounded [OF assms] by simp
  assume now: "pr_status s = Running \<and> (pr_stopChan s \<noteq> [] \<or> pr_main s = Stopping \<or> pr_main s = WaitAll) \<and>
    (\<forall>d. pr_deadline s = Some d \<longrightarrow> d \<le> pr_now s)"
  have ok: "servers_ok s" "group_ok s" "main_ok s" using proc_ok [OF assms] by simp_all
  have sent: "pr_main s \<noteq> Spawning \<and> pr_main s \<noteq> Notifying"
    if "pr_stopChan s \<noteq> []"
    using that proc_notified [OF assms] ok(3) by (auto simp: main_ok_def)
  have "\<exists>e. shutdown_step e \<and> proc_step e s \<noteq> None"
  proof (cases "pr_main s")
    case Spawning
    then show ?thesis using now sent by simp
  next
    case Notifying
    then show ?thesis using now sent by simp
  next
    case AwaitSignal
    then have "pr_stopChan s \<noteq> []" using now by simp
    then have "proc_step ReceiveSignal s \<noteq> None" using AwaitSignal by (cases "pr_stopChan s") simp_all
    then show ?thesis by (intro exI [of _ ReceiveSignal]) simp
  next
    case Stopping
    then show ?thesis by (intro exI [of _ Launch]) simp
  next
    case WaitAll
    obtain d where d: "pr_deadline s = Some d" "d \<le> pr_now s"
      using proc_begun [OF assms WaitAll] now by (auto simp: begun_at_def)
    have "sv_shutdown (pr_server s k) = Begun \<Longrightarrow> proc_step (CallShutdown k) s \<noteq> None"
      "sv_shutdown (pr_server s k) = Polling \<Longrightarrow> proc_step (DeadlineExceeded k) s \<noteq> None" for k
      using d by simp_all
    moreover have "proc_step WaitReturns s \<noteq> None" if "pr_wg s = 0" using that WaitAll by simp
    moreover have "pr_wg s = 0 \<or> (\<exists>k. shutting (sv_shutdown (pr_server s k)))"
      using ok(2) by (auto simp: group_ok_def)
    ultimately show ?thesis by (metis shutdown_step.simps(3,5,6) shutting.elims(2))
  qed
  then show "\<exists>e s'. shutdown_step e \<and> proc_fire e s = Some s'" using now by (auto simp: fire_step_proc)
qed

theorem shutdown_terminates_witness:
  "\<exists>env s. proc_runs env (up @ [Tick 15000000000]) s \<and> sv_active (pr_server s Public) = 1 \<and>
     (\<exists>e s'. shutdown_step e \<and> proc_fire e s = Some s')"
proof -
  obtain env where env: "main_start env = new_process" using main_starts by blast
  obtain s where ex: "proc_exec (up @ [Tick 15000000000]) new_process = Some s"
    and s: "pr_status s = Running" "sv_active (pr_server s Public) = 1" "pr_main s = WaitAll"
      "pr_deadline s = Some (pr_now s)"
    by (simp add: up_def new_process_def proc_fire_def chan_send_def shutdown_returns_def on_server_def
      grace_def seconds_def)
  have run: "proc_runs env ([] @ up @ [Tick 15000000000]) s"
    using ex proc_nil [of env] unfolding env by (rule proc_exec_runs)
  from shutdown_terminates [OF run] s have "\<exists>e s'. shutdown_step e \<and> proc_fire e s = Some s'" by simp
  with run s show ?thesis by (intro exI [of _ env] exI [of _ s]) simp
qed

text \<open>
  The grace period does not cover the waiting room: under the default configuration a request may be
  parked for 30 seconds, and a clean exit can cut it off 15 seconds after the signal.
\<close>

theorem grace_too_short:
  "sint grace < sint (QueueTimeout default_config) \<and>
   (\<exists>env es s. startup env \<noteq> Inl e \<and> proc_runs env es s \<and> pr_status s = Exited 0 \<and>
      sv_active (pr_server s Public) = 1 \<and> ticks es = 15000000000)"
proof -
  obtain env pg where pg: "startup env = Inr pg" using startup_nan by blast
  then have env: "main_start env = new_process" by (simp add: main_start_def)
  let ?es = "up @ [Tick 15000000000, DeadlineExceeded Public, WaitReturns]"
  obtain s where ex: "proc_exec ?es new_process = Some s"
    and s: "pr_status s = Exited 0" "sv_active (pr_server s Public) = 1" by (rule cut_off_runs)
  have "proc_runs env ([] @ ?es) s" using ex proc_nil [of env] unfolding env by (rule proc_exec_runs)
  moreover have "ticks ?es = 15000000000" by (simp add: up_def)
  moreover have "sint grace < sint (QueueTimeout default_config)"
    by (simp add: grace_def seconds_def default_config_def)
  ultimately show ?thesis using s pg by (metis append_Nil sum.distinct(1))
qed

end
