(* ===== verification/Slog.thy ===== *)
theory Slog
  imports Go_Net Go_Decimal
begin

text \<open>
  The log of the program: the records of \<open>log/slog\<close>, the lines its JSON handler makes of them, which
  \<open>main\<close> only installs as the default logger, and a reader of such a log.  Values that depend on the request,
  paths and the texts of errors, go into the lines; the reader shows that they cannot break out of them.
\<close>

section \<open>Records\<close>

text \<open>
  The kinds of value the program logs: a string or an error, which is logged as its text, and an integer;
  a duration is logged as its number of nanoseconds, as \<open>json.Marshal\<close> does.
\<close>

datatype level = Info | Warn | Error

datatype log_value = Str bytes | Number int

record log_record =
  lr_level :: level
  lr_msg :: bytes
  lr_attrs :: "(bytes \<times> log_value) list"

definition slog :: "level \<Rightarrow> bytes \<Rightarrow> (bytes \<times> log_value) list \<Rightarrow> log_record" where
  "slog l msg attrs = \<lparr>lr_level = l, lr_msg = msg, lr_attrs = attrs\<rparr>"

section \<open>The JSON handler\<close>

text \<open>
  \<open>appendEscapedJSONString\<close>: as \<open>json.Marshal\<close>, but \<open><\<close>, \<open>>\<close> and \<open>&\<close> are left alone.
\<close>

definition slog_ascii :: "byte \<Rightarrow> bytes" where
  "slog_ascii c =
     (let n = (of_char c :: nat)
      in if n = 92 \<or> n = 34 then [CHR 0x5C, c]
         else if n = 10 then [CHR 0x5C, CHR ''n''] else if n = 13 then [CHR 0x5C, CHR ''r'']
         else if n = 9 then [CHR 0x5C, CHR ''t'']
         else if n < 32
         then [CHR 0x5C, CHR ''u'', CHR ''0'', CHR ''0'', lower_hex (n div 16), lower_hex (n mod 16)]
         else [c])"

function slog_chars :: "bytes \<Rightarrow> bytes" where
  "slog_chars s =
     (case s of
        [] \<Rightarrow> []
      | c # t \<Rightarrow>
          if (of_char c :: nat) < 128 then slog_ascii c @ slog_chars t
          else (case utf8_len s of
                  None \<Rightarrow> [CHR 0x5C] @ ''ufffd'' @ slog_chars t
                | Some k \<Rightarrow>
                    (if map of_char (take k s) = [0xE2, 0x80, 0xA8 :: nat] then [CHR 0x5C] @ ''u2028''
                     else if map of_char (take k s) = [0xE2, 0x80, 0xA9 :: nat] then [CHR 0x5C] @ ''u2029''
                     else take k s) @ slog_chars (drop (max 1 k) s)))"
  by pat_completeness auto
termination by (relation "measure length") (auto simp: max_def)

declare slog_chars.simps [simp del]

definition slog_string :: "bytes \<Rightarrow> bytes" where
  "slog_string s = CHR 0x22 # slog_chars s @ [CHR 0x22]"

definition level_text :: "level \<Rightarrow> bytes" where
  "level_text l = (case l of Info \<Rightarrow> ''INFO'' | Warn \<Rightarrow> ''WARN'' | Error \<Rightarrow> ''ERROR'')"

definition value_text :: "log_value \<Rightarrow> bytes" where
  "value_text v = (case v of Str s \<Rightarrow> slog_string s | Number i \<Rightarrow> show_int i)"

definition log_member :: "bytes \<times> log_value \<Rightarrow> bytes" where
  "log_member m = (case m of (k, v) \<Rightarrow> slog_string k @ CHR '':'' # value_text v)"

text \<open>One line; the time is the clock's reading in RFC 3339, written between its quotes as it is.\<close>

definition slog_line :: "bytes \<Rightarrow> log_record \<Rightarrow> bytes" where
  "slog_line time r =
     CHR ''{'' # join_on CHR '',''
       ((slog_string ''time'' @ CHR '':'' # CHR 0x22 # time @ [CHR 0x22]) #
        map log_member ((''level'', Str (level_text (lr_level r))) # (''msg'', Str (lr_msg r)) # lr_attrs r))
     @ [CHR ''}'', CHR 0x0A]"

definition log_text :: "(bytes \<times> log_record) list \<Rightarrow> bytes" where
  "log_text l = concat (map (\<lambda>(t, r). slog_line t r) l)"

section \<open>Reading a log\<close>

text \<open>A JSON string behind its opening quote: what it holds, and what follows its closing one.\<close>

definition hex_value :: "byte \<Rightarrow> nat option" where
  "hex_value c =
     (let n = (of_char c :: nat)
      in if 48 \<le> n \<and> n \<le> 57 then Some (n - 48) else if 97 \<le> n \<and> n \<le> 102 then Some (n - 87)
         else if 65 \<le> n \<and> n \<le> 70 then Some (n - 55) else None)"

definition utf8_encode :: "nat \<Rightarrow> bytes" where
  "utf8_encode n =
     map char_of (if n < 0x80 then [n]
       else if n < 0x800 then [0xC0 + n div 64, 0x80 + n mod 64]
       else [0xE0 + n div 4096, 0x80 + n div 64 mod 64, 0x80 + n mod 64])"

definition short_escape :: "byte \<Rightarrow> byte option" where
  "short_escape c =
     map_of [(CHR 0x22, CHR 0x22), (CHR 0x5C, CHR 0x5C), (CHR ''/'', CHR ''/''), (CHR ''b'', CHR 0x08),
       (CHR ''f'', CHR 0x0C), (CHR ''n'', CHR 0x0A), (CHR ''r'', CHR 0x0D), (CHR ''t'', CHR 0x09)] c"

definition hex4 :: "bytes \<Rightarrow> nat option" where
  "hex4 s =
     (case map hex_value (take 4 s) of
        [Some a, Some b, Some c, Some d] \<Rightarrow> Some (((a * 16 + b) * 16 + c) * 16 + d)
      | _ \<Rightarrow> None)"

definition onto :: "bytes \<Rightarrow> (bytes \<times> 'b) option \<Rightarrow> (bytes \<times> 'b) option" where
  "onto u = map_option (\<lambda>(s, r). (u @ s, r))"

function unquote :: "bytes \<Rightarrow> (bytes \<times> bytes) option" where
  "unquote [] = None"
| "unquote (c # t) =
     (if c = CHR 0x22 then Some ([], t)
      else if c = CHR 0x5C
      then (case t of
              [] \<Rightarrow> None
            | d # u \<Rightarrow>
                if d = CHR ''u''
                then (case hex4 u of None \<Rightarrow> None | Some n \<Rightarrow> onto (utf8_encode n) (unquote (drop 4 u)))
                else (case short_escape d of None \<Rightarrow> None | Some b \<Rightarrow> onto [b] (unquote u)))
      else if (of_char c :: nat) < 32 then None
      else onto [c] (unquote t))"
  by pat_completeness auto
termination by (relation "measure length") auto

text \<open>What a string is after a round trip: each byte that starts no UTF-8 sequence became U+FFFD.\<close>

function scrub :: "bytes \<Rightarrow> bytes" where
  "scrub s =
     (case s of
        [] \<Rightarrow> []
      | c # t \<Rightarrow>
          (case utf8_len s of
             None \<Rightarrow> map char_of [0xEF, 0xBF, 0xBD :: nat] @ scrub t
           | Some k \<Rightarrow> take (max 1 k) s @ scrub (drop (max 1 k) s)))"
  by pat_completeness auto
termination by (relation "measure length") (auto simp: max_def)

declare scrub.simps [simp del]

lemma scrub_Nil [simp]: "scrub [] = []"
  by (subst scrub.simps) simp

lemma scrub_ascii: "(of_char c :: nat) < 128 \<Longrightarrow> scrub (c # t) = c # scrub t"
  by (subst scrub.simps) (simp add: utf8_len_def)

definition valid_utf8 :: "bytes \<Rightarrow> bool" where "valid_utf8 s \<longleftrightarrow> scrub s = s"

lemma valid_ascii: "list_all (\<lambda>c. (of_char c :: nat) < 128) s \<Longrightarrow> valid_utf8 s"
  by (induction s) (simp_all add: valid_utf8_def scrub_ascii)

subsection \<open>A quoted string reads back\<close>

lemma onto_onto [simp]: "onto u (onto v x) = onto (u @ v) x"
  by (cases x) (auto simp: onto_def)

lemma onto_Some [simp]: "onto u (Some (s, r)) = Some (u @ s, r)"
  by (simp add: onto_def)

lemma hex_value_lower: "n < 16 \<Longrightarrow> hex_value (lower_hex n) = Some n"
  by (auto simp: hex_value_def lower_hex_def Let_def of_char_of)

lemma unquote_ascii:
  assumes "(of_char c :: nat) < 128"
  shows "unquote (slog_ascii c @ s) = onto [c] (unquote s)"
proof -
  let ?n = "of_char c :: nat"
  have byte: "?n = of_char d \<Longrightarrow> c = d" for d by simp
  have codes: "?n = 92 \<Longrightarrow> c = CHR 0x5C" "?n = 34 \<Longrightarrow> c = CHR 0x22" "?n = 10 \<Longrightarrow> c = CHR 0x0A"
    "?n = 13 \<Longrightarrow> c = CHR 0x0D" "?n = 9 \<Longrightarrow> c = CHR 0x09"
    by (rule byte; simp)+
  consider "?n = 92" | "?n = 34" | "?n = 10" | "?n = 13" | "?n = 9"
    | "?n < 32" "?n \<notin> {9, 10, 13}" | "32 \<le> ?n" "?n \<notin> {34, 92}" by fastforce
  then show ?thesis
  proof cases
    case 6
    have "?n div 16 < 16" using assms by (simp add: less_mult_imp_div_less)
    then have hex: "hex4 (CHR ''0'' # CHR ''0'' # lower_hex (?n div 16) # lower_hex (?n mod 16) # s) = Some ?n"
      by (simp add: hex4_def hex_value_lower) (simp add: hex_value_def)
    have "slog_ascii c = [CHR 0x5C, CHR ''u'', CHR ''0'', CHR ''0'', lower_hex (?n div 16), lower_hex (?n mod 16)]"
      using 6 by (simp add: slog_ascii_def Let_def)
    moreover have "utf8_encode ?n = [c]" using assms by (simp add: utf8_encode_def)
    ultimately show ?thesis using hex by simp
  next
    case 7
    then have "c \<noteq> CHR 0x22" "c \<noteq> CHR 0x5C" by auto
    moreover have "slog_ascii c = [c]" using 7 by (auto simp: slog_ascii_def)
    ultimately show ?thesis using 7 by simp
  qed (use codes in \<open>simp_all add: slog_ascii_def short_escape_def\<close>)
qed

lemma unquote_high:
  "list_all (\<lambda>b. 128 \<le> (of_char b :: nat)) u \<Longrightarrow> unquote (u @ s) = onto u (unquote s)"
proof (induction u)
  case Nil
  then show ?case by (cases "unquote s") (auto simp: onto_def)
next
  case (Cons b u)
  then have "b \<noteq> CHR 0x22" "b \<noteq> CHR 0x5C" by auto
  with Cons show ?case by simp
qed

lemma hex4_escapes:
  "hex4 (''fffd'' @ s) = Some 65533" "hex4 (''2028'' @ s) = Some 8232" "hex4 (''2029'' @ s) = Some 8233"
  by (simp_all add: hex4_def hex_value_def)

lemma unquote_escapes:
  "unquote ([CHR 0x5C] @ ''ufffd'' @ s) = onto (map char_of [0xEF, 0xBF, 0xBD :: nat]) (unquote s)"
  "unquote ([CHR 0x5C] @ ''u2028'' @ s) = onto (map char_of [0xE2, 0x80, 0xA8 :: nat]) (unquote s)"
  "unquote ([CHR 0x5C] @ ''u2029'' @ s) = onto (map char_of [0xE2, 0x80, 0xA9 :: nat]) (unquote s)"
  using hex4_escapes [of s] by (simp_all add: utf8_encode_def)

lemma unquote_chars: "unquote (slog_chars s @ CHR 0x22 # r) = Some (scrub s, r)"
proof (induction s rule: slog_chars.induct)
  case (1 s)
  show ?case
  proof (cases s)
    case Nil
    then show ?thesis by (subst slog_chars.simps) simp
  next
    case (Cons c t)
    show ?thesis
    proof (cases "(of_char c :: nat) < 128")
      case True
      then show ?thesis
        using 1(1) [OF Cons True] Cons by (subst slog_chars.simps) (simp add: unquote_ascii scrub_ascii)
    next
      case False
      show ?thesis
      proof (cases "utf8_len s")
        case None
        then show ?thesis
          using 1(2) [OF Cons False None] Cons False
          by (subst slog_chars.simps, subst scrub.simps) (simp add: unquote_escapes [simplified])
      next
        case (Some k)
        have k: "max 1 k = k" using Some Cons by (auto simp: utf8_len_def Let_def split: if_splits)
        have high: "list_all (\<lambda>b. 128 \<le> (of_char b :: nat)) (take k s)"
          using utf8_high_bytes [of c t k] Some False Cons by simp
        have sep: "take k s = map char_of ns" if "map of_char (take k s) = ns" for ns :: "nat list"
          by (simp add: that [symmetric] o_def)
        let ?block = "if map of_char (take k s) = [0xE2, 0x80, 0xA8 :: nat] then [CHR 0x5C] @ ''u2028''
          else if map of_char (take k s) = [0xE2, 0x80, 0xA9 :: nat] then [CHR 0x5C] @ ''u2029'' else take k s"
        have block: "unquote (?block @ u) = onto (take k s) (unquote u)" for u
          using unquote_high [OF high, of u] unquote_escapes(2,3) [of u]
            sep [of "[0xE2, 0x80, 0xA8]"] sep [of "[0xE2, 0x80, 0xA9]"]
          by simp
        have "slog_chars s = ?block @ slog_chars (drop (max 1 k) s)"
          using Cons False Some by (subst slog_chars.simps) simp
        then have "unquote (slog_chars s @ CHR 0x22 # r) = onto (take k s) (Some (scrub (drop (max 1 k) s), r))"
          using block [of "slog_chars (drop (max 1 k) s) @ CHR 0x22 # r"] 1(3) [OF Cons False Some]
          by (simp only: append_assoc)
        also have "\<dots> = Some (scrub s, r)" using Cons Some k by (subst (2) scrub.simps) simp
        finally show ?thesis .
      qed
    qed
  qed
qed

subsection \<open>Lines\<close>

text \<open>A value, a member, the members of an object up to its brace, a line, and a log of such lines.\<close>

definition num_byte :: "byte \<Rightarrow> bool" where "num_byte c \<longleftrightarrow> is_digit c \<or> c = CHR ''-''"

definition read_number :: "bytes \<Rightarrow> int" where
  "read_number ds =
     (if ds \<noteq> [] \<and> hd ds = CHR ''-'' then - digits_value 0 (tl ds) else digits_value 0 ds)"

definition read_log_value :: "bytes \<Rightarrow> (log_value \<times> bytes) option" where
  "read_log_value s =
     (case s of
        [] \<Rightarrow> None
      | c # t \<Rightarrow>
          if c = CHR 0x22 then map_option (\<lambda>(u, r). (Str u, r)) (unquote t)
          else if num_byte c then Some (Number (read_number (takeWhile num_byte s)), dropWhile num_byte s)
          else None)"

definition read_member :: "bytes \<Rightarrow> ((bytes \<times> log_value) \<times> bytes) option" where
  "read_member s =
     (case s of
        [] \<Rightarrow> None
      | c # t \<Rightarrow>
          if c \<noteq> CHR 0x22 then None
          else (case unquote t of
                  Some (k, d # u) \<Rightarrow>
                    if d = CHR '':'' then map_option (\<lambda>(v, r). ((k, v), r)) (read_log_value u) else None
                | _ \<Rightarrow> None))"

fun read_object :: "nat \<Rightarrow> bytes \<Rightarrow> (bytes \<times> log_value) list option" where
  "read_object 0 s = None"
| "read_object (Suc fuel) s =
     (case read_member s of
        Some (m, c # r) \<Rightarrow>
          if c = CHR '','' then map_option (Cons m) (read_object fuel r)
          else if c = CHR ''}'' \<and> r = [] then Some [m]
          else None
      | _ \<Rightarrow> None)"

definition read_line :: "bytes \<Rightarrow> (bytes \<times> log_value) list option" where
  "read_line s = (if take 1 s = ''{'' then read_object (length s) (tl s) else None)"

definition read_log :: "bytes \<Rightarrow> (bytes \<times> log_value) list option list" where
  "read_log s = map read_line (butlast (split_on CHR 0x0A s))"

text \<open>What is read of a record: its members, with every text in valid UTF-8.\<close>

definition scrub_value :: "log_value \<Rightarrow> log_value" where
  "scrub_value v = (case v of Str s \<Rightarrow> Str (scrub s) | Number i \<Rightarrow> Number i)"

definition logged :: "bytes \<Rightarrow> log_record \<Rightarrow> (bytes \<times> log_value) list" where
  "logged time r =
     (''time'', Str time) # (''level'', Str (level_text (lr_level r))) # (''msg'', Str (scrub (lr_msg r))) #
       map (map_prod scrub scrub_value) (lr_attrs r)"

text \<open>A reading of the clock is written with bytes that need no escape.\<close>

definition plain_time :: "bytes \<Rightarrow> bool" where
  "plain_time t \<longleftrightarrow> list_all (\<lambda>c. is_digit c \<or> c \<in> set ''-+:.TZ'') t"

lemma show_int_num: "show_int i \<noteq> []" "list_all num_byte (show_int i)" "read_number (show_int i) = i"
proof -
  have digits: "list_all is_digit (show_nat n)" for n
    using show_nat_digits by (auto simp: list_all_iff)
  have "hd (show_nat n) \<noteq> CHR ''-''" for n
    using digits [of n] by (cases "show_nat n") (auto simp: is_digit_def)
  then show "read_number (show_int i) = i" by (auto simp: show_int_def read_number_def)
  show "show_int i \<noteq> []" by (simp add: show_int_def)
  show "list_all num_byte (show_int i)"
    using digits by (auto simp: show_int_def num_byte_def list_all_iff)
qed

lemma read_log_value_text:
  assumes "\<not> num_byte (hd r)" and "r \<noteq> []"
  shows "read_log_value (value_text v @ r) = Some (scrub_value v, r)"
proof (cases v)
  case (Str s)
  then show ?thesis
    by (simp add: value_text_def slog_string_def read_log_value_def unquote_chars scrub_value_def)
next
  case (Number i)
  obtain c t where c: "show_int i = c # t" using show_int_num(1) by (cases "show_int i") auto
  have num: "num_byte c" using show_int_num(2) [of i] by (simp add: c)
  moreover have "c \<noteq> CHR 0x22" using num by (auto simp: num_byte_def is_digit_def)
  moreover have "takeWhile num_byte (show_int i @ r) = show_int i" "dropWhile num_byte (show_int i @ r) = r"
    using assms show_int_num(2) [of i]
    by (cases r; simp add: takeWhile_append2 dropWhile_append2 list_all_iff)+
  ultimately show ?thesis
    using Number show_int_num(3) [of i] by (simp add: value_text_def read_log_value_def scrub_value_def c)
qed

lemma read_member_text:
  assumes "\<not> num_byte (hd r)" and "r \<noteq> []"
  shows "read_member (log_member m @ r) = Some (map_prod scrub scrub_value m, r)"
  using read_log_value_text [OF assms]
  by (cases m) (simp add: log_member_def slog_string_def read_member_def unquote_chars)

lemma read_object_text:
  "ms \<noteq> [] \<Longrightarrow> length ms \<le> f \<Longrightarrow>
     read_object f (join_on CHR '','' (map log_member ms) @ ''}'') = Some (map (map_prod scrub scrub_value) ms)"
proof (induction ms arbitrary: f)
  case (Cons m ms)
  obtain g where f: "f = Suc g" using Cons.prems by (cases f) auto
  have stop: "\<not> num_byte CHR '',''" "\<not> num_byte CHR ''}''" by (simp_all add: num_byte_def is_digit_def)
  show ?case
  proof (cases "ms = []")
    case True
    then show ?thesis using stop by (simp add: f read_member_text)
  next
    case False
    then show ?thesis
      using stop Cons.IH [of g] Cons.prems by (simp add: f join_Cons read_member_text)
  qed
qed simp

text \<open>No line holds a control byte, a newline least of all, before its end.\<close>

definition shown :: "byte \<Rightarrow> bool" where "shown c \<longleftrightarrow> 32 \<le> (of_char c :: nat)"

lemma slog_ascii_shown: "list_all shown (slog_ascii c)"
proof -
  have "(of_char c :: nat) div 16 < 16" by (rule less_mult_imp_div_less) simp
  then have "shown (lower_hex (of_char c div 16))" "shown (lower_hex (of_char c mod 16))"
    by (auto simp: shown_def lower_hex_def of_char_of)
  then show ?thesis by (auto simp: slog_ascii_def Let_def shown_def)
qed

lemma slog_chars_shown: "list_all shown (slog_chars s)"
proof (induction s rule: slog_chars.induct)
  case (1 s)
  have esc: "list_all shown ([CHR 0x5C] @ ''ufffd'')" "list_all shown ([CHR 0x5C] @ ''u2028'')"
    "list_all shown ([CHR 0x5C] @ ''u2029'')" by (simp_all add: shown_def)
  show ?case
  proof (cases s)
    case Nil
    then show ?thesis by (subst slog_chars.simps) simp
  next
    case (Cons c t)
    have high: "list_all shown (take k s)" if "utf8_len s = Some k" "\<not> (of_char c :: nat) < 128" for k
      using utf8_high_bytes [of c t k] that Cons
      by (auto simp: shown_def intro: list.pred_mono_strong)
    show ?thesis
      using 1(1) [OF Cons] 1(2,3) [OF Cons] Cons high esc slog_ascii_shown [of c]
      by (subst slog_chars.simps) (auto split: option.split)
  qed
qed

lemma slog_string_shown: "list_all shown (slog_string s)"
  using slog_chars_shown [of s] by (simp add: slog_string_def) (simp add: shown_def)

lemma log_member_shown: "list_all shown (log_member m)"
proof -
  have "list_all shown (show_int i)" for i
    using show_int_num(2) [of i] by (rule list.pred_mono_strong) (auto simp: num_byte_def is_digit_def shown_def)
  then show ?thesis
    using slog_string_shown
    by (cases m) (auto simp: log_member_def value_text_def shown_def split: log_value.split)
qed

lemma join_shown:
  "list_all (list_all shown) ts \<Longrightarrow> list_all shown (join_on CHR '','' ts)"
proof (induction ts)
  case (Cons t ts)
  then show ?case by (cases ts) (auto simp: shown_def)
qed simp

lemma slog_plain: "list_all (\<lambda>c. is_digit c \<or> c \<in> set ''-+:.TZ'') t \<Longrightarrow> slog_chars t = t \<and> scrub t = t"
proof (induction t)
  case Nil
  then show ?case by (subst slog_chars.simps) simp
next
  case (Cons c t)
  then have c: "(of_char c :: nat) < 128" "slog_ascii c = [c]"
    by (auto simp: is_digit_def slog_ascii_def Let_def)
  with Cons show ?case by (subst slog_chars.simps) (simp add: scrub_ascii)
qed

definition members :: "bytes \<Rightarrow> log_record \<Rightarrow> (bytes \<times> log_value) list" where
  "members time r =
     (''time'', Str time) # (''level'', Str (level_text (lr_level r))) # (''msg'', Str (lr_msg r)) # lr_attrs r"

lemma members_nonempty [simp]: "members time r \<noteq> []"
  by (simp add: members_def)

lemma slog_line_members:
  assumes "plain_time time"
  shows "slog_line time r =
    (CHR ''{'' # join_on CHR '','' (map log_member (members time r)) @ ''}'') @ [CHR 0x0A]"
  using assms slog_plain [of time]
  by (simp add: slog_line_def members_def plain_time_def log_member_def value_text_def slog_string_def)

lemma read_line_members:
  assumes "ms \<noteq> []"
  shows "read_line (CHR ''{'' # join_on CHR '','' (map log_member ms) @ ''}'') =
     Some (map (map_prod scrub scrub_value) ms)"
proof -
  have "length ts \<le> Suc (length (join_on CHR '','' ts))" for ts
  proof (induction ts)
    case (Cons t ts)
    then show ?case by (cases ts) auto
  qed simp
  from this [of "map log_member ms"] show ?thesis
    using assms by (simp add: read_line_def read_object_text del: read_object.simps)
qed

lemma members_logged:
  assumes "plain_time time"
  shows "map (map_prod scrub scrub_value) (members time r) = logged time r"
proof -
  have "scrub ''time'' = ''time''" "scrub ''level'' = ''level''" "scrub ''msg'' = ''msg''"
    "scrub (level_text l) = level_text l" for l
    by (simp_all add: scrub_ascii level_text_def split: level.split)
  then show ?thesis
    using assms slog_plain [of time] by (simp add: members_def logged_def plain_time_def scrub_value_def)
qed

text \<open>
  The log reads back: whatever the records hold, their log is one line per record, and a reader finds in
  each line the record's time, level and message and its attributes in order, every text with the bytes
  that are no UTF-8 replaced by U+FFFD.  So no path and no error text can end its line, add a line or
  change another attribute.
\<close>

theorem log_reads_back:
  assumes "list_all (\<lambda>(t, r). plain_time t) l"
  shows "read_log (log_text l) = map (\<lambda>(t, r). Some (logged t r)) l"
proof -
  have "split_on CHR 0x0A (log_text l) =
      map (\<lambda>(t, r). CHR ''{'' # join_on CHR '','' (map log_member (members t r)) @ ''}'') l @ [[]]"
    using assms
  proof (induction l)
    case (Cons x l)
    obtain t r where x: "x = (t, r)" by (cases x)
    let ?line = "CHR ''{'' # join_on CHR '','' (map log_member (members t r)) @ ''}''"
    have "list_all shown ?line"
      using join_shown [of "map log_member (members t r)"] log_member_shown
      by (auto simp: shown_def list_all_iff)
    then have "CHR 0x0A \<notin> set ?line" by (auto simp: shown_def list_all_iff)
    from split_on_line [OF this] show ?case
      using Cons by (simp add: x log_text_def slog_line_members)
  qed (simp add: log_text_def)
  then show ?thesis
    using assms
    by (auto simp: read_log_def read_line_members members_logged list_all_iff)
qed

theorem log_reads_back_witness:
  "read_log (log_text [(''2024-05-01T10:00:00Z'',
       slog Warn ''queue_timeout'' [(''pos'', Number 3), (''path'', Str (''/a'' @ [CHR 0x22, CHR 0x0A]))]),
     (''2024-05-01T10:00:01Z'', slog Info ''queue_admission'' [(''path'', Str [char_of (255 :: nat)])])]) =
   [Some [(''time'', Str ''2024-05-01T10:00:00Z''), (''level'', Str ''WARN''), (''msg'', Str ''queue_timeout''),
      (''pos'', Number 3), (''path'', Str (''/a'' @ [CHR 0x22, CHR 0x0A]))],
    Some [(''time'', Str ''2024-05-01T10:00:01Z''), (''level'', Str ''INFO''), (''msg'', Str ''queue_admission''),
      (''path'', Str (map char_of [0xEF, 0xBF, 0xBD :: nat]))]]"
proof -
  let ?l = "[(''2024-05-01T10:00:00Z'',
       slog Warn ''queue_timeout'' [(''pos'', Number 3), (''path'', Str (''/a'' @ [CHR 0x22, CHR 0x0A]))]),
     (''2024-05-01T10:00:01Z'', slog Info ''queue_admission'' [(''path'', Str [char_of (255 :: nat)])])]"
  have plain: "list_all (\<lambda>(t, r). plain_time t) ?l" by (simp add: plain_time_def is_digit_def)
  have bad: "scrub [char_of (255 :: nat)] = map char_of [0xEF, 0xBF, 0xBD :: nat]" by code_simp
  show ?thesis
    unfolding log_reads_back [OF plain]
    using bad by (simp add: logged_def slog_def level_text_def scrub_value_def scrub_ascii)
qed

end
