(* ===== verification/Proxy_Faults.thy ===== *)
theory Proxy_Faults
  imports Proxy_Answers Strip_Writer Slog
begin

text \<open>
  The proxy and the stripper when something fails: a backend's body that ends in an error, a client that
  stops taking bytes, a status line the server refuses with a panic.  A run of the handler is followed
  statement by statement, with the reads and the closing of the backend's body, the deferred clean-up and
  the log; what a client sees then follows from how \<open>net/http\<close> frames a response.
\<close>

section \<open>Writers that can fail\<close>

text \<open>
  Which statuses may carry a body, and the length the header of a response declares.  A write beyond it
  fails, as does any on a status without a body; \<open>WriteHeader\<close> panics on a status of other than
  three digits.
\<close>

definition body_allowed :: "int \<Rightarrow> bool" where
  "body_allowed code \<longleftrightarrow> \<not> (100 \<le> code \<and> code \<le> 199) \<and> code \<noteq> 204 \<and> code \<noteq> 304"

definition declared_length :: "header \<Rightarrow> int option" where
  "declared_length h =
     (let cl = header_get h ''Content-Length''
      in if cl = [] then None
         else (case parse_int cl of
                 Inr n \<Rightarrow> if 0 \<le> sint n then Some (sint n) else None
               | Inl e \<Rightarrow> None))"

definition bad_status :: "int \<Rightarrow> bool" where "bad_status code \<longleftrightarrow> code < 100 \<or> 999 < code"

text \<open>
  The connection takes \<open>quota\<close> bytes of the body before writes to it fail, any number if \<open>quota\<close> is
  \<open>None\<close>.  A write returns the number of bytes it took and whether it succeeded.
\<close>

definition conn_try :: "nat option \<Rightarrow> bytes \<Rightarrow> conn \<Rightarrow> conn \<times> nat \<times> bool" where
  "conn_try quota b c =
     (let c' = (if c_sent c = None then conn_write_header 200 c else c);
          (code, h) = the (c_sent c');
          n = length (c_body c')
      in if b = [] then (c', 0, True)
         else if \<not> body_allowed code then (c', 0, False)
         else if (case declared_length h of None \<Rightarrow> False | Some d \<Rightarrow> d < int (n + length b)) then (c', 0, False)
         else (case quota of
                 None \<Rightarrow> (c'\<lparr>c_body := c_body c' @ b\<rparr>, length b, True)
               | Some k \<Rightarrow>
                   let taken = take (k - n) b
                   in (c'\<lparr>c_body := c_body c' @ taken\<rparr>, length taken, taken = b)))"

text \<open>\<open>Write\<close> of both writers with its results; the stripper's buffer takes everything.\<close>

function rw_try :: "nat option \<Rightarrow> (bytes \<Rightarrow> bytes) \<Rightarrow> bytes \<Rightarrow> rwriter \<Rightarrow> rwriter \<times> nat \<times> bool" where
  "rw_try quota detect b (Conn c) = (case conn_try quota b c of (c', n, ok) \<Rightarrow> (Conn c', n, ok))"
| "rw_try quota detect b (Stripping s w) =
     (case sw_ensure_header detect b s w of
        Stripping s' w' \<Rightarrow>
          (if sw_is_html s' then (Stripping (s'\<lparr>sw_buf := sw_buf s' @ b\<rparr>) w', length b, True)
           else (case rw_try quota detect b w' of (w'', n, ok) \<Rightarrow> (Stripping s' w'', n, ok)))
      | Conn c \<Rightarrow> (Conn c, 0, False))"
  by pat_completeness auto
termination
proof (relation "measure (\<lambda>(quota, d, b, w). rw_depth w)", goal_cases)
  case 1
  then show ?case by simp
next
  case (2 quota detect b s w s' w')
  then have "rw_depth (Stripping s' w') = Suc (rw_depth w)" by (metis rw_depth_ensure)
  then show ?case by simp
qed

text \<open>Whether \<open>WriteHeader\<close> panics; the stripper passes the status on unless it keeps the response.\<close>

fun header_panics :: "int \<Rightarrow> rwriter \<Rightarrow> bool" where
  "header_panics code (Conn c) \<longleftrightarrow> c_sent c = None \<and> bad_status code"
| "header_panics code (Stripping s w) \<longleftrightarrow>
     \<not> sw_header_written s \<and>
     \<not> (sw_active s \<and> is_html_type (header_get (rw_header w) ''Content-Type'')) \<and> header_panics code w"

text \<open>A call whose result the handler drops.\<close>

definition try_perform :: "nat option \<Rightarrow> (bytes \<Rightarrow> bytes) \<Rightarrow> rw_call \<Rightarrow> rwriter \<Rightarrow> rwriter" where
  "try_perform quota detect c w =
     (case c of Write b \<Rightarrow> fst (rw_try quota detect b w) | _ \<Rightarrow> rw.perform detect c w)"

section \<open>\<open>ServeHTTP\<close> with its errors\<close>

text \<open>
  What \<open>client.Do\<close> comes to: an error, with the state of the client's context, the error's \<open>Timeout()\<close>
  and its text; or a response whose body yields chunks and then ends, or fails with an error's text.
\<close>

datatype exchange = Failed bool bool bytes | Answered int header "bytes list" "bytes option"

text \<open>The client: what it takes, the text of a failing write, and whether its context is over then.\<close>

record client =
  cl_takes :: "nat option"
  cl_error :: bytes
  cl_gone :: bool

text \<open>What happens to the backend's body.\<close>

datatype body_op = ReadChunk bytes | ReadEnds | CloseBody

text \<open>
  \<open>io.Copy\<close>: the loop reads a chunk and writes it until the body ends or fails or a write does; its
  results are the number of bytes written, the text of an error, and here also what is left unread and
  the reads.
\<close>

record copied =
  cp_writer :: rwriter
  cp_written :: nat
  cp_error :: "bytes option"
  cp_rest :: "bytes list"
  cp_ops :: "body_op list"

fun io_copy ::
  "client \<Rightarrow> (bytes \<Rightarrow> bytes) \<Rightarrow> bytes list \<Rightarrow> bytes option \<Rightarrow> nat \<Rightarrow> rwriter \<Rightarrow> copied" where
  "io_copy cl detect [] failure written w =
     \<lparr>cp_writer = w, cp_written = written, cp_error = failure, cp_rest = [], cp_ops = [ReadEnds]\<rparr>"
| "io_copy cl detect (b # bs) failure written w =
     (if b = []
      then (let c = io_copy cl detect bs failure written w in c\<lparr>cp_ops := ReadChunk b # cp_ops c\<rparr>)
      else
        (case rw_try (cl_takes cl) detect b w of
           (w', n, ok) \<Rightarrow>
             if \<not> ok
             then \<lparr>cp_writer = w', cp_written = written + n, cp_error = Some (cl_error cl), cp_rest = bs,
                   cp_ops = [ReadChunk b]\<rparr>
             else if n \<noteq> length b
             then \<lparr>cp_writer = w', cp_written = written + n, cp_error = Some ''short write'', cp_rest = bs,
                   cp_ops = [ReadChunk b]\<rparr>
             else (let c = io_copy cl detect bs failure (written + n) w'
                   in c\<lparr>cp_ops := ReadChunk b # cp_ops c\<rparr>)))"

text \<open>The deferred clean-up: \<open>io.Copy(io.Discard, resp.Body)\<close> and \<open>Close\<close>.\<close>

definition drain :: "bytes list \<Rightarrow> body_op list" where
  "drain rest = map ReadChunk rest @ [ReadEnds, CloseBody]"

record served =
  sv_writer :: rwriter
  sv_panic :: bool
  sv_body :: "body_op list"
  sv_log :: "log_record list"

text \<open>\<open>writeError\<close> with its log record; its statuses are 502 and 504, and the write's result is dropped.\<close>

definition fail_with ::
  "proxy \<Rightarrow> client \<Rightarrow> (bytes \<Rightarrow> bytes) \<Rightarrow> int \<Rightarrow> bytes \<Rightarrow> bytes \<Rightarrow> log_record list \<Rightarrow> rwriter \<Rightarrow> served" where
  "fail_with p cl detect code errType detail records w =
     \<lparr>sv_writer = fold (try_perform (cl_takes cl) detect) (writeError p code errType) w, sv_panic = False,
      sv_body = [],
      sv_log = records @
        [slog Error ''error_response''
           [(''status'', Number code), (''type'', Str errType), (''detail'', Str detail),
            (''backend'', Str (TargetURL (px_cfg p)))]]\<rparr>"

definition about :: "request \<Rightarrow> (bytes \<times> log_value) list" where
  "about r = [(''method'', Str (rq_method r)), (''path'', Str (rq_path r))]"

text \<open>An error of the copying is logged unless the client is gone.\<close>

definition copy_log :: "client \<Rightarrow> request \<Rightarrow> nat \<Rightarrow> bytes option \<Rightarrow> log_record list" where
  "copy_log cl r written copyErr =
     (case copyErr of
        None \<Rightarrow> []
      | Some e \<Rightarrow>
          if cl_gone cl then []
          else [slog Error ''body_stream_error''
                  [(''bytes_written'', Number (int written)), (''path'', Str (rq_path r)), (''err'', Str e)]])"

text \<open>Steps 4 to 6 for a response, and the deferred clean-up after them or after the panic.\<close>

definition relay ::
  "client \<Rightarrow> (bytes \<Rightarrow> bytes) \<Rightarrow> request \<Rightarrow> int \<Rightarrow> header \<Rightarrow> bytes list \<Rightarrow> bytes option \<Rightarrow> rwriter \<Rightarrow> served" where
  "relay cl detect r code src chunks failure w =
     (let w1 = fold (try_perform (cl_takes cl) detect)
            (copyResponseHeaders src @
             [HeaderSet ''X-PeakShield-Proxied'' ''1'', HeaderSet ''Via'' ''1.1 peakshield'']) w
      in if header_panics code w1
         then \<lparr>sv_writer = w1, sv_panic = True, sv_body = drain chunks, sv_log = []\<rparr>
         else
           (let c = io_copy cl detect chunks failure 0 (rw_write_header code w1)
            in \<lparr>sv_writer = cp_writer c, sv_panic = False, sv_body = cp_ops c @ drain (cp_rest c),
                sv_log = copy_log cl r (cp_written c) (cp_error c)\<rparr>))"

text \<open>\<open>ServeHTTP\<close>; \<open>why\<close> is the text of a request that could not be built.\<close>

definition proxy_serve ::
  "(build_error \<Rightarrow> bytes) \<Rightarrow> proxy \<Rightarrow> (out_request \<Rightarrow> exchange) \<Rightarrow> client \<Rightarrow> (bytes \<Rightarrow> bytes) \<Rightarrow>
   request \<Rightarrow> rwriter \<Rightarrow> served" where
  "proxy_serve why p backend cl detect r w =
     (let target = [(''backend'', Str (TargetURL (px_cfg p)))]
      in case buildBackendRequest p r of
           Inl e \<Rightarrow>
             fail_with p cl detect 502 ''request_build_failed'' (why e)
               [slog Error ''request_build_failed'' (about r @ [(''err'', Str (why e))])] w
         | Inr outReq \<Rightarrow>
             (case backend outReq of
                Failed gone timeout err \<Rightarrow>
                  if gone
                  then \<lparr>sv_writer = w, sv_panic = False, sv_body = [],
                        sv_log = [slog Warn ''client_disconnect_before_response'' (about r)]\<rparr>
                  else if timeout
                  then fail_with p cl detect 504 ''backend_timeout''
                         ''upstream server did not respond within the deadline''
                         [slog Error ''backend_timeout'' (about r @ target @ [(''err'', Str err)])] w
                  else fail_with p cl detect 502 ''backend_error'' err
                         [slog Error ''backend_error'' (about r @ target @ [(''err'', Str err)])] w
              | Answered code src chunks failure \<Rightarrow> relay cl detect r code src chunks failure w))"

section \<open>The stripper around it\<close>

text \<open>
  A panic of the wrapped handler passes through, and so may the status the stripper has kept raise one;
  the deferred calls give the buffers back to their pool.
\<close>

definition strip_serve ::
  "client \<Rightarrow> (bytes \<Rightarrow> bytes) \<Rightarrow> int \<Rightarrow> int \<Rightarrow> (request \<Rightarrow> rwriter \<Rightarrow> served) \<Rightarrow>
   request \<Rightarrow> rwriter \<Rightarrow> served" where
  "strip_serve cl detect activeReqs stripThreshold next r w =
     (if activeReqs \<le> stripThreshold then next r w
      else
        (let r' = r\<lparr>rq_header := header_del ''Accept-Encoding'' (rq_header r)\<rparr>;
             v = next r' (Stripping \<lparr>sw_buf = [], sw_status = 0, sw_header_written = False,
                                    sw_is_html = False, sw_active = True\<rparr> w)
         in case sv_writer v of
              Conn c' \<Rightarrow> v
            | Stripping s w' \<Rightarrow>
                if sv_panic v \<or> \<not> sw_is_html s then v\<lparr>sv_writer := w'\<rparr>
                else if header_panics (sw_status s) w' then v\<lparr>sv_writer := w', sv_panic := True\<rparr>
                else v\<lparr>sv_writer := fst (rw_try (cl_takes cl) detect (strip_html (sw_buf s) [])
                                         (rw_write_header (sw_status s) w'))\<rparr>))"

section \<open>What the client sees\<close>

text \<open>
  Of a response: nothing, a response that is whole as far as its framing tells, or one that visibly ends
  too early.  The server aborts the connection on a panic, and closes it when a declared length was not
  reached; otherwise it ends the body, by the last chunk of the chunked coding if no length was declared.
\<close>

datatype view = Nothing | Whole int header bytes | Cut int header bytes

definition view_of :: "request \<Rightarrow> bool \<Rightarrow> conn \<Rightarrow> view" where
  "view_of r panic c =
     (case c_sent c of
        None \<Rightarrow> if panic then Nothing else Whole 200 (c_header c) []
      | Some (code, h) \<Rightarrow>
          let bodied = (rq_method r \<noteq> ''HEAD'' \<and> body_allowed code);
              body = (if bodied then c_body c else [])
          in if panic \<or>
                bodied \<and> (case declared_length h of None \<Rightarrow> False | Some d \<Rightarrow> d \<noteq> int (length (c_body c)))
             then Cut code h body else Whole code h body)"

fun client_view :: "request \<Rightarrow> served \<Rightarrow> view option" where
  "client_view r v = (case sv_writer v of Conn c \<Rightarrow> Some (view_of r (sv_panic v) c) | Stripping s w \<Rightarrow> None)"

end
