(* ===== verification/Fault_Props.thy ===== *)
theory Fault_Props
  imports Proxy_Faults Strip_Spec
begin

text \<open>
  What holds when something fails: the backend's body is read to its end and closed on every path, what a
  client sees of a body that was cut, the statuses that make the server abort, and that without a fault
  the handlers are those of \<open>Reverse_Proxy\<close> and \<open>Strip_Writer\<close>.
\<close>

section \<open>The steps of a run\<close>

definition relayed :: "header \<Rightarrow> header \<Rightarrow> header" where
  "relayed src h =
     fold call_edit (copyResponseHeaders src @
       [HeaderSet ''X-PeakShield-Proxied'' ''1'', HeaderSet ''Via'' ''1.1 peakshield'']) h"

lemma edit_iff: "is_edit c \<longleftrightarrow> call_status c = None"
  by (cases c) simp_all

lemma try_edit: "is_edit c \<Longrightarrow> try_perform quota detect c w = rw.perform detect c w"
  by (cases c) (simp_all add: try_perform_def)

lemma try_edits:
  assumes "list_all is_edit es"
  shows "fold (try_perform quota detect) es w = rw_edit (\<lambda>h. fold call_edit es h) w"
proof -
  have "fold (try_perform quota detect) es w = fold (rw.perform detect) es w"
    using assms by (induction es arbitrary: w) (simp_all add: try_edit)
  then show ?thesis by (simp only: perform_edits [OF assms])
qed

lemma relay_edits:
  "fold (try_perform quota detect) (copyResponseHeaders src @
     [HeaderSet ''X-PeakShield-Proxied'' ''1'', HeaderSet ''Via'' ''1.1 peakshield'']) w = rw_edit (relayed src) w"
proof -
  have "list_all is_edit (copyResponseHeaders src @
      [HeaderSet ''X-PeakShield-Proxied'' ''1'', HeaderSet ''Via'' ''1.1 peakshield''])"
    using copy_response_edits_only [of src] by (simp add: edit_iff list_all_iff)
  from try_edits [OF this] show ?thesis by (simp only: relayed_def [abs_def])
qed

text \<open>The operations on the body: all its chunks in order, its end, and one \<open>Close\<close>, last.\<close>

lemma io_copy_ops:
  "\<exists>k. k < 2 \<and> cp_ops (io_copy cl detect chunks f n w) @ drain (cp_rest (io_copy cl detect chunks f n w)) =
     map ReadChunk chunks @ replicate (Suc k) ReadEnds @ [CloseBody]"
proof (induction chunks arbitrary: n w)
  case Nil
  show ?case by (intro exI [of _ 1]) (simp add: drain_def)
next
  case (Cons b bs)
  have stop: "\<exists>k. k < 2 \<and> drain bs = map ReadChunk bs @ replicate (Suc k) ReadEnds @ [CloseBody]"
    by (intro exI [of _ 0]) (simp add: drain_def)
  show ?case
    using Cons.IH [of n w] Cons.IH stop
    by (auto simp: Let_def split: prod.split)
qed

definition drained :: "bytes list \<Rightarrow> body_op list \<Rightarrow> bool" where
  "drained chunks ops \<longleftrightarrow> (\<exists>k. ops = map ReadChunk chunks @ replicate (Suc k) ReadEnds @ [CloseBody])"

lemma drain_drained: "drained chunks (drain chunks)"
  unfolding drained_def by (rule exI [of _ 0]) (simp add: drain_def)

lemma relay_drained: "drained chunks (sv_body (relay cl detect r code src chunks f w))"
  using io_copy_ops [of cl detect chunks f 0] drain_drained [of chunks]
  by (auto simp: relay_def Let_def drained_def)

section \<open>A client that takes everything\<close>

text \<open>Writers whose header is out and that take \<open>n\<close> more bytes of a body.\<close>

definition room_for :: "int option \<Rightarrow> nat \<Rightarrow> bool" where
  "room_for d n \<longleftrightarrow> (case d of None \<Rightarrow> True | Some k \<Rightarrow> int n \<le> k)"

fun fits :: "nat \<Rightarrow> rwriter \<Rightarrow> bool" where
  "fits n (Conn c) \<longleftrightarrow>
     (case c_sent c of
        None \<Rightarrow> False
      | Some (code, h) \<Rightarrow>
          n = 0 \<or> body_allowed code \<and> room_for (declared_length h) (length (c_body c) + n))"
| "fits n (Stripping s w) \<longleftrightarrow> sw_header_written s \<and> (sw_is_html s \<or> fits n w)"

lemma rw_try_fits:
  "fits (length b) w \<Longrightarrow> rw_try None detect b w = (rw_write detect b w, length b, True)"
proof (induction w)
  case (Conn c)
  then show ?case
    by (auto simp: conn_try_def conn_write_def Let_def room_for_def split: option.splits)
next
  case (Stripping s w)
  then show ?case by (auto simp: sw_ensure_header_def)
qed

lemma fits_write: "fits (length b + n) w \<Longrightarrow> fits n (rw_write detect b w)"
proof (induction w)
  case (Conn c)
  then show ?case
    by (auto simp: conn_write_def Let_def room_for_def add.assoc split: option.splits)
next
  case (Stripping s w)
  then show ?case by (auto simp: sw_ensure_header_def)
qed

lemma fits_less: "fits (m + n) w \<Longrightarrow> fits m w"
  by (induction w) (auto simp: room_for_def split: option.splits)

lemma write_nothing: "fits n w \<Longrightarrow> rw_write detect [] w = w"
  by (induction w) (auto simp: conn_write_def Let_def sw_ensure_header_def split: option.splits)

lemma io_copy_fits:
  assumes "cl_takes cl = None" and "fits (length (concat chunks)) w"
  shows "cp_writer (io_copy cl detect chunks f n w) = fold (rw.perform detect) (map Write chunks) w"
    and "cp_error (io_copy cl detect chunks f n w) = f"
    and "cp_written (io_copy cl detect chunks f n w) = n + length (concat chunks)"
  using assms(2)
proof (induction chunks arbitrary: n w)
  case (Cons b bs)
  { case 1
    then show ?case
      using Cons.IH(1) [of "rw_write detect b w"] fits_write [of b "length (concat bs)" w]
        rw_try_fits [OF fits_less [of "length b" "length (concat bs)" w]] assms(1)
      by (auto simp: Let_def write_nothing) }
  { case 2
    then show ?case
      using Cons.IH(2) fits_write [of b "length (concat bs)" w]
        rw_try_fits [OF fits_less [of "length b" "length (concat bs)" w]] assms(1)
      by (auto simp: Let_def) }
  { case 3
    then show ?case
      using Cons.IH(3) fits_write [of b "length (concat bs)" w]
        rw_try_fits [OF fits_less [of "length b" "length (concat bs)" w]] assms(1)
      by (auto simp: Let_def) }
qed simp_all

text \<open>The body of a response fits its status and its header.\<close>

definition body_fits :: "int \<Rightarrow> header \<Rightarrow> bytes \<Rightarrow> bool" where
  "body_fits code h body \<longleftrightarrow>
     body = [] \<or> body_allowed code \<and> room_for (declared_length h) (length body)"

lemma header_panics_edit [simp]: "header_panics code (Conn (conn_map_header f c)) = header_panics code (Conn c)"
  by (simp add: conn_map_header_def)

lemma relay_runs:
  assumes "cl_takes cl = None" and "\<not> header_panics code (rw_edit (relayed src) w)"
    and "fits (length (concat chunks)) (rw_write_header code (rw_edit (relayed src) w))"
  shows "\<exists>ops. relay cl detect r code src chunks f w =
    \<lparr>sv_writer = fold (rw.perform detect) (map Write chunks) (rw_write_header code (rw_edit (relayed src) w)),
     sv_panic = False, sv_body = ops, sv_log = copy_log cl r (length (concat chunks)) f\<rparr>"
  using assms(2) io_copy_fits [OF assms(1,3)]
  unfolding relay_def relay_edits Let_def by simp

lemma relay_conn:
  assumes "cl_takes cl = None" and c: "c_sent c = None" "c_body c = []" and "\<not> bad_status code"
    and "body_fits code (relayed src (c_header c)) (concat chunks)"
  shows "\<exists>ops. relay cl detect r code src chunks f (Conn c) =
    \<lparr>sv_writer = Conn (plain_response c (relayed src (c_header c)) code (concat chunks)),
     sv_panic = False, sv_body = ops, sv_log = copy_log cl r (length (concat chunks)) f\<rparr>"
proof -
  have w: "rw_write_header code (rw_edit (relayed src) (Conn c)) =
      Conn (c\<lparr>c_header := relayed src (c_header c), c_sent := Some (code, relayed src (c_header c))\<rparr>)"
    using c by (simp add: conn_map_header_def conn_write_header_def)
  have "fits (length (concat chunks)) (rw_write_header code (rw_edit (relayed src) (Conn c)))"
    using assms(5) c unfolding w by (auto simp: body_fits_def)
  moreover have "\<not> header_panics code (rw_edit (relayed src) (Conn c))" using assms(4) by simp
  ultimately show ?thesis
    using relay_runs [OF assms(1), of code src "Conn c" chunks detect r f] c(2)
    unfolding w by (simp add: perform_writes_conn plain_response_def)
qed

abbreviation kept_state :: "bytes \<Rightarrow> int \<Rightarrow> bool \<Rightarrow> bool \<Rightarrow> strip_state" where
  "kept_state b code written html \<equiv>
     \<lparr>sw_buf = b, sw_status = code, sw_header_written = written, sw_is_html = html, sw_active = True\<rparr>"

abbreviation fresh_strip :: "rwriter \<Rightarrow> rwriter" where
  "fresh_strip \<equiv> Stripping (kept_state [] 0 False False)"

lemma relay_kept:
  assumes "cl_takes cl = None" and "is_html_type (header_get (relayed src (c_header c)) ''Content-Type'')"
  shows "\<exists>ops. relay cl detect r code src chunks f (fresh_strip (Conn c)) =
    \<lparr>sv_writer = Stripping (kept_state (concat chunks) code True True)
       (Conn (c\<lparr>c_header := header_del ''Content-Length'' (relayed src (c_header c))\<rparr>)),
     sv_panic = False, sv_body = ops, sv_log = copy_log cl r (length (concat chunks)) f\<rparr>"
proof -
  let ?w = "fresh_strip (Conn c)"
  have w: "rw_write_header code (rw_edit (relayed src) ?w) = Stripping (kept_state [] code True True)
      (Conn (c\<lparr>c_header := header_del ''Content-Length'' (relayed src (c_header c))\<rparr>))"
    using assms(2) by (simp add: conn_map_header_def)
  moreover have "\<not> header_panics code (rw_edit (relayed src) ?w)"
    using assms(2) by (simp add: conn_map_header_def)
  moreover have "fits (length (concat chunks)) (rw_write_header code (rw_edit (relayed src) ?w))"
    unfolding w by simp
  ultimately show ?thesis
    using relay_runs [OF assms(1), of code src ?w chunks detect r f]
    unfolding w by (simp add: perform_writes_html)
qed

lemma relay_passed:
  assumes "cl_takes cl = None" and c: "c_sent c = None" "c_body c = []" and "\<not> bad_status code"
    and "body_fits code (relayed src (c_header c)) (concat chunks)"
    and "\<not> is_html_type (header_get (relayed src (c_header c)) ''Content-Type'')"
  shows "\<exists>ops. relay cl detect r code src chunks f (fresh_strip (Conn c)) =
    \<lparr>sv_writer = Stripping (kept_state [] code True False)
       (Conn (plain_response c (relayed src (c_header c)) code (concat chunks))),
     sv_panic = False, sv_body = ops, sv_log = copy_log cl r (length (concat chunks)) f\<rparr>"
proof -
  let ?w = "fresh_strip (Conn c)"
  have w: "rw_write_header code (rw_edit (relayed src) ?w) = Stripping (kept_state [] code True False)
      (Conn (c\<lparr>c_header := relayed src (c_header c), c_sent := Some (code, relayed src (c_header c))\<rparr>))"
    using assms(6) c by (simp add: conn_map_header_def conn_write_header_def)
  have "fits (length (concat chunks)) (rw_write_header code (rw_edit (relayed src) ?w))"
    using assms(5) c unfolding w by (auto simp: body_fits_def)
  moreover have "\<not> header_panics code (rw_edit (relayed src) ?w)"
    using assms(4) by (simp add: conn_map_header_def)
  ultimately show ?thesis
    using relay_runs [OF assms(1), of code src ?w chunks detect r f] c(2)
    unfolding w by (simp add: perform_writes_through perform_writes_conn plain_response_def)
qed

section \<open>A response through both\<close>

text \<open>The request as the stripper passes it on.\<close>

definition passed_on :: "int \<Rightarrow> int \<Rightarrow> request \<Rightarrow> request" where
  "passed_on activeReqs stripThreshold r =
     (if activeReqs \<le> stripThreshold then r
      else r\<lparr>rq_header := header_del ''Accept-Encoding'' (rq_header r)\<rparr>)"

lemma proxy_serve_answered:
  "buildBackendRequest p r = Inr q \<Longrightarrow> backend q = Answered code src chunks f \<Longrightarrow>
     proxy_serve why p backend cl detect r w = relay cl detect r code src chunks f w"
  by (simp add: proxy_serve_def)

lemma length_deleted: "declared_length (header_del ''Content-Length'' h) = None"
  by (simp add: declared_length_def header_get_def hd.vals_del)

lemma copy_log_header [simp]: "copy_log cl (r\<lparr>rq_header := x\<rparr>) n f = copy_log cl r n f"
  by (simp add: copy_log_def split: option.split)

lemma strip_kept_write:
  assumes "c_sent c = None" and "c_body c = []" and "body = [] \<or> body_allowed code"
  shows "rw_try None detect (strip_html body []) (rw_write_header code
      (Conn (c\<lparr>c_header := header_del ''Content-Length'' h\<rparr>))) =
    (Conn (plain_response c (header_del ''Content-Length'' h) code (strip_html body [])),
     length (strip_html body []), True)"
  using assms
  by (auto simp: conn_write_header_def conn_try_def plain_response_def length_deleted Let_def strip_html_def
      split: option.splits)

lemma strip_kept_plain:
  assumes "c_sent c = None" and "c_body c = []"
  shows "rw_write detect b (rw_write_header code (Conn (c\<lparr>c_header := h\<rparr>))) = Conn (plain_response c h code b)"
  using assms by (simp add: conn_write_header_def conn_write_def plain_response_def)

lemma strip_serve_result:
  assumes "cl_takes cl = None" and c: "c_sent c = None" "c_body c = []" and good: "\<not> bad_status code"
    and built: "buildBackendRequest p (passed_on act thr r) = Inr q" and ans: "backend q = Answered code src chunks f"
    and fit: "body_fits code (relayed src (c_header c)) (concat chunks)"
  shows "\<exists>ops. strip_serve cl detect act thr (proxy_serve why p backend cl detect) r (Conn c) =
    \<lparr>sv_writer = Conn
       (if thr < act \<and> is_html_type (header_get (relayed src (c_header c)) ''Content-Type'')
        then plain_response c (header_del ''Content-Length'' (relayed src (c_header c))) code
               (strip_html (concat chunks) [])
        else plain_response c (relayed src (c_header c)) code (concat chunks)),
     sv_panic = False, sv_body = ops, sv_log = copy_log cl r (length (concat chunks)) f\<rparr>"
proof -
  let ?h = "relayed src (c_header c)"
  let ?r = "passed_on act thr r"
  have serve: "proxy_serve why p backend cl detect ?r w = relay cl detect ?r code src chunks f w" for w
    using built ans by (rule proxy_serve_answered)
  consider "act \<le> thr" | "thr < act" "is_html_type (header_get ?h ''Content-Type'')"
    | "thr < act" "\<not> is_html_type (header_get ?h ''Content-Type'')" by linarith
  then show ?thesis
  proof cases
    case 1
    then show ?thesis
      using relay_conn [OF assms(1) c good fit, of detect r f] serve by (simp add: strip_serve_def passed_on_def)
  next
    case 2
    have "concat chunks = [] \<or> body_allowed code" using fit by (auto simp: body_fits_def)
    from strip_kept_write [OF c this] show ?thesis
      using 2 relay_kept [OF assms(1) 2(2), of detect ?r code chunks f] good assms(1)
        serve [of "fresh_strip (Conn c)"]
      by (auto simp: strip_serve_def passed_on_def simp del: rw_write_header.simps rw_try.simps)
  next
    case 3
    then show ?thesis
      using relay_passed [OF assms(1) c good fit 3(2), of detect ?r f]
        serve [of "fresh_strip (Conn c)"]
      by (auto simp: strip_serve_def passed_on_def)
  qed
qed

text \<open>
  What \<open>net/http\<close> guarantees of the body of a response: it is empty where none may be, it has the declared
  length if it ends well, and fewer bytes if it fails.
\<close>

definition framed :: "request \<Rightarrow> int \<Rightarrow> header \<Rightarrow> bytes \<Rightarrow> bytes option \<Rightarrow> bool" where
  "framed r code src body failure \<longleftrightarrow>
     (if rq_method r = ''HEAD'' \<or> \<not> body_allowed code then body = [] \<and> failure = None
      else (case declared_length src of
              None \<Rightarrow> True
            | Some n \<Rightarrow> if failure = None then n = int (length body) else int (length body) < n))"

lemma relayed_length:
  assumes "canonical_header src" and "header_values h ''Content-Length'' = []"
  shows "declared_length (relayed src h) = declared_length src"
proof -
  have keys: "canonical_key ''Content-Length'' = ''Content-Length''" "canonical_key ''Via'' = ''Via''"
    "canonical_key ''X-PeakShield-Proxied'' = ''X-Peakshield-Proxied''"
    "''Content-Length'' \<notin> set excludedResponseHeaders"
    by code_simp+
  have "header_values (relayed src h) ''Content-Length'' = header_values src ''Content-Length''"
    using copy_response_values [OF assms(1), of h "''Content-Length''"] assms(2) keys
    by (simp add: relayed_def hd.vals_upd)
  then show ?thesis by (simp add: declared_length_def header_get_def)
qed

lemma framed_fits:
  assumes "framed r code src body f" and "declared_length h = declared_length src"
  shows "body_fits code h body"
  using assms by (auto simp: framed_def body_fits_def room_for_def split: if_splits option.splits)

text \<open>
  C14. What a client that keeps reading sees of a backend's response.  If the body failed, its end is visible
  only where the response declared a length and the stripper did not take it over: in chunked coding and
  after the stripper a body that was cut arrives as a whole one, with the backend's status, and only the
  log tells.
\<close>

theorem cut_body_view:
  assumes "cl_takes cl = None" and "c_sent c = None" and "c_body c = []"
    and "header_values (c_header c) ''Content-Length'' = []"
    and "buildBackendRequest p (passed_on act thr r) = Inr q"
    and "backend q = Answered code src chunks f" and "\<not> bad_status code" and "canonical_header src"
    and "framed r code src (concat chunks) f"
  shows "let v = strip_serve cl detect act thr (proxy_serve why p backend cl detect) r (Conn c);
      h = relayed src (c_header c); body = concat chunks
    in client_view r v = Some
         (if thr < act \<and> is_html_type (header_get h ''Content-Type'')
          then Whole code (header_del ''Content-Length'' h) (strip_html body [])
          else if f \<noteq> None \<and> declared_length src \<noteq> None then Cut code h body
          else Whole code h body) \<and>
       sv_log v = copy_log cl r (length body) f"
proof -
  have len: "declared_length (relayed src (c_header c)) = declared_length src"
    using assms(8,4) by (rule relayed_length)
  have none: "strip_html [] [] = []" by (simp add: strip_html_def)
  obtain ops where "strip_serve cl detect act thr (proxy_serve why p backend cl detect) r (Conn c) =
      \<lparr>sv_writer = Conn
         (if thr < act \<and> is_html_type (header_get (relayed src (c_header c)) ''Content-Type'')
          then plain_response c (header_del ''Content-Length'' (relayed src (c_header c))) code
                 (strip_html (concat chunks) [])
          else plain_response c (relayed src (c_header c)) code (concat chunks)),
       sv_panic = False, sv_body = ops, sv_log = copy_log cl r (length (concat chunks)) f\<rparr>"
    using strip_serve_result [where backend = backend, OF assms(1-3,7,5,6) framed_fits [OF assms(9) len]] by blast
  then show ?thesis
    using assms(3,9) none
    by (auto simp: view_of_def plain_response_def length_deleted len framed_def Let_def
        split: if_splits option.splits)
qed

text \<open>A client that takes everything, and a backend whose body fails after four of its hundred bytes.\<close>

definition patient :: client where
  "patient = \<lparr>cl_takes = None, cl_error = [], cl_gone = False\<rparr>"

definition breaking_backend :: "out_request \<Rightarrow> exchange" where
  "breaking_backend q =
     Answered 200 [(''Content-Type'', [''text/html'']), (''Content-Length'', [''100''])] [''<p>'', ''x'']
       (Some ''unexpected EOF'')"

lemma breaking_ok:
  assumes "breaking_backend q = Answered code src chunks f"
  shows "\<not> bad_status code \<and> canonical_header src \<and> framed (get_request ''/'' [] []) code src (concat chunks) f"
proof -
  have "canonical_header [(''Content-Type'', [''text/html'']), (''Content-Length'', [''100''])]"
    "declared_length [(''Content-Type'', [''text/html'']), (''Content-Length'', [''100''])] = Some 100"
    by code_simp+
  then show ?thesis
    using assms by (auto simp: breaking_backend_def bad_status_def framed_def body_allowed_def get_request_def)
qed

theorem cut_body_view_witness:
  "\<exists>h. client_view (get_request ''/'' [] [])
      (strip_serve patient (\<lambda>b. []) 41 40 (proxy_serve (\<lambda>e. []) default_proxy breaking_backend patient (\<lambda>b. []))
        (get_request ''/'' [] []) (Conn fresh_conn)) = Some (Whole 200 h ''<p>x'')"
proof -
  let ?src = "[(''Content-Type'', [''text/html'']), (''Content-Length'', [''100''])]"
  have same: "passed_on 41 40 (get_request ''/'' [] []) = get_request ''/'' [] []"
    by (simp add: passed_on_def get_request_def header_del_def)
  obtain q where built: "buildBackendRequest default_proxy (passed_on 41 40 (get_request ''/'' [] [])) = Inr q"
    using build_get [OF uri_ok_empty] unfolding same by blast
  have ans: "breaking_backend q = Answered 200 ?src [''<p>'', ''x''] (Some ''unexpected EOF'')"
    by (simp add: breaking_backend_def)
  have html: "is_html_type (header_get (relayed ?src []) ''Content-Type'')" by code_simp
  have strip: "strip_html ''<p>x'' [] = ''<p>x''" by code_simp
  note ok = breaking_ok [OF ans]
  show ?thesis
    using cut_body_view [where cl = patient and c = fresh_conn and backend = breaking_backend, OF _ _ _ _ built ans]
      ok html strip
    by (simp add: patient_def fresh_conn_def header_values_def Let_def)
qed

section \<open>Every path cleans up\<close>

lemma io_copy_kept:
  "sw_header_written s \<Longrightarrow> sw_is_html s \<Longrightarrow>
     cp_writer (io_copy cl detect chunks f n (Stripping s w)) =
       Stripping (s\<lparr>sw_buf := sw_buf s @ concat chunks\<rparr>) w"
  by (induction chunks arbitrary: n s) (auto simp: sw_ensure_header_def Let_def)

lemma io_copy_passed:
  "sw_header_written s \<Longrightarrow> \<not> sw_is_html s \<Longrightarrow>
     \<exists>w'. cp_writer (io_copy cl detect chunks f n (Stripping s w)) = Stripping s w'"
proof (induction chunks arbitrary: n w)
  case (Cons b bs)
  then show ?case by (auto simp: sw_ensure_header_def Let_def split: prod.split)
qed simp

text \<open>The stripper's own writer, and the calls of \<open>writeError\<close> on it, which leave it no HTML to keep.\<close>

lemma json_not_html: "\<not> is_html_type ''application/json; charset=utf-8''"
  by code_simp

lemma error_edits:
  assumes "h' = header_set ''X-Content-Type-Options'' ''nosniff'' (header_set ''X-PeakShield-Error'' errType
    (header_set ''Content-Type'' ''application/json; charset=utf-8'' h))"
  shows "header_get h' ''Content-Type'' = ''application/json; charset=utf-8''"
    and "header_values h' ''Content-Length'' = header_values h ''Content-Length''"
proof -
  have "canonical_key ''X-Content-Type-Options'' = ''X-Content-Type-Options''"
    "canonical_key ''X-PeakShield-Error'' = ''X-Peakshield-Error''"
    "canonical_key ''Content-Type'' = ''Content-Type''" "canonical_key ''Content-Length'' = ''Content-Length''"
    by code_simp+
  then show "header_get h' ''Content-Type'' = ''application/json; charset=utf-8''"
    and "header_values h' ''Content-Length'' = header_values h ''Content-Length''"
    by (simp_all add: assms header_get_def hd.vals_upd)
qed

lemma fail_with_strip:
  "\<exists>s w'. sv_writer (fail_with p cl detect code errType detail records (fresh_strip w)) =
     Stripping s w' \<and> \<not> sw_is_html s"
proof -
  have "\<not> is_html_type (header_get (rw_header (rw_edit (header_set ''X-Content-Type-Options'' ''nosniff'')
      (rw_edit (header_set ''X-PeakShield-Error'' errType)
        (rw_edit (header_set ''Content-Type'' ''application/json; charset=utf-8'') w)))) ''Content-Type'')"
  proof -
    have "rw_header (rw_edit f w) = f (rw_header w)" for f w
      by (induction w) (auto simp: conn_map_header_def)
    then show ?thesis using error_edits(1) [OF refl] json_not_html by simp
  qed
  then show ?thesis
    by (auto simp: fail_with_def writeError_def try_perform_def sw_ensure_header_def split: prod.split)
qed

text \<open>The status a run of the proxy would send and the chunks it reads, if the backend answers.\<close>

definition answered :: "proxy \<Rightarrow> (out_request \<Rightarrow> exchange) \<Rightarrow> request \<Rightarrow> (int \<times> bytes list) option" where
  "answered p backend r =
     (case buildBackendRequest p r of
        Inl e \<Rightarrow> None
      | Inr q \<Rightarrow>
          (case backend q of Failed gone timeout err \<Rightarrow> None | Answered code src chunks f \<Rightarrow> Some (code, chunks)))"

lemma proxy_serve_body:
  "case answered p backend r of
     None \<Rightarrow> sv_body (proxy_serve why p backend cl detect r w) = []
   | Some (code, chunks) \<Rightarrow> drained chunks (sv_body (proxy_serve why p backend cl detect r w))"
  by (simp add: answered_def proxy_serve_def fail_with_def relay_drained Let_def split: sum.split exchange.split)

lemma strip_serve_body:
  "sv_body (strip_serve cl detect act thr next r w) =
     sv_body (next (passed_on act thr r)
       (if act \<le> thr then w else fresh_strip w))"
  by (simp add: strip_serve_def passed_on_def Let_def split: rwriter.split)

lemma proxy_serve_conn:
  assumes "c_sent c = None"
  shows "sv_panic (proxy_serve why p backend cl detect r (Conn c)) =
      (case answered p backend r of None \<Rightarrow> False | Some (code, chunks) \<Rightarrow> bad_status code)"
    and "sv_panic (proxy_serve why p backend cl detect r (Conn c)) \<Longrightarrow>
      \<exists>c'. sv_writer (proxy_serve why p backend cl detect r (Conn c)) = Conn c' \<and> c_sent c' = None"
  using assms
  by (auto simp: answered_def proxy_serve_def fail_with_def relay_def relay_edits [unfolded append.simps] Let_def
      conn_map_header_def simp del: fold_append split: sum.splits exchange.splits if_splits)

lemma header_panics_bad: "header_panics code w \<Longrightarrow> bad_status code"
  by (induction w) auto

definition unsent :: "rwriter \<Rightarrow> bool" where
  "unsent w \<longleftrightarrow> (\<exists>c. w = Conn c \<and> c_sent c = None)"

lemma relay_strip:
  assumes "c_sent c = None"
  shows "\<exists>s w'. sv_writer (relay cl detect r code src chunks f (fresh_strip (Conn c))) =
      Stripping s w' \<and>
    (let panic = sv_panic (relay cl detect r code src chunks f (fresh_strip (Conn c)))
     in (panic \<longrightarrow> bad_status code \<and> unsent w') \<and> (bad_status code \<longrightarrow> panic \<or> sw_is_html s) \<and>
        (\<not> panic \<and> sw_is_html s \<longrightarrow> sw_status s = code \<and> unsent w'))"
proof -
  let ?h = "relayed src (c_header c)"
  let ?w = "fresh_strip (Conn c)"
  let ?v = "relay cl detect r code src chunks f ?w"
  have w1: "rw_edit (relayed src) ?w = fresh_strip (Conn (c\<lparr>c_header := ?h\<rparr>))"
    by (simp add: conn_map_header_def)
  consider "is_html_type (header_get ?h ''Content-Type'')"
    | "\<not> is_html_type (header_get ?h ''Content-Type'')" "bad_status code"
    | "\<not> is_html_type (header_get ?h ''Content-Type'')" "\<not> bad_status code" by blast
  then show ?thesis
  proof cases
    case 1
    then have "\<not> header_panics code (rw_edit (relayed src) ?w)"
      and "rw_write_header code (rw_edit (relayed src) ?w) = Stripping (kept_state [] code True True)
        (Conn (c\<lparr>c_header := header_del ''Content-Length'' ?h\<rparr>))"
      unfolding w1 by (simp_all add: conn_map_header_def)
    then have "sv_writer ?v = Stripping (kept_state (concat chunks) code True True)
        (Conn (c\<lparr>c_header := header_del ''Content-Length'' ?h\<rparr>)) \<and> \<not> sv_panic ?v"
      unfolding relay_def relay_edits Let_def by (simp add: io_copy_kept)
    then show ?thesis using assms by (simp add: unsent_def)
  next
    case 2
    then have "header_panics code (rw_edit (relayed src) ?w)" unfolding w1 using assms by simp
    then have "sv_writer ?v = rw_edit (relayed src) ?w \<and> sv_panic ?v"
      unfolding relay_def relay_edits Let_def by simp
    then show ?thesis unfolding w1 using 2 assms by (simp add: unsent_def)
  next
    case 3
    then have "\<not> header_panics code (rw_edit (relayed src) ?w)" using header_panics_bad by blast
    moreover obtain c' where "rw_write_header code (rw_edit (relayed src) ?w) =
        Stripping (kept_state [] code True False) c'"
      unfolding w1 using 3 by simp
    ultimately have "(\<exists>w'. sv_writer ?v = Stripping (kept_state [] code True False) w') \<and> \<not> sv_panic ?v"
      unfolding relay_def relay_edits Let_def
      using io_copy_passed [of "kept_state [] code True False" cl detect chunks f 0 c'] by simp
    then show ?thesis using 3 by auto
  qed
qed

lemma unanswered_strip:
  assumes "answered p backend r = None"
  shows "\<exists>s w'. sv_writer (proxy_serve why p backend cl detect r (fresh_strip w)) =
      Stripping s w' \<and> \<not> sw_is_html s \<and>
    \<not> sv_panic (proxy_serve why p backend cl detect r (fresh_strip w))"
proof -
  have calm: "\<not> sv_panic (fail_with p cl detect code e d l w)" for code e d l w by (simp add: fail_with_def)
  show ?thesis
    using assms fail_with_strip [of p cl detect] calm
    by (auto simp: answered_def proxy_serve_def Let_def split: sum.splits exchange.splits)
qed

text \<open>
  C15. Whatever fails, a request cleans up after itself.  A body that was opened is read to its end and closed
  once, in the end; \<open>WriteHeader\<close> panics exactly on a backend's status of other than three digits, and the
  panic leaves the client without any response, though the proxy has an error page for a bad backend.
\<close>

theorem every_path_cleans_up:
  assumes "c_sent c = None"
  shows "let v = strip_serve cl detect act thr (proxy_serve why p backend cl detect) r (Conn c)
    in (case answered p backend (passed_on act thr r) of
          None \<Rightarrow> \<not> sv_panic v \<and> sv_body v = []
        | Some (code, chunks) \<Rightarrow> sv_panic v = bad_status code \<and> drained chunks (sv_body v)) \<and>
       (sv_panic v \<longrightarrow> client_view r v = Some Nothing)"
proof -
  let ?r = "passed_on act thr r"
  let ?next = "proxy_serve why p backend cl detect"
  let ?v = "strip_serve cl detect act thr ?next r (Conn c)"
  show ?thesis
  proof (cases "act \<le> thr")
    case True
    then have "?v = ?next ?r (Conn c)" by (simp add: strip_serve_def passed_on_def)
    then show ?thesis
      using proxy_serve_conn [OF assms, of why p backend cl detect ?r]
        proxy_serve_body [of why p backend cl detect ?r "Conn c"]
      by (auto simp: view_of_def Let_def split: option.split)
  next
    case False
    let ?w = "fresh_strip (Conn c)"
    have v: "?v = (case sv_writer (?next ?r ?w) of
        Conn c' \<Rightarrow> ?next ?r ?w
      | Stripping s w' \<Rightarrow>
          if sv_panic (?next ?r ?w) \<or> \<not> sw_is_html s then (?next ?r ?w)\<lparr>sv_writer := w'\<rparr>
          else if header_panics (sw_status s) w' then (?next ?r ?w)\<lparr>sv_writer := w', sv_panic := True\<rparr>
          else (?next ?r ?w)\<lparr>sv_writer := fst (rw_try (cl_takes cl) detect (strip_html (sw_buf s) [])
                                           (rw_write_header (sw_status s) w'))\<rparr>)"
      using False unfolding strip_serve_def passed_on_def Let_def by simp
    have body: "sv_body ?v = sv_body (?next ?r ?w)" by (simp add: strip_serve_body False)
    show ?thesis
    proof (cases "answered p backend ?r")
      case None
      then show ?thesis
        using unanswered_strip [OF None, of why cl detect "Conn c"] body v
          proxy_serve_body [of why p backend cl detect ?r ?w] by (auto simp: Let_def)
    next
      case (Some x)
      obtain code chunks where x: "x = (code, chunks)" by (cases x)
      obtain src f where next_run: "?next ?r ?w = relay cl detect ?r code src chunks f ?w"
        using Some by (auto simp: x answered_def proxy_serve_def split: sum.splits exchange.splits)
      have "drained chunks (sv_body ?v)" unfolding body next_run by (rule relay_drained)
      then show ?thesis
        using relay_strip [OF assms, of cl detect ?r code src chunks f] v next_run header_panics_bad
        by (auto simp: Some x Let_def view_of_def unsent_def split: if_splits)
    qed
  qed
qed

theorem every_path_cleans_up_witness:
  "let v = strip_serve patient (\<lambda>b. []) 0 40 (proxy_serve (\<lambda>e. []) default_proxy
        (\<lambda>q. Answered 99 [] [''oops''] None) patient (\<lambda>b. [])) (get_request ''/'' [] []) (Conn fresh_conn)
   in client_view (get_request ''/'' [] []) v = Some Nothing \<and> drained [''oops''] (sv_body v)"
proof -
  obtain q where "buildBackendRequest default_proxy (passed_on 0 40 (get_request ''/'' [] [])) = Inr q"
    using build_get [OF uri_ok_empty] by (auto simp: passed_on_def)
  then have "answered default_proxy (\<lambda>q. Answered 99 [] [''oops''] None) (passed_on 0 40 (get_request ''/'' [] [])) =
      Some (99, [''oops''])" by (simp add: answered_def)
  with every_path_cleans_up [of fresh_conn patient "\<lambda>b. []" 0 40 "\<lambda>e. []" default_proxy
      "\<lambda>q. Answered 99 [] [''oops''] None" "get_request ''/'' [] []"]
  show ?thesis by (simp add: fresh_conn_def bad_status_def Let_def)
qed

section \<open>Without a fault\<close>

text \<open>The backend as \<open>Reverse_Proxy\<close> sees it.\<close>

definition faultless :: "(out_request \<Rightarrow> exchange) \<Rightarrow> out_request \<Rightarrow> reply" where
  "faultless backend q =
     (case backend q of
        Failed gone timeout err \<Rightarrow> NoReply gone timeout
      | Answered code src chunks f \<Rightarrow> Reply code src chunks)"

lemma perform_relayed:
  "rw_edit (header_set ''Via'' ''1.1 peakshield'') (rw_edit (header_set ''X-PeakShield-Proxied'' ''1'')
     (fold (rw.perform detect) (copyResponseHeaders src) w)) = rw_edit (relayed src) w"
proof -
  have "list_all is_edit (copyResponseHeaders src)"
    using copy_response_edits_only [of src] by (simp add: edit_iff list_all_iff)
  from perform_edits [OF this, of detect w] show ?thesis by (simp add: relayed_def [abs_def] rw_edit_edit)
qed

lemma error_fits:
  assumes "c_sent c = None" and "c_body c = []" and "header_values (c_header c) ''Content-Length'' = []"
    and "body_allowed code" and "w \<in> {Conn c, fresh_strip (Conn c)}"
  shows "fold (try_perform None detect) (writeError p code errType) w =
    fold (rw.perform detect) (writeError p code errType) w"
proof -
  let ?g = "\<lambda>h. header_set ''X-Content-Type-Options'' ''nosniff'' (header_set ''X-PeakShield-Error'' errType
      (header_set ''Content-Type'' ''application/json; charset=utf-8'' h))"
  have edits: "rw_edit (header_set ''X-Content-Type-Options'' ''nosniff'') (rw_edit (header_set ''X-PeakShield-Error'' errType)
      (rw_edit (header_set ''Content-Type'' ''application/json; charset=utf-8'') w)) = rw_edit ?g w"
    by (simp add: rw_edit_edit)
  have "declared_length (?g (c_header c)) = None"
    using error_edits(2) [OF refl, of errType "c_header c"] assms(3) by (simp add: declared_length_def header_get_def)
  then have "fits n (rw_write_header code (rw_edit ?g w))" for n
    using assms error_edits(1) [OF refl, of errType "c_header c"] json_not_html
    by (auto simp: conn_map_header_def conn_write_header_def room_for_def)
  then show ?thesis
    by (simp add: writeError_def try_perform_def edits rw_try_fits)
qed

lemma serve_faultless:
  assumes "cl_takes cl = None" and c: "c_sent c = None" "c_body c = []"
    and none: "header_values (c_header c) ''Content-Length'' = []"
    and ok: "\<And>q code src chunks f. backend q = Answered code src chunks f \<Longrightarrow>
      \<not> bad_status code \<and> canonical_header src \<and> framed r code src (concat chunks) f"
    and w: "w \<in> {Conn c, fresh_strip (Conn c)}"
  shows "sv_writer (proxy_serve why p backend cl detect r w) =
      fold (rw.perform detect) (ServeHTTP p (faultless backend) r) w \<and>
    \<not> sv_panic (proxy_serve why p backend cl detect r w)"
proof -
  have failed: "sv_writer (fail_with p cl detect code e d l w) = fold (rw.perform detect) (writeError p code e) w \<and>
      \<not> sv_panic (fail_with p cl detect code e d l w)" if "body_allowed code" for code e d l
    using error_fits [OF c none that w] assms(1) by (simp add: fail_with_def)
  have codes: "body_allowed 502" "body_allowed 504" by (simp_all add: body_allowed_def)
  have answered: "sv_writer (relay cl detect r code src chunks f w) =
      fold (rw.perform detect) (map Write chunks) (rw_write_header code (rw_edit (relayed src) w)) \<and>
      \<not> sv_panic (relay cl detect r code src chunks f w)" if "backend q = Answered code src chunks f" for q code src chunks f
  proof -
    note fit = framed_fits [OF _ relayed_length [OF _ none]]
    have "body_fits code (relayed src (c_header c)) (concat chunks)" and good: "\<not> bad_status code"
      using ok [OF that] fit by blast+
    then have "fits (length (concat chunks)) (rw_write_header code (rw_edit (relayed src) w))"
      using w c by (auto simp: conn_map_header_def conn_write_header_def body_fits_def Let_def)
    moreover have "\<not> header_panics code (rw_edit (relayed src) w)" using good header_panics_bad by blast
    ultimately show ?thesis using relay_runs [OF assms(1), of code src w chunks detect r f] by auto
  qed
  show ?thesis
    using failed codes answered
    by (auto simp: proxy_serve_def ServeHTTP_def faultless_def perform_relayed Let_def
        split: sum.split exchange.split)
qed

text \<open>The two models of the stripper's middleware agree where the handlers leave the same writer.\<close>

lemma strip_steps_agree:
  assumes "\<not> act \<le> thr"
    and "sv_writer (handler (passed_on act thr r) (fresh_strip w)) = Stripping s w'"
    and "\<not> sv_panic (handler (passed_on act thr r) (fresh_strip w))"
    and "fold (rw.perform detect) (prog (passed_on act thr r)) (fresh_strip w) =
      Stripping s w'"
    and "sw_is_html s \<longrightarrow> \<not> header_panics (sw_status s) w' \<and>
      fst (rw_try (cl_takes cl) detect (strip_html (sw_buf s) []) (rw_write_header (sw_status s) w')) =
        rw_write detect (strip_html (sw_buf s) []) (rw_write_header (sw_status s) w')"
  shows "sv_writer (strip_serve cl detect act thr handler r w) =
      fst (strip_middleware detect (\<lambda>_. act) thr (scripted detect prog upd) r w st) \<and>
    \<not> sv_panic (strip_serve cl detect act thr handler r w)"
  using assms unfolding strip_serve_def strip_middleware_def scripted_def passed_on_def Let_def by simp

lemma answered_kept:
  assumes "cl_takes cl = None" and c: "c_sent c = None" "c_body c = []" and good: "\<not> bad_status code"
    and fit: "body_fits code (relayed src (c_header c)) (concat chunks)"
  shows "\<exists>s w'. sv_writer (relay cl detect r code src chunks f (fresh_strip (Conn c))) =
      Stripping s w' \<and>
    (sw_is_html s \<longrightarrow> \<not> header_panics (sw_status s) w' \<and>
      fst (rw_try (cl_takes cl) detect (strip_html (sw_buf s) []) (rw_write_header (sw_status s) w')) =
        rw_write detect (strip_html (sw_buf s) []) (rw_write_header (sw_status s) w'))"
proof (cases "is_html_type (header_get (relayed src (c_header c)) ''Content-Type'')")
  case True
  have "concat chunks = [] \<or> body_allowed code" using fit by (auto simp: body_fits_def)
  note kept = strip_kept_write [OF c this]
  obtain ops where run: "relay cl detect r code src chunks f (fresh_strip (Conn c)) =
      \<lparr>sv_writer = Stripping (kept_state (concat chunks) code True True)
         (Conn (c\<lparr>c_header := header_del ''Content-Length'' (relayed src (c_header c))\<rparr>)),
       sv_panic = False, sv_body = ops, sv_log = copy_log cl r (length (concat chunks)) f\<rparr>"
    using relay_kept [OF assms(1) True] by blast
  show ?thesis
    using good kept [of detect] strip_kept_plain [OF c] assms(1)
    unfolding run by (simp del: rw_write_header.simps rw_write.simps rw_try.simps)
next
  case False
  show ?thesis using relay_passed [OF assms(1) c good fit False, of detect r f] by auto
qed

text \<open>
  C16. Without a fault nothing changes.  For a client that takes every byte, a backend whose responses have
  three digits of status and bodies framed as \<open>net/http\<close> guarantees, and whatever error ends a body, the
  writer ends as the stripper's middleware around the proxy's list of calls leaves it, and nothing panics.
\<close>

theorem faultless_refines:
  assumes "cl_takes cl = None" and "c_sent c = None" and "c_body c = []"
    and "header_values (c_header c) ''Content-Length'' = []"
    and ok: "\<And>q code src chunks f. backend q = Answered code src chunks f \<Longrightarrow>
      \<not> bad_status code \<and> canonical_header src \<and> framed r code src (concat chunks) f"
  shows "let v = strip_serve cl detect act thr (proxy_serve why p backend cl detect) r (Conn c)
    in sv_writer v = fst (strip_middleware detect (\<lambda>_. act) thr
         (scripted detect (ServeHTTP p (faultless backend)) (\<lambda>_. id)) r (Conn c) ()) \<and> \<not> sv_panic v"
proof -
  let ?r = "passed_on act thr r"
  let ?w = "fresh_strip (Conn c)"
  let ?next = "proxy_serve why p backend cl detect"
  have ok': "\<not> bad_status code \<and> canonical_header src \<and> framed ?r code src (concat chunks) f"
    if "backend q = Answered code src chunks f" for q code src chunks f
    using ok [OF that] by (auto simp: framed_def passed_on_def)
  note run = serve_faultless [OF assms(1-4) ok', where p = p and why = why and detect = detect]
  show ?thesis
  proof (cases "act \<le> thr")
    case True
    then show ?thesis
      using run [where w = "Conn c"] by (simp add: strip_serve_def strip_middleware_def scripted_def passed_on_def)
  next
    case False
    have v: "sv_writer (?next ?r ?w) = fold (rw.perform detect) (ServeHTTP p (faultless backend) ?r) ?w"
      "\<not> sv_panic (?next ?r ?w)" using run [where w = ?w] by simp_all
    have "\<exists>s w'. sv_writer (?next ?r ?w) = Stripping s w' \<and>
      (sw_is_html s \<longrightarrow> \<not> header_panics (sw_status s) w' \<and>
        fst (rw_try (cl_takes cl) detect (strip_html (sw_buf s) []) (rw_write_header (sw_status s) w')) =
          rw_write detect (strip_html (sw_buf s) []) (rw_write_header (sw_status s) w'))"
    proof (cases "answered p backend ?r")
      case None
      then show ?thesis using unanswered_strip by meson
    next
      case (Some x)
      then obtain q code src chunks f where built: "buildBackendRequest p ?r = Inr q"
        and ans: "backend q = Answered code src chunks f"
        by (auto simp: answered_def split: sum.splits exchange.splits)
      have "\<not> bad_status code" and "body_fits code (relayed src (c_header c)) (concat chunks)"
        using ok' [OF ans] framed_fits [OF _ relayed_length [OF _ assms(4)]] by blast+
      then show ?thesis
        unfolding proxy_serve_answered [where backend = backend, OF built ans] by (rule answered_kept [OF assms(1-3)])
    qed
    then obtain s w' where w: "sv_writer (?next ?r ?w) = Stripping s w'"
      and agree: "sw_is_html s \<longrightarrow> \<not> header_panics (sw_status s) w' \<and>
        fst (rw_try (cl_takes cl) detect (strip_html (sw_buf s) []) (rw_write_header (sw_status s) w')) =
          rw_write detect (strip_html (sw_buf s) []) (rw_write_header (sw_status s) w')" by blast
    show ?thesis
      unfolding Let_def
      by (rule strip_steps_agree [where handler = ?next and prog = "ServeHTTP p (faultless backend)",
            OF False w v(2) w [unfolded v(1)] agree])
  qed
qed

theorem faultless_refines_witness:
  "\<not> sv_panic (strip_serve patient (\<lambda>b. []) 41 40
     (proxy_serve (\<lambda>e. []) default_proxy breaking_backend patient (\<lambda>b. [])) (get_request ''/'' [] []) (Conn fresh_conn))"
  using faultless_refines [where cl = patient and c = fresh_conn and backend = breaking_backend and act = 41
      and thr = 40 and r = "get_request ''/'' [] []", OF _ _ _ _ breaking_ok]
  by (simp add: patient_def fresh_conn_def header_values_def Let_def)

end
