(* ===== verification/Log_Ledger.thy ===== *)
theory Log_Ledger
  imports Slog Limiter_Edges Room_Props Lifecycle
begin

text \<open>
  What the waiting room, the limiter's sweep and \<open>main\<close> log (the proxy's records are in \<open>Proxy_Faults\<close>),
  and that the numbers an operator counts in the log are the numbers of what happened.
\<close>

section \<open>The waiting room\<close>

text \<open>\<open>path\<close> gives a request's path; a mode is logged as its number, a duration in nanoseconds.\<close>

definition mode_number :: "waitMode \<Rightarrow> int" where
  "mode_number m = (case m of modeQueued \<Rightarrow> 0 | modeQueueFull \<Rightarrow> 1 | modeTimeout \<Rightarrow> 2)"

definition page_log :: "(f64 \<Rightarrow> int) \<Rightarrow> config \<Rightarrow> int64 \<Rightarrow> waitMode \<Rightarrow> bytes \<Rightarrow> log_record" where
  "page_log oor cfg p mode path =
     slog Info ''wait_page_served''
       [(''mode'', Number (mode_number mode)), (''pos'', Number (sint p)), (''path'', Str path),
        (''body_bytes'', Number (int (length (concat (map call_body (serveWaitPage oor cfg p mode))))))]"

definition place :: "int64 \<Rightarrow> bytes \<Rightarrow> (bytes \<times> log_value) list" where
  "place p path = [(''pos'', Number (sint p)), (''path'', Str path)]"

definition safety_timeout :: bytes where
  "safety_timeout =
     ''drainTicket: safety_timeout reached '' @ map char_of [0xE2, 0x80, 0x94 :: nat] @
     '' backend may be unreachable''"

text \<open>The records of one event, in the state before it.\<close>

fun event_log :: "(f64 \<Rightarrow> int) \<Rightarrow> config \<Rightarrow> (nat \<Rightarrow> bytes) \<Rightarrow> event \<Rightarrow> room \<Rightarrow> log_record list" where
  "event_log oor cfg path (GiveUp g) s = [page_log oor cfg 0 modeQueueFull (path g)]"
| "event_log oor cfg path (QueueTimeoutE g) s =
     (case pc s g of
        Parked p \<Rightarrow>
          [slog Warn ''queue_timeout'' (place p (path g) @ [(''after'', Number (sint (QueueTimeout cfg)))]),
           page_log oor cfg p modeTimeout (path g)]
      | _ \<Rightarrow> [])"
| "event_log oor cfg path (ContextDone g) s =
     (case pc s g of
        Parked p \<Rightarrow> [slog Warn ''client_disconnect_while_queued'' (place p (path g))]
      | _ \<Rightarrow> [])"
| "event_log oor cfg path (CheckContext g) s =
     (if gone s g then [slog Warn ''admitted_but_disconnected'' [(''path'', Str (path g))]] else [])"
| "event_log oor cfg path (Claim g) s =
     (case pc s g of
        Claiming p \<Rightarrow> [slog Info ''queue_admission'' (place p (path g))]
      | _ \<Rightarrow> [])"
| "event_log oor cfg path (DrainLeave g) s =
     (if helper s g = DrainExpired
      then [slog Error safety_timeout [(''after'', Number (sint (QueueTimeout cfg + seconds 30)))]]
      else [])"
| "event_log oor cfg path e s = []"

fun room_log :: "(f64 \<Rightarrow> int) \<Rightarrow> config \<Rightarrow> (nat \<Rightarrow> bytes) \<Rightarrow> event list \<Rightarrow> room \<Rightarrow> log_record list" where
  "room_log oor cfg path [] s = []"
| "room_log oor cfg path (e # es) s =
     (case fire oor cfg e s of
        None \<Rightarrow> []
      | Some s' \<Rightarrow> event_log oor cfg path e s @ room_log oor cfg path es s')"

text \<open>How many records of a log have a message.\<close>

definition records :: "bytes \<Rightarrow> log_record list \<Rightarrow> int" where
  "records m l = int (length (filter (\<lambda>r. lr_msg r = m) l))"

lemma records_simps [simp]:
  "records m [] = 0" "records m (l @ l') = records m l + records m l'"
  "records m (slog lv n as # l) = of_bool (m = n) + records m l"
  by (auto simp: records_def slog_def)

lemma runs_exec: "runs oor cfg es s \<Longrightarrow> exec oor cfg es new_room = Some s"
  by (induction rule: runs.induct) (simp_all add: exec_snoc)

lemma room_log_snoc:
  "exec oor cfg es s0 = Some s \<Longrightarrow> fire oor cfg e s = Some s' \<Longrightarrow>
     room_log oor cfg path (es @ [e]) s0 = room_log oor cfg path es s0 @ event_log oor cfg path e s"
  by (induction es arbitrary: s0) (auto split: option.splits)

text \<open>Admitted from the queue, and parked or on the way from there.\<close>

fun from_queue :: "pc \<Rightarrow> bool" where
  "from_queue (Serving q) = q" | "from_queue (Releasing q) = q" | "from_queue (Handing q t) = q"
| "from_queue (Done (Served q)) = q" | "from_queue _ = False"

fun queueing :: "pc \<Rightarrow> bool" where
  "queueing (Parked p) = True" | "queueing (Signalled p) = True" | "queueing (Resumed p) = True"
| "queueing (Claiming p) = True" | "queueing _ = False"

definition paged :: "pc \<Rightarrow> bool" where "paged p \<longleftrightarrow> p = Done FullPage \<or> p = Done TimeoutPage"

definition drain_timeouts :: "event list \<Rightarrow> int" where
  "drain_timeouts es = int (length (filter (\<lambda>e. case e of DrainTimeout g \<Rightarrow> True | _ \<Rightarrow> False) es))"

definition ledger :: "event list \<Rightarrow> room \<Rightarrow> log_record list \<Rightarrow> bool" where
  "ledger es s l \<longleftrightarrow>
     records ''queue_admission'' l = occ from_queue (pc s) \<and>
     records ''wait_page_served'' l = occ paged (pc s) \<and>
     records ''queue_timeout'' l = occ (\<lambda>p. p = Done TimeoutPage) (pc s) \<and>
     records ''client_disconnect_while_queued'' l = occ (\<lambda>p. p = Done Vanished) (pc s) \<and>
     records ''admitted_but_disconnected'' l = occ (\<lambda>p. p = Done AdmittedGone) (pc s) \<and>
     records safety_timeout l + occ (\<lambda>h. h = DrainExpired) (helper s) = drain_timeouts es \<and>
     int (length (joined es)) =
       records ''queue_admission'' l + records ''queue_timeout'' l +
       records ''client_disconnect_while_queued'' l + records ''admitted_but_disconnected'' l +
       occ queueing (pc s)"

lemma safety_timeout_own [simp]:
  "safety_timeout \<noteq> ''queue_admission''" "safety_timeout \<noteq> ''wait_page_served''"
  "safety_timeout \<noteq> ''queue_timeout''" "safety_timeout \<noteq> ''client_disconnect_while_queued''"
  "safety_timeout \<noteq> ''admitted_but_disconnected''"
  by (simp_all add: safety_timeout_def)

lemmas safety_timeout_else [simp] = safety_timeout_own [symmetric]

lemma ledger_step:
  assumes step: "room_step oor cfg s e s'" and fin: "finite_room s" and hok: "helper_ok s"
    and old: "ledger es s l"
  shows "ledger (es @ [e]) s' (l @ event_log oor cfg path e s)"
proof -
  have nh: "helper s g = NoHelper" if "\<And>c. pc s g \<noteq> Done c" for g
    using hok that by (simp add: helper_ok_def)
  from step old show ?thesis
    by cases (simp_all add: ledger_def occ_pc_upd [OF fin] occ_helper_upd [OF fin] nh paged_def page_log_def
        drain_timeouts_def)
qed

lemma room_ledger: "runs oor cfg es s \<Longrightarrow> ledger es s (room_log oor cfg path es new_room)"
proof (induction rule: runs_step_induct)
  case nil
  then show ?case by (simp add: ledger_def new_room_def occ_zero paged_def drain_timeouts_def)
next
  case (step es s e s')
  have "room_log oor cfg path (es @ [e]) new_room =
      room_log oor cfg path es new_room @ event_log oor cfg path e s"
    by (rule room_log_snoc [OF runs_exec [OF step.hyps(1)] step_fire [OF step.hyps(2)]])
  then show ?case
    using ledger_step [OF step.hyps(2) _ _ step.IH] runs_ok [OF step.hyps(1)] by (simp add: room_ok_def)
qed

text \<open>How many lines of a log text carry a message, for a reader of JSON.\<close>

definition says :: "bytes \<Rightarrow> (bytes \<times> log_value) list option \<Rightarrow> bool" where
  "says m line = (case line of Some ms \<Rightarrow> map_of ms ''msg'' = Some (Str m) | None \<Rightarrow> False)"

definition lines_saying :: "bytes \<Rightarrow> bytes \<Rightarrow> int" where
  "lines_saying m text = int (length (filter (says m) (read_log text)))"

lemma lines_records:
  assumes stamps: "list_all plain_time stamps" "length stamps = length l"
    and plain: "list_all (\<lambda>r. scrub (lr_msg r) = lr_msg r) l"
  shows "lines_saying m (log_text (zip stamps l)) = records m l"
proof -
  have "list_all (\<lambda>(t, r). plain_time t) (zip stamps l)"
    using stamps(1) by (auto simp: list_all_iff dest: set_zip_leftD)
  then have "lines_saying m (log_text (zip stamps l)) =
      int (length (filter (says m) (map (\<lambda>(t, r). Some (logged t r)) (zip stamps l))))"
    by (simp add: lines_saying_def log_reads_back)
  also have "\<dots> = records m l"
    using stamps(2) plain
    by (induction stamps l rule: list_induct2) (auto simp: records_def says_def logged_def)
  finally show ?thesis .
qed

text \<open>The messages of the room are fixed texts in UTF-8; what a request brings stands in the attributes.\<close>

lemma safety_timeout_plain: "scrub safety_timeout = safety_timeout"
  unfolding safety_timeout_def by code_simp

lemma event_log_plain: "list_all (\<lambda>r. scrub (lr_msg r) = lr_msg r) (event_log oor cfg path e s)"
  by (cases e) (simp_all add: page_log_def slog_def scrub_ascii safety_timeout_plain split: pc.split)

lemma room_log_plain: "list_all (\<lambda>r. scrub (lr_msg r) = lr_msg r) (room_log oor cfg path es s)"
  by (induction es arbitrary: s) (simp_all add: event_log_plain split: option.split)

text \<open>
  C22. The log keeps the books of the waiting room.  Whoever reads the log's text as lines of JSON and counts
  them by message finds at any moment of any schedule, whatever the paths of the requests, one
  \<open>queue_admission\<close> for every request admitted from the queue, one \<open>wait_page_served\<close> for every 503 page,
  one \<open>queue_timeout\<close>, \<open>client_disconnect_while_queued\<close> and \<open>admitted_but_disconnected\<close> for every request
  that ended so, and one report of \<open>drainTicket\<close> for every drain that gave up, but for those that have yet
  to write it; and the requests that entered the queue are those of these lines and those still in it.
\<close>

theorem log_ledger:
  assumes "runs oor cfg es s"
    and "list_all plain_time stamps" and "length stamps = length (room_log oor cfg path es new_room)"
  shows "let n = (\<lambda>m. lines_saying m (log_text (zip stamps (room_log oor cfg path es new_room))))
    in n ''queue_admission'' = occ from_queue (pc s) \<and>
       n ''wait_page_served'' = occ paged (pc s) \<and>
       n ''queue_timeout'' = occ (\<lambda>p. p = Done TimeoutPage) (pc s) \<and>
       n ''client_disconnect_while_queued'' = occ (\<lambda>p. p = Done Vanished) (pc s) \<and>
       n ''admitted_but_disconnected'' = occ (\<lambda>p. p = Done AdmittedGone) (pc s) \<and>
       n safety_timeout + occ (\<lambda>h. h = DrainExpired) (helper s) = drain_timeouts es \<and>
       int (length (joined es)) = n ''queue_admission'' + n ''queue_timeout'' +
         n ''client_disconnect_while_queued'' + n ''admitted_but_disconnected'' + occ queueing (pc s)"
  using room_ledger [OF assms(1), of path] by (simp add: ledger_def Let_def lines_records [OF assms(2,3) room_log_plain])

text \<open>
  A request times out in the queue and its drain gives up; its path tries to end the line and to forge
  another admission.
\<close>

theorem log_ledger_witness:
  "\<exists>s. runs (\<lambda>_. 0) (tiny_config 1) [Arrive 0, Arrive 1, Undo 1, TakePosition 1, Enqueue 1, QueueTimeoutE 1,
       DrainTimeout 1, DrainLeave 1] s \<and>
     (let text = log_text (zip (replicate 3 ''2024-05-01T10:00:00Z'') (room_log (\<lambda>_. 0) (tiny_config 1)
        (\<lambda>_. ''/'' @ [CHR 0x22, CHR ''}'', CHR 0x0A] @ ''queue_admission'')
        [Arrive 0, Arrive 1, Undo 1, TakePosition 1, Enqueue 1, QueueTimeoutE 1, DrainTimeout 1, DrainLeave 1]
        new_room))
      in lines_saying ''wait_page_served'' text = 1 \<and> lines_saying safety_timeout text = 1 \<and>
         lines_saying ''queue_admission'' text = 0)"
proof -
  let ?es = "[Arrive 0, Arrive 1, Undo 1, TakePosition 1, Enqueue 1, QueueTimeoutE 1, DrainTimeout 1, DrainLeave 1]"
  let ?path = "\<lambda>_. ''/'' @ [CHR 0x22, CHR ''}'', CHR 0x0A] @ ''queue_admission''"
  let ?log = "room_log (\<lambda>_. 0) (tiny_config 1) ?path ?es new_room"
  have "\<exists>s. exec (\<lambda>_. 0) (tiny_config 1) ?es new_room = Some s \<and> helper s = (\<lambda>_. NoHelper)(1 := HelperDone) \<and>
      pc s = (\<lambda>_. Arriving)(0 := Serving False, 1 := Done TimeoutPage)"
    by (simp add: chan_send_def fun_upd_twist)
  then obtain s where run: "runs (\<lambda>_. 0) (tiny_config 1) ?es s"
    and s: "helper s = (\<lambda>_. NoHelper)(1 := HelperDone)" "pc s = (\<lambda>_. Arriving)(0 := Serving False, 1 := Done TimeoutPage)"
    by (blast intro: exec_runs)
  have "length ?log = 3" by (simp add: chan_send_def)
  moreover have "list_all plain_time (replicate 3 ''2024-05-01T10:00:00Z'')"
    by (simp add: list_all_iff plain_time_def is_digit_def)
  ultimately have "let n = (\<lambda>m. lines_saying m (log_text (zip (replicate 3 ''2024-05-01T10:00:00Z'') ?log)))
    in n ''queue_admission'' = occ from_queue (pc s) \<and> n ''wait_page_served'' = occ paged (pc s) \<and>
       n safety_timeout + occ (\<lambda>h. h = DrainExpired) (helper s) = drain_timeouts ?es"
    using log_ledger [OF run, of "replicate 3 ''2024-05-01T10:00:00Z''" ?path] by (simp only: Let_def length_replicate)
  moreover have "occ from_queue (pc s) = 0" "occ (\<lambda>h. h = DrainExpired) (helper s) = 0"
    by (simp_all add: s occ_zero)
  moreover have "{g. paged (pc s g)} = {1}" by (auto simp: s paged_def)
  then have "occ paged (pc s) = 1" by (simp add: occ_def)
  ultimately show ?thesis using run by (intro exI [of _ s]) (simp add: Let_def drain_timeouts_def)
qed

section \<open>The limiter\<close>

definition gc_log :: "int64 \<Rightarrow> limiter \<Rightarrow> log_record list" where
  "gc_log now l =
     (let totalEvicted = snd (runGC now l)
      in if 0 < totalEvicted
         then [slog Info ''ratelimiter GC sweep complete'' [(''evicted'', Number (int totalEvicted))]] else [])"

fun gcLoop_log :: "gc_event list \<Rightarrow> limiter \<Rightarrow> log_record list" where
  "gcLoop_log [] l = []"
| "gcLoop_log (DoneC # es) l = [slog Info ''ratelimiter GC goroutine stopping on context cancellation'' []]"
| "gcLoop_log (TickC now # es) l = gc_log now l @ gcLoop_log es (fst (runGC now l))"

definition gc_goroutine_log :: "gc_event list \<Rightarrow> limiter \<Rightarrow> log_record list" where
  "gc_goroutine_log es l = slog Info ''ratelimiter GC goroutine started'' [] # gcLoop_log es l"

text \<open>A sweep is logged exactly if the number of tracked addresses falls, with the number it falls by.\<close>

theorem gc_log_exact:
  assumes "limiter_ok l"
  shows "let fall = TrackedIPs (limiter_Stats oor l) - TrackedIPs (limiter_Stats oor (fst (runGC now l)))
    in gc_log now l =
      (if fall = 0 then []
       else [slog Info ''ratelimiter GC sweep complete'' [(''evicted'', Number (int fall))]])"
proof -
  have "TrackedIPs (limiter_Stats oor l) - TrackedIPs (limiter_Stats oor (fst (runGC now l))) = snd (runGC now l)"
    using runGC_count [OF assms, of oor now] by simp
  then show ?thesis by (simp add: gc_log_def Let_def)
qed

section \<open>\<open>main\<close>\<close>

text \<open>
  The records of the start-up and of the process's events; \<open>text_of\<close> is the text of a start-up error and
  \<open>why\<close> that of a listener's error, and \<open>Shutdown\<close>'s error is the context's.
\<close>

definition start_log :: "(startup_error \<Rightarrow> bytes) \<Rightarrow> environ \<Rightarrow> log_record list" where
  "start_log text_of env =
     slog Info ''Initializing PeakShield Reverse Proxy...'' [] #
     (case startup env of
        Inr pg \<Rightarrow> []
      | Inl e \<Rightarrow>
          (case e of
             ConfigFailed x \<Rightarrow> [slog Error ''Failed to load configuration'' [(''err'', Str (text_of e))]]
           | RoomPanics n \<Rightarrow> []
           | ProxyFailed x \<Rightarrow> [slog Error ''Failed to initialize proxy'' [(''err'', Str (text_of e))]]))"

definition up_log :: "config \<Rightarrow> which \<Rightarrow> log_record" where
  "up_log cfg k =
     (case k of
        Public \<Rightarrow>
          slog Info ''PeakShield active and listening''
            [(''listenAddr'', Str (ListenAddr cfg)), (''targetURL'', Str (TargetURL cfg))]
      | Metrics \<Rightarrow> slog Info ''PeakShield metrics listening'' [(''metricsAddr'', Str (MetricsListenAddr cfg))])"

definition serve_error_log :: "(which \<Rightarrow> bytes) \<Rightarrow> which \<Rightarrow> process \<Rightarrow> log_record list" where
  "serve_error_log why k s =
     (if sv_closing (pr_server s k) then []
      else [slog Error (case k of Public \<Rightarrow> ''Proxy server error'' | Metrics \<Rightarrow> ''Metrics server error'')
              [(''err'', Str (why k))]])"

fun proc_log :: "config \<Rightarrow> (which \<Rightarrow> bytes) \<Rightarrow> proc_event \<Rightarrow> process \<Rightarrow> log_record list" where
  "proc_log cfg why (Listens k) s = [up_log cfg k]"
| "proc_log cfg why (ListenFails k) s = up_log cfg k # serve_error_log why k s"
| "proc_log cfg why (AcceptFails k) s = serve_error_log why k s"
| "proc_log cfg why ReceiveSignal s =
     [slog Info ''Received termination signal. Shutting down servers gracefully...'' []]"
| "proc_log cfg why (DeadlineExceeded k) s =
     [slog Error (case k of Public \<Rightarrow> ''Proxy graceful shutdown failed'' | Metrics \<Rightarrow> ''Metrics graceful shutdown failed'')
        [(''err'', Str ''context deadline exceeded'')]]"
| "proc_log cfg why WaitReturns s = [slog Info ''PeakShield exited safely.'' []]"
| "proc_log cfg why e s = []"

fun main_log :: "config \<Rightarrow> (which \<Rightarrow> bytes) \<Rightarrow> proc_event list \<Rightarrow> process \<Rightarrow> log_record list" where
  "main_log cfg why [] s = []"
| "main_log cfg why (e # es) s =
     (case proc_fire e s of
        None \<Rightarrow> []
      | Some s' \<Rightarrow> proc_log cfg why e s @ main_log cfg why es s')"

text \<open>
  The last line of the log does not tell a clean end: in this run a request is cut off when the grace
  period ends, the failure of the shutdown is logged, and the program then says that it exited safely.
\<close>

theorem exits_safely_after_cut:
  "\<exists>s. proc_exec (up @ [Tick 15000000000, DeadlineExceeded Public, WaitReturns]) new_process = Some s \<and>
     pr_status s = Exited 0 \<and> sv_active (pr_server s Public) = 1 \<and>
     map lr_msg (main_log cfg why (up @ [Tick 15000000000, DeadlineExceeded Public, WaitReturns]) new_process) =
       [''PeakShield active and listening'', ''PeakShield metrics listening'',
        ''Received termination signal. Shutting down servers gracefully...'',
        ''Proxy graceful shutdown failed'', ''PeakShield exited safely.'']"
  by (simp add: up_def new_process_def proc_fire_def chan_send_def shutdown_returns_def on_server_def
      grace_def seconds_def up_log_def slog_def)

end
