(* ===== verification/Spec2Isabelle.thy ===== *)
theory Spec2Isabelle
  imports Strip_Spec Strip_Pool Strip_Cost Stats_Page Room_Limits Room_Estimate Mux_Props Gateway_Props Lifecycle
    Fault_Props Log_Ledger
begin

text \<open>
  \<^bold>\<open>PeakShield, a verification library.\<close>

  PeakShield is a reverse proxy in Go that shields one slow backend.  A request passes the rate limiter,
  the waiting room and the HTML stripper, in this order, and ends in the proxy, which sends it to the
  backend and relays the answer; \<open>main.go\<close> reads the configuration from the environment, builds the
  four modules and composes them with \<open>middleware.Chain\<close>.  All of this is modelled as executable
  definitions; their names are those of the source where that is possible.

  \<^bold>\<open>Ground.\<close>  \<open>Ps_Prelude\<close> holds bytes, strings, decimal numbers and the counting of goroutines;
  \<open>Go_Http\<close> the header map, requests, the server's \<open>ResponseWriter\<close> and the calls a handler makes on
  it; \<open>Go_Net\<close> addresses, URL paths and JSON strings; \<open>Go_Url\<close> the parser of \<open>net/url\<close>; \<open>Go_Strconv\<close>
  the parsers of \<open>strconv\<close> and \<open>time\<close>; \<open>Go_Decimal\<close> the shortest decimal text of a number and that it
  reads back; \<open>Float64\<close> IEEE double precision (rounding of rationals to 53 bits, ties to even,
  subnormals, infinities and NaN).  They model the parts of Go's standard library
  the source calls, as of Go 1.21.  A Go string is a list of bytes, a 64-bit integer a word, an error a
  value.

  \<^bold>\<open>Stripper\<close> (\<open>src/stripper/stripper.go\<close>).  \<open>Stripper\<close>: \<open>hasTagPrefix\<close>, \<open>indexFold\<close>, the five cases
  and the loop of \<open>stripHTML\<close>, over the remaining input, with its termination.  \<open>Strip_Spec\<close>: a grammar
  of segments the scanner is proved to implement, the length of the output, the banner, and a document
  that yields a script tag.  \<open>Strip_Cost\<close>: how often all the scanner's searches, \<open>indexFold\<close> and \<open>IndexByte\<close>
  alike, go round.
  \<open>Strip_Writer\<close>: \<open>stripperWriter\<close> as one of two implementations of the \<open>ResponseWriter\<close> interface, and
  what the client gets through the middleware.  \<open>Strip_Pool\<close>: the pool of buffers the requests share,
  under all their interleavings, with handlers that panic.

  \<^bold>\<open>Rate limiter\<close> (\<open>src/ratelimiter/token_bucket.go\<close>).  \<open>Token_Bucket\<close>: shards, buckets on a heap, one
  definition per critical section, \<open>Allow\<close>, the sweep.  \<open>Token_Bucket_Spec\<close>: its invariant and the
  refinement of a map from addresses to buckets.  \<open>Token_Budget\<close>: the bound on what an address is
  granted in any window after any past, with the rounding error of the refill.  \<open>Limiter_Edges\<close>: the exact burst, the
  sweep, and the values and idle times where the limiter misbehaves.  \<open>Limiter_Race\<close>: all interleavings
  of the critical sections of parallel calls and sweeps.

  \<^bold>\<open>Configuration\<close> (\<open>src/config/config.go\<close>).  \<open>Config\<close>: the readers, \<open>Load\<close>, \<open>validate\<close>, what a loaded
  configuration satisfies and which variable an error names.

  \<^bold>\<open>Waiting room\<close> (\<open>src/waitingroom/waitingroom.go\<close>).  \<open>Waiting_Room\<close>: the wait page, the estimate, and
  the channel's size, and a step function with one event per atomic operation, channel operation, timer and disconnect of
  \<open>Middleware\<close>, \<open>signalNext\<close> and \<open>drainTicket\<close>; \<open>runs\<close> are its schedules.  \<open>Room_Inv\<close>: the step relation
  by rules and the invariants of counters and tickets.  \<open>Room_Props\<close>: exact counters, first-come
  first-served, the limit on direct admissions, progress, termination, the account of all signals, those
  left in a dead ticket's buffer apart.
  \<open>Room_Limits\<close>: reachable states in which the limit, whatever the configuration, is exceeded without bound,
  a wake-up is lost or a dead ticket takes a signal.  \<open>Room_Estimate\<close>: for every timeout, the estimate is
  the documented one, rounded down, where that is not a whole number, despite the floating point; where it
  is one, the code may give a second less.

  \<^bold>\<open>Proxy\<close> (\<open>src/proxy/proxy.go\<close>).  \<open>Reverse_Proxy\<close>: construction, outbound request, headers, answers.
  \<open>Proxy_Props\<close>: exactly which headers, path and query the backend gets.  \<open>Proxy_Answers\<close>: exactly what
  the client gets for every outcome, the error body, the timeouts, the accepted targets.
  \<open>Proxy_Faults\<close> follows \<open>ServeHTTP\<close> and the stripper's middleware once more, with bodies that fail midway,
  clients that stop taking bytes, the server's panic on a bad status, the deferred clean-up and the log;
  \<open>Fault_Props\<close>: what a client sees of a cut body, that every path closes the backend's body, and that
  without a fault this is the model above.

  \<^bold>\<open>Composition\<close> (\<open>src/main.go\<close>, \<open>src/middleware/chain.go\<close>).  \<open>Pipeline\<close>: the chain, the limiter's wrapper,
  the waiting room as one request sees it, the metrics page, the servers' settings and the start-up.
  \<open>Pipeline_Props\<close>: the response to a request through the whole chain, that the goroutines of the
  waiting room implement the stage of the chain, that a program that starts is well set up, and that a
  huge queue size passes the validation and panics at start-up.
  \<open>Stats_Page\<close>: the JSON statistics page and a reader that gets its readings back.
  \<open>Serve_Mux\<close>, \<open>Mux_Props\<close>: the multiplexers with \<open>ServeMux\<close>'s cleaning of paths; what is redirected, and
  that a served path stays below the target's base.  \<open>Concurrent_Gateway\<close>: all requests at once, the
  events of \<open>Limiter_Race\<close> and \<open>Waiting_Room\<close> in the order of the chain, the stripper's reading of the
  counter and the backend's calls; \<open>Gateway_Props\<close>: every response is the sequential chain's, each
  request is sent at most once, the rate limit bounds what the backend is sent in any window, the count
  the stripper reads is exact.
  \<open>Lifecycle\<close>: the goroutines of \<open>main\<close> from the listeners to the exit; when it exits with which status,
  and that a signal ends it within the grace period and a bounded number of steps.

  \<^bold>\<open>Log.\<close>  \<open>Slog\<close>: the records of \<open>log/slog\<close>, the lines of its JSON handler and a reader that gets them
  back, so that no path or error text can forge a line.  \<open>Log_Ledger\<close>: the records of the waiting room,
  the limiter's sweep and \<open>main\<close>, and that counting the lines of the log counts what happened.

  \<^bold>\<open>Interfaces.\<close>  \<open>header_store\<close> (header map, interpreted as \<open>hd\<close>), \<open>response_writer\<close> (as \<open>cn\<close> by the
  connection and as \<open>rw\<close> by the stripper's writer), \<open>keyed_limiter\<close> (as \<open>kl\<close> by the limiter),
  \<open>fifo_channel\<close> (as \<open>ch\<close> by Go channels), \<open>rounding\<close> (as \<open>rd\<close> by the doubles) and \<open>component\<close> (as \<open>lim\<close> and
  \<open>rm\<close> by the limiter and the waiting room within the gateway) are locales whose laws the components
  discharge and on whose lemmas their clients rest.

  \<^bold>\<open>Parameters and bounds.\<close>  \<open>detect\<close> is \<open>http.DetectContentType\<close>; \<open>oor\<close> is the platform's conversion of
  an out-of-range float to an integer; \<open>fused\<close> tells whether the compiler fuses the refill's product and
  sum; \<open>backend\<close> is the exchange behind \<open>client.Do\<close>; \<open>client\<close> says
  how much of a body the client takes; the texts of errors are arguments; every reading of a clock is an argument, and a
  timer's event may come at any time after it is set, the deadline of the shutdown when its 15 seconds
  have passed.  The only fuel is that of \<open>trim_prefixes\<close> and of \<open>duration_loop\<close>, the length of the text,
  of which every round consumes at least one byte, and that of \<open>shortest\<close>, the exponents from the
  number's digits down to \<open>- 1074\<close>, of which the last always succeeds.

  \<^bold>\<open>Not modelled.\<close>  The network, TLS and the connection pool behind \<open>client.Do\<close>, of which only the settings
  are modelled, because they are the library's and not the source's; informational (1xx) responses, which
  \<open>client.Do\<close> never returns, but for 101; the Dockerfile and the load-test script.  The readings of the Go
  runtime (goroutines, memory) are arguments.  A queue that fits the address space but not the memory is
  taken to be allocated.
\<close>

end
